(* ===== verification/Prelude.thy ===== *)
theory Prelude
  imports Main "HOL-Library.Word" "HOL-Library.Monad_Syntax"
begin

text \<open>
  Shared vocabulary of the development: names for the machine integers of the C code, C memory
  as byte lists whose out-of-range accesses are \<open>None\<close>, the outcome of a C call that may
  fault or never return, and the generic lemmas on lists the components share.

  The two collections \<open>mem_defs\<close> and \<open>mem_simps\<close> hold the definitions and the
  success conditions of the memory accesses.
\<close>

unbundle bit_operations_syntax

named_theorems mem_defs \<open>definitions of the memory accesses\<close>
named_theorems mem_simps \<open>success conditions and results of the memory accesses\<close>

section \<open>Integers\<close>

text \<open>
  The unsigned types are words and wrap around. A C \<open>int\<close> is an \<open>int\<close>; where its
  width matters the bound is stated with \<open>int_max\<close>.
\<close>

type_synonym u8 = "8 word"
type_synonym u16 = "16 word"
type_synonym u32 = "32 word"
type_synonym u64 = "64 word"

definition int_max :: int where
  "int_max = 2147483647"

lemma sint_u32_word_of_int:
  "- 2147483648 \<le> k \<Longrightarrow> k < 2147483648 \<Longrightarrow> sint (word_of_int k :: u32) = k"
  by (simp only: sint_sbintrunc') (simp add: signed_take_bit_int_eq_self)

lemma nat_int_minus [simp]: "nat (int a - int b) = a - b"
  by simp

text \<open>
  A C string is the list of its characters before the terminating NUL. \<open>char\<close> is signed, so
  the bytes from 128 on compare as negative numbers.
\<close>

definition c_char :: "char \<Rightarrow> int" where
  "c_char c = (let n = of_char c in if n < 128 then n else n - 256)"

definition in_range :: "char \<Rightarrow> char \<Rightarrow> char \<Rightarrow> bool" where
  "in_range lo hi c \<longleftrightarrow> c_char lo \<le> c_char c \<and> c_char c \<le> c_char hi"

definition is_digit :: "char \<Rightarrow> bool" where
  "is_digit c = in_range CHR ''0'' CHR ''9'' c"

section \<open>Memory\<close>

text \<open>
  A block of memory is the list of its bytes. Offsets and lengths are C integers, so they may be
  negative; an access that leaves the block is undefined behaviour in C and \<open>None\<close> here.
\<close>

definition mem_read :: "'a list \<Rightarrow> int \<Rightarrow> int \<Rightarrow> 'a list option" where
  "mem_read m off n =
     (if 0 \<le> off \<and> 0 \<le> n \<and> off + n \<le> int (length m)
      then Some (take (nat n) (drop (nat off) m)) else None)"

definition mem_write :: "'a list \<Rightarrow> int \<Rightarrow> 'a list \<Rightarrow> 'a list option" where
  "mem_write m off bs =
     (if 0 \<le> off \<and> off + int (length bs) \<le> int (length m)
      then Some (take (nat off) m @ bs @ drop (nat off + length bs) m) else None)"

text \<open>\<open>memmove\<close> within one block: the source is read before the destination is written.\<close>

definition mem_move :: "'a list \<Rightarrow> int \<Rightarrow> int \<Rightarrow> int \<Rightarrow> 'a list option" where
  "mem_move m dst src n = do { bs \<leftarrow> mem_read m src n; mem_write m dst bs }"

definition mem_byte :: "'a list \<Rightarrow> int \<Rightarrow> 'a option" where
  "mem_byte m off = (if 0 \<le> off \<and> off < int (length m) then Some (m ! nat off) else None)"

declare mem_read_def [mem_defs] mem_write_def [mem_defs] mem_move_def [mem_defs]
  mem_byte_def [mem_defs]

lemma mem_read_in [mem_simps]:
  "0 \<le> off \<Longrightarrow> 0 \<le> n \<Longrightarrow> off + n \<le> int (length m) \<Longrightarrow>
   mem_read m off n = Some (take (nat n) (drop (nat off) m))"
  by (simp add: mem_read_def)

lemma mem_write_in [mem_simps]:
  "0 \<le> off \<Longrightarrow> off + int (length bs) \<le> int (length m) \<Longrightarrow>
   mem_write m off bs = Some (take (nat off) m @ bs @ drop (nat off + length bs) m)"
  by (simp add: mem_write_def)

lemma mem_read_length: "mem_read m off n = Some bs \<Longrightarrow> int (length bs) = n"
  by (auto simp: mem_read_def split: if_splits)

lemma mem_write_length: "mem_write m off bs = Some m' \<Longrightarrow> length m' = length m"
  by (auto simp: mem_write_def split: if_splits)

lemma mem_move_length: "mem_move m dst src n = Some m' \<Longrightarrow> length m' = length m"
  by (auto simp: mem_move_def bind_eq_Some_conv dest: mem_write_length)

text \<open>Writing at an offset and reading the same range back gives the bytes written.\<close>

lemma mem_read_write:
  "mem_write m off bs = Some m' \<Longrightarrow> mem_read m' off (int (length bs)) = Some bs"
  by (auto simp: mem_write_def mem_read_def split: if_splits)

section \<open>Outcomes\<close>

text \<open>
  A call of the C code returns, reaches undefined behaviour (an access outside its memory), or
  never returns.
\<close>

datatype 'a outcome = Returns 'a | Faults | Diverges

fun outcome_of :: "'a option option \<Rightarrow> 'a outcome" where
  "outcome_of None = Diverges"
| "outcome_of (Some None) = Faults"
| "outcome_of (Some (Some x)) = Returns x"

lemma outcome_of_eq_iff:
  "outcome_of r = Returns x \<longleftrightarrow> r = Some (Some x)"
  "outcome_of r = Faults \<longleftrightarrow> r = Some None"
  "outcome_of r = Diverges \<longleftrightarrow> r = None"
  by (cases r rule: outcome_of.cases; simp)+

section \<open>Lists\<close>

lemma rotate_conv_drop_take:
  "n \<le> length xs \<Longrightarrow> rotate n xs = drop n xs @ take n xs"
  by (cases "n = length xs") (simp_all add: rotate_drop_take)

text \<open>
  The first \<open>c\<close> bytes of a buffer rotated by \<open>t\<close>: storing \<open>bs\<close> right after
  them appends \<open>bs\<close>, moving \<open>t\<close> up by \<open>n\<close> removes the first \<open>n\<close>.
\<close>

lemma rotate_take_store:
  assumes "t < length d" "c + length bs \<le> length d" "h + length bs \<le> length d"
    and h: "h = (t + c) mod length d"
  shows "take (c + length bs) (rotate t (take h d @ bs @ drop (h + length bs) d))
    = take c (rotate t d) @ bs"
proof (cases "t + c < length d")
  case True
  then have "h = t + c" using h by simp
  with assms True show ?thesis by (simp add: rotate_conv_drop_take drop_take)
next
  case False
  then have "h = t + c - length d"
    using h assms(1,2) by (simp add: mod_if)
  with False assms(1-3) have hc: "c = length d - t + h" "h + length bs \<le> t" by auto
  then have "take t (take h d @ bs @ drop (h + length bs) d) =
      take h d @ bs @ take (t - (h + length bs)) (drop (h + length bs) d)"
    using assms(1) by simp
  moreover have "drop t (take h d @ bs @ drop (h + length bs) d) = drop t d"
    using hc assms(1) by simp
  ultimately show ?thesis
    using hc assms(1-3) by (simp add: rotate_conv_drop_take)
qed

lemma rotate_take_remove:
  assumes "n \<le> c" "c \<le> length d"
  shows "take (c - n) (rotate ((t + n) mod length d) d) = drop n (take c (rotate t d))"
proof -
  have "rotate ((t + n) mod length d) d = rotate n (rotate t d)"
    by (simp add: rotate_rotate add.commute flip: rotate_conv_mod)
  also have "\<dots> = drop n (rotate t d) @ take n (rotate t d)"
    using assms by (intro rotate_conv_drop_take) simp
  finally show ?thesis
    using assms by (simp add: drop_take)
qed

lemma take_drop_nth_upt:
  "n + k \<le> length xs \<Longrightarrow> take k (drop n xs) = map (\<lambda>i. xs ! (n + i)) [0..<k]"
  by (rule nth_equalityI) simp_all

end
