(* ===== verification/Ring.thy ===== *)
theory Ring
  imports Prelude
begin

text \<open>
  The I/O ring buffer of \<open>butil.c\<close> (\<open>ioring_t\<close>, \<open>butil_normalize_ring\<close>,
  \<open>butil_reset_ring\<close> and the two contiguous-pointer functions), with the two inline pieces
  of \<open>smbgw.c\<close> that advance it after a read from and a write to a socket. The ring is
  refined to the list of bytes it holds, and the interface its client relies on is the locale
  \<open>byte_fifo\<close>, interpreted on the model's operations.
\<close>

section \<open>State\<close>

record ioring =
  r_head :: int
  r_tail :: int
  r_count :: int
  r_size :: int
  r_data :: "u8 list"

section \<open>Operations\<close>

text \<open>
  One turn of either loop of \<open>butil_normalize_ring\<close>: \<open>k\<close> bytes are saved, the rest is
  moved down by \<open>k\<close> and the saved bytes are stored at the end. The first loop turns by four
  bytes, the second by one.
\<close>

definition ring_turn :: "int \<Rightarrow> ioring \<Rightarrow> ioring option" where
  "ring_turn k ring = do {
     mbuf \<leftarrow> mem_read (r_data ring) 0 k;
     d1 \<leftarrow> mem_move (r_data ring) 0 k (r_size ring - k);
     d2 \<leftarrow> mem_write d1 (r_size ring - k) mbuf;
     let h = r_head ring - k in
     Some (ring\<lparr>r_data := d2, r_tail := r_tail ring - k,
                r_head := (if h < 0 then h + r_size ring else h)\<rparr>)
   }"

lemma ring_turn_tail: "ring_turn k ring = Some ring' \<Longrightarrow> r_tail ring' = r_tail ring - k"
  by (auto simp: ring_turn_def Let_def bind_eq_Some_conv)

function ring_turn4_loop :: "ioring \<Rightarrow> ioring option" where
  "ring_turn4_loop ring =
     (if 4 \<le> r_tail ring
      then (case ring_turn 4 ring of None \<Rightarrow> None | Some ring' \<Rightarrow> ring_turn4_loop ring')
      else Some ring)"
  by pat_completeness auto
termination
  by (relation "measure (\<lambda>ring. nat (r_tail ring))") (auto dest: ring_turn_tail)

function ring_turn1_loop :: "ioring \<Rightarrow> ioring option" where
  "ring_turn1_loop ring =
     (if 0 < r_tail ring
      then (case ring_turn 1 ring of None \<Rightarrow> None | Some ring' \<Rightarrow> ring_turn1_loop ring')
      else Some ring)"
  by pat_completeness auto
termination
  by (relation "measure (\<lambda>ring. nat (r_tail ring))") (auto dest: ring_turn_tail)

declare ring_turn4_loop.simps [simp del] ring_turn1_loop.simps [simp del]

text \<open>
  \<open>normalize_ring\<close> is the body of \<open>butil_normalize_ring\<close> for a ring that is not
  \<open>NULL\<close>; \<open>temp\<close> is the optional scratch block.
\<close>

definition normalize_ring :: "ioring \<Rightarrow> u8 list option \<Rightarrow> ioring option" where
  "normalize_ring ring temp =
     (if r_tail ring = 0 then Some ring
      else if r_count ring = 0 then Some (ring\<lparr>r_tail := 0, r_head := 0\<rparr>)
      else if r_tail ring < r_head ring then do {
        d \<leftarrow> mem_move (r_data ring) 0 (r_tail ring) (r_count ring);
        Some (ring\<lparr>r_data := d, r_tail := 0, r_head := r_count ring\<rparr>)
      }
      else case temp of
        Some t \<Rightarrow> do {
          saved \<leftarrow> mem_read (r_data ring) 0 (r_head ring);
          t' \<leftarrow> mem_write t 0 saved;
          d1 \<leftarrow> mem_move (r_data ring) 0 (r_tail ring) (r_size ring - r_tail ring);
          back \<leftarrow> mem_read t' 0 (r_head ring);
          d2 \<leftarrow> mem_write d1 (r_size ring - r_tail ring) back;
          Some (ring\<lparr>r_data := d2, r_tail := 0, r_head := r_count ring\<rparr>)
        }
      | None \<Rightarrow> do { ring' \<leftarrow> ring_turn4_loop ring; ring_turn1_loop ring' })"

definition reset_ring :: "ioring \<Rightarrow> ioring" where
  "reset_ring ring = ring\<lparr>r_head := 0, r_tail := 0, r_count := 0\<rparr>"

text \<open>The public functions, with their \<open>NULL\<close> tests: a ring pointer is an option.\<close>

fun butil_normalize_ring :: "ioring option \<Rightarrow> u8 list option \<Rightarrow> ioring option option" where
  "butil_normalize_ring None temp = Some None"
| "butil_normalize_ring (Some ring) temp = map_option Some (normalize_ring ring temp)"

fun butil_reset_ring :: "ioring option \<Rightarrow> ioring option" where
  "butil_reset_ring None = None"
| "butil_reset_ring (Some ring) = Some (reset_ring ring)"

text \<open>
  The pointer functions return the offset stored through \<open>wptr\<close> or \<open>rptr\<close> (an offset
  into \<open>data\<close>) with the number of contiguous bytes.
\<close>

definition contiguous_write_ptr :: "ioring \<Rightarrow> int \<times> int" where
  "contiguous_write_ptr ring =
     (r_head ring,
      if r_head ring < r_tail ring then r_tail ring - r_head ring
      else if r_count ring < r_size ring then r_size ring - r_head ring
      else 0)"

fun butil_ring_contiguous_write_ptr :: "ioring option \<Rightarrow> int option \<times> int" where
  "butil_ring_contiguous_write_ptr None = (None, 0)"
| "butil_ring_contiguous_write_ptr (Some ring) =
     (case contiguous_write_ptr ring of (p, n) \<Rightarrow> (Some p, n))"

definition butil_ring_contiguous_read_ptr :: "ioring \<Rightarrow> int \<times> int" where
  "butil_ring_contiguous_read_ptr ring =
     (r_tail ring,
      if r_tail ring < r_head ring then r_head ring - r_tail ring
      else if 0 < r_count ring then r_size ring - r_tail ring
      else 0)"

text \<open>
  The client of the ring (the relay loop of \<open>smbgw.c\<close>) advances it by hand: after a socket
  read of \<open>n\<close> bytes at the write pointer, and after a socket write of \<open>n\<close> bytes from
  the read pointer.
\<close>

definition ring_wrote :: "int \<Rightarrow> ioring \<Rightarrow> ioring" where
  "ring_wrote n ring =
     (let head = r_head ring + n in
      ring\<lparr>r_count := r_count ring + n, r_head := (if r_size ring \<le> head then 0 else head)\<rparr>)"

definition ring_consumed :: "int \<Rightarrow> ioring \<Rightarrow> ioring" where
  "ring_consumed n ring =
     (let count = r_count ring - n; tail = r_tail ring + n;
          ring' = ring\<lparr>r_count := count, r_tail := (if r_size ring \<le> tail then 0 else tail)\<rparr>
      in if count = 0 then reset_ring ring' else ring')"

definition ring_room :: "ioring \<Rightarrow> int" where
  "ring_room ring = snd (contiguous_write_ptr ring)"

definition ring_avail :: "ioring \<Rightarrow> int" where
  "ring_avail ring = snd (butil_ring_contiguous_read_ptr ring)"

text \<open>Bytes received into the ring at the write pointer, bytes sent from the read pointer.\<close>

definition ring_put :: "u8 list \<Rightarrow> ioring \<Rightarrow> ioring option" where
  "ring_put bs ring = do {
     d \<leftarrow> mem_write (r_data ring) (fst (contiguous_write_ptr ring)) bs;
     Some (ring_wrote (int (length bs)) (ring\<lparr>r_data := d\<rparr>))
   }"

definition ring_get :: "int \<Rightarrow> ioring \<Rightarrow> (u8 list \<times> ioring) option" where
  "ring_get n ring = do {
     bs \<leftarrow> mem_read (r_data ring) (fst (butil_ring_contiguous_read_ptr ring)) n;
     Some (bs, ring_consumed n ring)
   }"

section \<open>Invariant and abstraction\<close>

text \<open>
  \<open>ring_ok\<close> is what every operation relies on: the positions lie inside the buffer, the
  head is the tail plus the count, wrapped. \<open>contents\<close> is the byte queue a ring stands for.
\<close>

definition ring_ok :: "ioring \<Rightarrow> bool" where
  "ring_ok ring \<longleftrightarrow>
     0 < r_size ring \<and> r_size ring \<le> int_max \<and> int (length (r_data ring)) = r_size ring \<and>
     0 \<le> r_tail ring \<and> r_tail ring < r_size ring \<and>
     0 \<le> r_count ring \<and> r_count ring \<le> r_size ring \<and>
     r_head ring = (r_tail ring + r_count ring) mod r_size ring"

definition contents :: "ioring \<Rightarrow> u8 list" where
  "contents ring = take (nat (r_count ring)) (rotate (nat (r_tail ring)) (r_data ring))"

definition linear :: "ioring \<Rightarrow> bool" where
  "linear ring \<longleftrightarrow> r_tail ring + r_count ring < r_size ring"

lemma mod_once:
  fixes a s :: int
  assumes "0 \<le> a" "a < 2 * s"
  shows "a mod s = (if a < s then a else a - s)"
proof (cases "a < s")
  case True
  with assms show ?thesis by simp
next
  case False
  then have "a mod s = (a - s) mod s" by simp
  also have "\<dots> = a - s" using False assms by (intro mod_pos_pos_trivial) auto
  finally show ?thesis using False by simp
qed

lemma head_linear: "ring_ok ring \<Longrightarrow> linear ring \<Longrightarrow> r_head ring = r_tail ring + r_count ring"
  by (simp add: ring_ok_def linear_def)

lemma head_wrapped:
  "ring_ok ring \<Longrightarrow> \<not> linear ring \<Longrightarrow> r_head ring = r_tail ring + r_count ring - r_size ring"
proof -
  assume ok: "ring_ok ring" and "\<not> linear ring"
  then have "(r_tail ring + r_count ring - r_size ring) mod r_size ring
    = r_tail ring + r_count ring - r_size ring"
    by (intro mod_pos_pos_trivial) (auto simp: ring_ok_def linear_def)
  with ok show ?thesis by (simp add: ring_ok_def)
qed

lemmas head_cases = head_linear head_wrapped

lemma ring_okD:
  assumes "ring_ok ring"
  shows "0 < r_size ring" "int (length (r_data ring)) = r_size ring" "0 \<le> r_tail ring"
    "r_tail ring < r_size ring" "0 \<le> r_count ring" "r_count ring \<le> r_size ring"
    "0 \<le> r_head ring" "r_head ring < r_size ring"
  using assms by (auto simp: ring_ok_def)

lemma length_contents: "ring_ok ring \<Longrightarrow> int (length (contents ring)) = r_count ring"
  using ring_okD [of ring] by (simp add: contents_def)

lemma contents_linear:
  "ring_ok ring \<Longrightarrow> linear ring \<Longrightarrow>
   contents ring = take (nat (r_count ring)) (drop (nat (r_tail ring)) (r_data ring))"
  using ring_okD [of ring]
  by (auto simp: contents_def rotate_conv_drop_take linear_def)

lemma contents_wrapped:
  assumes ok: "ring_ok ring" and w: "\<not> linear ring"
  shows "contents ring =
     drop (nat (r_tail ring)) (r_data ring) @ take (nat (r_head ring)) (r_data ring)"
proof -
  have "nat (r_count ring) = (length (r_data ring) - nat (r_tail ring)) + nat (r_head ring)"
    using head_wrapped [OF ok w] ring_okD [OF ok] w by (auto simp: linear_def)
  then show ?thesis
    using ring_okD [OF ok] head_wrapped [OF ok w]
    by (simp add: contents_def rotate_conv_drop_take)
qed

section \<open>Normalisation\<close>

text \<open>One turn by \<open>k\<close> stays inside the buffer, rotates it and keeps the queue.\<close>

lemma ring_turn_rotate:
  assumes ok: "ring_ok ring" and k: "0 < k" "k \<le> r_tail ring"
  shows "\<exists>ring'. ring_turn k ring = Some ring' \<and> ring_ok ring' \<and> contents ring' = contents ring \<and>
    r_tail ring' = r_tail ring - k \<and> r_count ring' = r_count ring \<and> r_size ring' = r_size ring"
proof -
  define n where "n = nat k"
  let ?d = "r_data ring"
  have len: "length ?d = nat (r_size ring)" and n: "n < length ?d" "k = int n" "int n \<le> r_tail ring"
    using ring_okD [OF ok] k by (auto simp: n_def)
  have pos: "r_size ring - k = int (length ?d - n)"
    using n ring_okD [OF ok] by simp
  have "mem_read ?d 0 k = Some (take n ?d)"
    using n by (simp add: mem_read_def)
  moreover have "mem_move ?d 0 k (r_size ring - k) = Some (drop n ?d @ drop (length ?d - n) ?d)"
    using n pos by (simp add: mem_move_def mem_read_def mem_write_def)
  moreover have "mem_write (drop n ?d @ drop (length ?d - n) ?d) (r_size ring - k) (take n ?d)
      = Some (drop n ?d @ take n ?d)"
    using n pos by (simp add: mem_write_def)
  moreover have "drop n ?d @ take n ?d = rotate n ?d"
    using n by (simp add: rotate_conv_drop_take)
  ultimately obtain ring' where eq: "ring_turn k ring = Some ring'"
    and r': "ring' = ring\<lparr>r_data := rotate n ?d, r_tail := r_tail ring - k,
               r_head := (if r_head ring - k < 0 then r_head ring - k + r_size ring
                          else r_head ring - k)\<rparr>"
    by (simp add: ring_turn_def Let_def)
  have head: "(if r_head ring - k < 0 then r_head ring - k + r_size ring else r_head ring - k)
      = (r_tail ring - k + r_count ring) mod r_size ring"
  proof (cases "linear ring")
    case True
    with ok k show ?thesis
      using head_linear [OF ok True] ring_okD [OF ok] by (simp add: linear_def)
  next
    case False
    have "(r_tail ring - k + r_count ring) mod r_size ring =
        (if r_tail ring - k + r_count ring < r_size ring then r_tail ring - k + r_count ring
         else r_tail ring - k + r_count ring - r_size ring)"
      by (rule mod_once) (use False ring_okD [OF ok] k in \<open>auto simp: linear_def\<close>)
    then show ?thesis
      unfolding head_wrapped [OF ok False] by auto
  qed
  have "ring_ok ring'"
    using ok k head by (simp add: ring_ok_def r')
  moreover have "contents ring' = contents ring"
    using n k by (simp add: contents_def r' rotate_rotate nat_diff_distrib)
  ultimately show ?thesis using eq by (simp add: r')
qed

lemma ring_turn1_loop_ok:
  "ring_ok ring \<Longrightarrow> \<exists>ring'. ring_turn1_loop ring = Some ring' \<and> ring_ok ring' \<and>
     contents ring' = contents ring \<and> r_tail ring' = 0 \<and>
     r_count ring' = r_count ring \<and> r_size ring' = r_size ring"
proof (induction ring rule: ring_turn1_loop.induct)
  case (1 ring)
  show ?case
  proof (cases "0 < r_tail ring")
    case True
    with "1.prems" obtain ring1 where r1: "ring_turn 1 ring = Some ring1" "ring_ok ring1"
      "contents ring1 = contents ring" "r_count ring1 = r_count ring" "r_size ring1 = r_size ring"
      using ring_turn_rotate [of ring 1] by auto
    with "1.IH" [OF True r1(1,2)] True show ?thesis
      by (auto simp: ring_turn1_loop.simps [of ring])
  next
    case False
    with "1.prems" show ?thesis by (simp add: ring_turn1_loop.simps [of ring] ring_ok_def)
  qed
qed

lemma ring_turn4_loop_ok:
  "ring_ok ring \<Longrightarrow> \<exists>ring'. ring_turn4_loop ring = Some ring' \<and> ring_ok ring' \<and>
     contents ring' = contents ring \<and>
     r_count ring' = r_count ring \<and> r_size ring' = r_size ring"
proof (induction ring rule: ring_turn4_loop.induct)
  case (1 ring)
  show ?case
  proof (cases "4 \<le> r_tail ring")
    case True
    with "1.prems" obtain ring1 where r1: "ring_turn 4 ring = Some ring1" "ring_ok ring1"
      "contents ring1 = contents ring" "r_count ring1 = r_count ring" "r_size ring1 = r_size ring"
      using ring_turn_rotate [of ring 4] by auto
    with "1.IH" [OF True r1(1,2)] True show ?thesis
      by (auto simp: ring_turn4_loop.simps [of ring])
  next
    case False
    with "1.prems" show ?thesis by (simp add: ring_turn4_loop.simps [of ring])
  qed
qed

lemma normalize_ring_ok:
  assumes ok: "ring_ok ring"
  shows "\<exists>ring'. normalize_ring ring None = Some ring' \<and> ring_ok ring' \<and>
    contents ring' = contents ring \<and> r_tail ring' = 0 \<and>
    r_count ring' = r_count ring \<and> r_size ring' = r_size ring"
proof -
  consider "r_tail ring = 0" | "r_tail ring \<noteq> 0" "r_count ring = 0"
    | "r_tail ring \<noteq> 0" "r_count ring \<noteq> 0" "r_tail ring < r_head ring"
    | "r_tail ring \<noteq> 0" "r_count ring \<noteq> 0" "\<not> r_tail ring < r_head ring"
    by blast
  then show ?thesis
  proof cases
    case 1
    with ok show ?thesis by (simp add: normalize_ring_def)
  next
    case 2
    with ok show ?thesis by (simp add: normalize_ring_def ring_ok_def contents_def)
  next
    case 3
    then have lin: "linear ring"
      using head_wrapped [OF ok] ring_okD [OF ok] by fastforce
    define c where "c = nat (r_count ring)"
    have c: "r_count ring = int c" "nat (r_tail ring) + c \<le> length (r_data ring)"
      using ring_okD [OF ok] lin by (auto simp: c_def linear_def)
    let ?d = "contents ring @ drop c (r_data ring)"
    have "mem_move (r_data ring) 0 (r_tail ring) (r_count ring) = Some ?d"
      using c ring_okD [OF ok] contents_linear [OF ok lin]
      by (simp add: mem_move_def mem_read_def mem_write_def)
    then have "normalize_ring ring None =
        Some (ring\<lparr>r_data := ?d, r_tail := 0, r_head := r_count ring\<rparr>)"
      using 3 by (simp add: normalize_ring_def)
    moreover have "length (contents ring) = c"
      using length_contents [OF ok] c by simp
    ultimately show ?thesis
      using ok c lin ring_okD [OF ok] by (auto simp: ring_ok_def contents_def linear_def)
  next
    case 4
    then show ?thesis
      using ring_turn4_loop_ok [OF ok] ring_turn1_loop_ok
      by (auto simp: normalize_ring_def) (metis bind.bind_lunit)
  qed
qed

text \<open>
  With a scratch block of at least \<open>head\<close> bytes the wrapped case is one copy. When the ring
  is full this path leaves the head at the end of the buffer, outside \<open>ring_ok\<close>.
\<close>

lemma normalize_ring_temp:
  assumes ok: "ring_ok ring" and w: "\<not> linear ring" and t: "r_tail ring \<noteq> 0"
    and temp: "r_head ring \<le> int (length tmp)"
  shows "normalize_ring ring (Some tmp) =
    Some (ring\<lparr>r_data := contents ring @ drop (nat (r_count ring)) (r_data ring),
               r_tail := 0, r_head := r_count ring\<rparr>)"
proof -
  let ?d = "r_data ring"
  define h where "h = nat (r_head ring)"
  define k where "k = nat (r_tail ring)"
  have h: "r_head ring = int h" "r_tail ring = int k" "h \<le> k" "0 < k" "k < length ?d"
      "r_size ring = int (length ?d)" "r_count ring = int (length ?d - k + h)"
    using head_wrapped [OF ok w] ring_okD [OF ok] t w by (auto simp: h_def k_def linear_def)
  have pos: "r_size ring - r_tail ring = int (length ?d - k)"
    using h by simp
  have cont: "contents ring = drop k ?d @ take h ?d"
    using contents_wrapped [OF ok w] by (simp add: h_def k_def)
  have temp': "h \<le> length tmp" using temp h by simp
  have "mem_read ?d 0 (r_head ring) = Some (take h ?d)"
    using h by (simp add: mem_read_def)
  moreover have "mem_write tmp 0 (take h ?d) = Some (take h ?d @ drop h tmp)"
    using h temp' by (simp add: mem_write_def)
  moreover have "mem_move ?d 0 (r_tail ring) (r_size ring - r_tail ring)
      = Some (drop k ?d @ drop (length ?d - k) ?d)"
    using h pos by (simp add: mem_move_def mem_read_def mem_write_def)
  moreover have "mem_read (take h ?d @ drop h tmp) 0 (r_head ring) = Some (take h ?d)"
    using h temp' by (simp add: mem_read_def)
  moreover have "mem_write (drop k ?d @ drop (length ?d - k) ?d) (r_size ring - r_tail ring)
        (take h ?d) = Some (contents ring @ drop (nat (r_count ring)) ?d)"
  proof -
    have "nat (int (length ?d - k)) + h = nat (int (length ?d - k + h))" by simp
    then show ?thesis
      unfolding pos h(7) cont using h(3-5) by (simp only: mem_write_def) simp
  qed
  ultimately show ?thesis
    using w t h by (simp add: normalize_ring_def)
qed

section \<open>Contiguous pointers\<close>

text \<open>
  The two functions give the longest contiguous run at the head and at the tail: the free space
  up to the end of the buffer, and the stored bytes up to the end of the buffer.
\<close>

lemma ring_room_eq:
  assumes ok: "ring_ok ring"
  shows "ring_room ring = min (r_size ring - r_count ring) (r_size ring - r_head ring)"
  by (cases "linear ring"; use ring_okD [OF ok] head_cases [OF ok] in
      \<open>simp add: ring_room_def contiguous_write_ptr_def linear_def min_def\<close>)

lemma ring_avail_eq:
  assumes ok: "ring_ok ring"
  shows "ring_avail ring = min (r_count ring) (r_size ring - r_tail ring)"
  by (cases "linear ring"; use ring_okD [OF ok] head_cases [OF ok] in
      \<open>simp add: ring_avail_def butil_ring_contiguous_read_ptr_def linear_def min_def\<close>)

lemma ring_put_ok:
  assumes ok: "ring_ok ring" and room: "int (length bs) \<le> ring_room ring"
  shows "\<exists>ring'. ring_put bs ring = Some ring' \<and> ring_ok ring' \<and>
    contents ring' = contents ring @ bs \<and> r_count ring' = r_count ring + int (length bs) \<and>
    r_tail ring' = r_tail ring \<and> r_size ring' = r_size ring"
proof -
  let ?n = "int (length bs)" and ?d = "r_data ring"
  define h where "h = nat (r_head ring)"
  have b: "?n \<le> r_size ring - r_count ring" "?n \<le> r_size ring - r_head ring"
    using room by (simp_all add: ring_room_eq [OF ok])
  have h: "r_head ring = int h" "h < length ?d" "h + length bs \<le> length ?d"
    using ring_okD [OF ok] b by (auto simp: h_def)
  define d where "d = take h ?d @ bs @ drop (h + length bs) ?d"
  have w: "mem_write ?d (fst (contiguous_write_ptr ring)) bs = Some d"
    using h by (simp add: mem_write_def contiguous_write_ptr_def d_def)
  have len: "length d = length ?d"
    using h by (simp add: d_def)
  define ring' where "ring' = ring_wrote ?n (ring\<lparr>r_data := d\<rparr>)"
  have flds: "r_count ring' = r_count ring + ?n" "r_tail ring' = r_tail ring"
    "r_size ring' = r_size ring" "r_data ring' = d"
    "r_head ring' = (if r_size ring \<le> r_head ring + ?n then 0 else r_head ring + ?n)"
    by (simp_all add: ring'_def ring_wrote_def Let_def)
  have head: "r_head ring' = (r_tail ring + (r_count ring + ?n)) mod r_size ring"
  proof -
    have "(r_tail ring + (r_count ring + ?n)) mod r_size ring = (r_head ring + ?n) mod r_size ring"
      using ok by (simp add: ring_ok_def mod_add_left_eq add.assoc [symmetric])
    also have "\<dots> = r_head ring'"
      using b ring_okD [OF ok] by (subst mod_once) (auto simp: flds)
    finally show ?thesis by simp
  qed
  have ok': "ring_ok ring'"
    using ok b head len by (simp add: ring_ok_def flds)
  have "contents ring' = contents ring @ bs"
  proof -
    define t c where "t = nat (r_tail ring)" and "c = nat (r_count ring)"
    have tc: "r_tail ring = int t" "r_count ring = int c" "t < length ?d"
        "c + length bs \<le> length ?d" "r_size ring = int (length ?d)"
      using ring_okD [OF ok] b by (auto simp: t_def c_def)
    have "int h = int ((t + c) mod length ?d)"
      using ok h(1) tc by (simp add: ring_ok_def zmod_int)
    then show ?thesis
      using rotate_take_store [OF tc(3,4) h(3)] tc
      by (simp add: contents_def flds d_def nat_add_distrib)
  qed
  show ?thesis
    using w ok' flds \<open>contents ring' = _\<close> by (simp add: ring_put_def flip: ring'_def)
qed

lemma ring_get_ok:
  assumes ok: "ring_ok ring" and n: "0 \<le> n" "n \<le> ring_avail ring"
  shows "\<exists>ring'. ring_get n ring = Some (take (nat n) (contents ring), ring') \<and> ring_ok ring' \<and>
    contents ring' = drop (nat n) (contents ring) \<and> r_count ring' = r_count ring - n \<and>
    r_size ring' = r_size ring"
proof -
  let ?d = "r_data ring"
  define t c k where "t = nat (r_tail ring)" and "c = nat (r_count ring)" and "k = nat n"
  have tc: "r_tail ring = int t" "r_count ring = int c" "n = int k" "r_size ring = int (length ?d)"
      "t < length ?d" "c \<le> length ?d" "k \<le> c" "t + k \<le> length ?d"
    using ring_okD [OF ok] n by (auto simp: t_def c_def k_def ring_avail_eq [OF ok])
  have "take k (contents ring) = take k (drop t ?d)"
    using tc by (simp add: contents_def rotate_conv_drop_take)
  then have get: "ring_get n ring = Some (take k (contents ring), ring_consumed n ring)"
    using tc by (simp add: ring_get_def mem_read_def butil_ring_contiguous_read_ptr_def)
  show ?thesis
  proof (cases "c = k")
    case True
    then show ?thesis
      using get ok tc by (simp add: ring_consumed_def reset_ring_def contents_def ring_ok_def Let_def)
  next
    case False
    define ring' where "ring' = ring_consumed n ring"
    have tail: "(if length ?d \<le> t + k then 0 else t + k) = (t + k) mod length ?d"
      using tc by (cases "t + k = length ?d") auto
    have flds: "r_count ring' = int (c - k)" "r_size ring' = r_size ring" "r_data ring' = ?d"
      "r_head ring' = r_head ring" "r_tail ring' = int ((t + k) mod length ?d)"
      using False tc tail
      by (auto simp: ring'_def ring_consumed_def Let_def of_nat_diff split: if_splits)
    have "(int ((t + k) mod length ?d) + int (c - k)) mod int (length ?d)
        = (int (t + k) + int (c - k)) mod int (length ?d)"
      by (simp only: zmod_int mod_add_left_eq)
    also have "int (t + k) + int (c - k) = int t + int c"
      using tc by (simp add: of_nat_diff)
    finally have "ring_ok ring'"
      using ok tc by (simp add: ring_ok_def flds)
    moreover have "contents ring' = drop k (contents ring)"
      using rotate_take_remove [OF tc(7,6), of t] tc by (simp add: contents_def flds)
    ultimately show ?thesis
      using get tc flds(1,2) unfolding ring'_def by simp
  qed
qed

section \<open>The interface the relay relies on\<close>

text \<open>
  A byte queue with a bounded contiguous room and a bounded contiguous run of stored bytes. Its
  client stores no more than the room and fetches no more than the run.
\<close>

datatype fifo_op = Put "u8 list" | Get int | Flatten

text \<open>
  A client that tests its guards: an operation whose guard fails is skipped, as the relay does
  when it breaks off. The result lists the bytes stored and the bytes fetched.
\<close>

fun fifo_run :: "('r \<Rightarrow> int) \<Rightarrow> ('r \<Rightarrow> int) \<Rightarrow> (u8 list \<Rightarrow> 'r \<Rightarrow> 'r option) \<Rightarrow>
    (int \<Rightarrow> 'r \<Rightarrow> (u8 list \<times> 'r) option) \<Rightarrow> ('r \<Rightarrow> 'r option) \<Rightarrow>
    fifo_op list \<Rightarrow> 'r \<Rightarrow> (u8 list \<times> u8 list \<times> 'r) option" where
  "fifo_run room avail put get flat [] q = Some ([], [], q)"
| "fifo_run room avail put get flat (Put bs # ops) q =
     (if int (length bs) \<le> room q
      then do { q' \<leftarrow> put bs q;
                (i, out, q'') \<leftarrow> fifo_run room avail put get flat ops q';
                Some (bs @ i, out, q'') }
      else fifo_run room avail put get flat ops q)"
| "fifo_run room avail put get flat (Get n # ops) q =
     (if 0 \<le> n \<and> n \<le> avail q
      then do { (bs, q') \<leftarrow> get n q;
                (i, out, q'') \<leftarrow> fifo_run room avail put get flat ops q';
                Some (i, bs @ out, q'') }
      else fifo_run room avail put get flat ops q)"
| "fifo_run room avail put get flat (Flatten # ops) q =
     do { q' \<leftarrow> flat q; fifo_run room avail put get flat ops q' }"

locale byte_fifo =
  fixes ok :: "'r \<Rightarrow> bool" and bytes :: "'r \<Rightarrow> u8 list"
    and room :: "'r \<Rightarrow> int" and avail :: "'r \<Rightarrow> int"
    and put :: "u8 list \<Rightarrow> 'r \<Rightarrow> 'r option"
    and get :: "int \<Rightarrow> 'r \<Rightarrow> (u8 list \<times> 'r) option"
    and flat :: "'r \<Rightarrow> 'r option"
  assumes put_law: "ok q \<Longrightarrow> int (length bs) \<le> room q \<Longrightarrow>
      \<exists>q'. put bs q = Some q' \<and> ok q' \<and> bytes q' = bytes q @ bs"
    and get_law: "ok q \<Longrightarrow> 0 \<le> n \<Longrightarrow> n \<le> avail q \<Longrightarrow>
      \<exists>q'. get n q = Some (take (nat n) (bytes q), q') \<and> ok q' \<and> bytes q' = drop (nat n) (bytes q)"
    and flat_law: "ok q \<Longrightarrow>
      \<exists>q'. flat q = Some q' \<and> ok q' \<and> bytes q' = bytes q \<and> avail q' = int (length (bytes q))"
    and avail_law: "ok q \<Longrightarrow> avail q \<le> int (length (bytes q))"
begin

lemma run_conserves:
  "ok q \<Longrightarrow> \<exists>i out q'. fifo_run room avail put get flat ops q = Some (i, out, q') \<and> ok q' \<and>
     out @ bytes q' = bytes q @ i"
proof (induction ops arbitrary: q)
  case Nil
  then show ?case by simp
next
  case (Cons op ops)
  show ?case
  proof (cases op)
    case (Put bs)
    then show ?thesis
      using put_law [OF Cons.prems, of bs] Cons.IH [OF Cons.prems] Cons.IH
      by (cases "int (length bs) \<le> room q") fastforce+
  next
    case (Get n)
    show ?thesis
    proof (cases "0 \<le> n \<and> n \<le> avail q")
      case True
      with get_law [OF Cons.prems] obtain q1 where q1: "get n q = Some (take (nat n) (bytes q), q1)"
          "ok q1" "bytes q1 = drop (nat n) (bytes q)"
        by auto
      from Cons.IH [OF q1(2)] obtain i out q2 where
        "fifo_run room avail put get flat ops q1 = Some (i, out, q2)" "ok q2"
        "out @ bytes q2 = bytes q1 @ i"
        by auto
      with True q1 Get show ?thesis
        by (simp flip: append_assoc) (simp add: append_take_drop_id)
    next
      case False
      with Cons.IH [OF Cons.prems] Get show ?thesis by auto
    qed
  next
    case Flatten
    then show ?thesis
      using flat_law [OF Cons.prems] Cons.IH by fastforce
  qed
qed

lemma flat_get_all:
  assumes "ok q"
  obtains q1 q2 where "flat q = Some q1" "avail q1 = int (length (bytes q))"
    "get (avail q1) q1 = Some (bytes q, q2)" "ok q2" "bytes q2 = []"
proof -
  from flat_law [OF assms] obtain q1 where q1: "flat q = Some q1" "ok q1" "bytes q1 = bytes q"
    "avail q1 = int (length (bytes q))" by auto
  from get_law [OF q1(2), of "avail q1"] q1 that show thesis by auto
qed

end

abbreviation flatten_ring :: "ioring \<Rightarrow> ioring option" where
  "flatten_ring ring \<equiv> normalize_ring ring None"

lemma flatten_ring_avail:
  "ring_ok ring \<Longrightarrow> \<exists>ring'. flatten_ring ring = Some ring' \<and> ring_ok ring' \<and>
     contents ring' = contents ring \<and> ring_avail ring' = int (length (contents ring))"
proof -
  assume ok: "ring_ok ring"
  from normalize_ring_ok [OF ok] obtain ring' where r: "flatten_ring ring = Some ring'"
    "ring_ok ring'" "contents ring' = contents ring" "r_tail ring' = 0" by auto
  then show ?thesis
    using ring_avail_eq [OF r(2)] length_contents [OF r(2)] ring_okD [OF r(2)] by simp
qed

interpretation ring_fifo: byte_fifo ring_ok contents ring_room ring_avail ring_put ring_get flatten_ring
proof unfold_locales
  fix ring :: ioring and bs :: "u8 list" assume "ring_ok ring" "int (length bs) \<le> ring_room ring"
  then show "\<exists>q'. ring_put bs ring = Some q' \<and> ring_ok q' \<and> contents q' = contents ring @ bs"
    using ring_put_ok by blast
next
  fix ring n assume "ring_ok ring" "0 \<le> n" "n \<le> ring_avail ring"
  then show "\<exists>q'. ring_get n ring = Some (take (nat n) (contents ring), q') \<and> ring_ok q' \<and>
      contents q' = drop (nat n) (contents ring)"
    using ring_get_ok by blast
next
  fix ring assume "ring_ok ring"
  then show "\<exists>q'. flatten_ring ring = Some q' \<and> ring_ok q' \<and> contents q' = contents ring \<and>
      ring_avail q' = int (length (contents ring))"
    by (rule flatten_ring_avail)
next
  fix ring assume "ring_ok ring"
  then show "ring_avail ring \<le> int (length (contents ring))"
    by (simp add: ring_avail_eq length_contents)
qed

section \<open>What the ring promises\<close>

text \<open>
  C17: Any client that tests the contiguous room before it stores and the contiguous run before it
  fetches never leaves the buffer, and the ring is a first-in first-out byte stream for it: what
  came out, followed by what the ring still holds, is what it held, followed by what went in.
\<close>

theorem ring_stream_conserved:
  assumes "ring_ok ring"
  shows "\<exists>stored fetched ring'.
    fifo_run ring_room ring_avail ring_put ring_get flatten_ring ops ring = Some (stored, fetched, ring') \<and>
    ring_ok ring' \<and> fetched @ contents ring' = contents ring @ stored"
  using assms by (rule ring_fifo.run_conserves)

definition ring_sample :: ioring where
  "ring_sample = \<lparr>r_head = 2, r_tail = 6, r_count = 4, r_size = 8, r_data = [3, 4, 0, 0, 0, 0, 1, 2]\<rparr>"

lemma ring_sample_ok: "ring_ok ring_sample"
  by (simp add: ring_ok_def ring_sample_def int_max_def)

theorem ring_stream_conserved_witness:
  "fifo_run ring_room ring_avail ring_put ring_get flatten_ring
     [Put [5, 6], Get 1, Flatten, Put [7, 8], Get 5] ring_sample
   = Some ([5, 6, 7, 8], [1, 2, 3, 4, 5, 6],
       \<lparr>r_head = 7, r_tail = 5, r_count = 2, r_size = 8, r_data = [2, 3, 4, 5, 6, 7, 8, 1]\<rparr>) \<and>
   [1, 2, 3, 4, 5, 6] @ [7, 8] = contents ring_sample @ [5, 6, 7, 8]"
proof -
  have run: "fifo_run ring_room ring_avail ring_put ring_get flatten_ring
     [Put [5, 6], Get 1, Flatten, Put [7, 8], Get 5] ring_sample
   = Some ([5, 6, 7, 8], [1, 2, 3, 4, 5, 6],
       \<lparr>r_head = 7, r_tail = 5, r_count = 2, r_size = 8, r_data = [2, 3, 4, 5, 6, 7, 8, 1]\<rparr>)"
    by code_simp
  have "contents \<lparr>r_head = 7, r_tail = 5, r_count = 2, r_size = 8, r_data = [2, 3, 4, 5, 6, 7, 8, 1]\<rparr>
      = [7, 8]"
    by code_simp
  with ring_stream_conserved [OF ring_sample_ok, of "[Put [5, 6], Get 1, Flatten, Put [7, 8], Get 5]"]
  show ?thesis unfolding run by simp
qed

text \<open>
  The contiguous room and run are what is left up to the end of the buffer, and each is 0
  only when the ring is full or empty, so a client that waits for room or for bytes makes progress.
\<close>

theorem ring_room_avail_exact:
  assumes "ring_ok ring"
  shows "ring_room ring = min (r_size ring - r_count ring) (r_size ring - r_head ring) \<and>
    ring_avail ring = min (r_count ring) (r_size ring - r_tail ring) \<and>
    (ring_room ring = 0 \<longleftrightarrow> r_count ring = r_size ring) \<and>
    (ring_avail ring = 0 \<longleftrightarrow> contents ring = [])"
proof -
  have "r_head ring < r_size ring" "r_tail ring < r_size ring" "0 \<le> r_count ring" "r_count ring \<le> r_size ring"
    using ring_okD [OF assms] by auto
  moreover have "contents ring = [] \<longleftrightarrow> r_count ring = 0"
    using length_contents [OF assms] by auto
  ultimately show ?thesis
    by (auto simp: ring_room_eq [OF assms] ring_avail_eq [OF assms] min_def)
qed

theorem ring_room_avail_exact_witness: "ring_room ring_sample = 4 \<and> ring_avail ring_sample = 2"
  using ring_room_avail_exact [OF ring_sample_ok] by (simp add: ring_sample_def)

lemma normalize_ring_any:
  assumes ok: "ring_ok ring" and tmp: "\<And>t. temp = Some t \<Longrightarrow> r_head ring \<le> int (length t)"
  shows "\<exists>ring'. normalize_ring ring temp = Some ring' \<and> contents ring' = contents ring \<and>
    r_tail ring' = 0 \<and> r_count ring' = r_count ring \<and> r_size ring' = r_size ring \<and>
    length (r_data ring') = length (r_data ring) \<and>
    r_head ring' = (if temp \<noteq> None \<and> r_tail ring \<noteq> 0 then r_count ring
                    else r_count ring mod r_size ring)"
proof (cases "temp \<noteq> None \<and> r_tail ring \<noteq> 0 \<and> \<not> linear ring")
  case True
  then obtain t where t: "temp = Some t" by auto
  have c: "int (length (contents ring)) = r_count ring" by (rule length_contents [OF ok])
  then have n: "nat (r_count ring) = length (contents ring)" by simp
  then have "contents (ring\<lparr>r_data := contents ring @ drop (length (contents ring)) (r_data ring),
      r_tail := 0, r_head := r_count ring\<rparr>) = contents ring"
    unfolding contents_def [of "ring\<lparr>r_data := d, r_tail := t, r_head := h\<rparr>" for d t h] by simp
  with True t c n show ?thesis
    using normalize_ring_temp [OF ok _ _ tmp [OF t]] ring_okD [OF ok] by (simp add: n)
next
  case False
  have same: "normalize_ring ring temp = normalize_ring ring None"
  proof (cases "r_tail ring = 0 \<or> r_count ring = 0 \<or> temp = None")
    case False
    then have "linear ring" using \<open>\<not> (_ \<and> _ \<and> _)\<close> by auto
    then have "r_tail ring < r_head ring"
      using head_linear [OF ok] ring_okD [OF ok] False by simp
    then show ?thesis by (simp add: normalize_ring_def)
  qed (auto simp: normalize_ring_def)
  obtain ring' where r: "normalize_ring ring None = Some ring'" "ring_ok ring'"
    "contents ring' = contents ring" "r_tail ring' = 0" "r_count ring' = r_count ring"
    "r_size ring' = r_size ring"
    using normalize_ring_ok [OF ok] by auto
  moreover have "r_count ring mod r_size ring = r_count ring" if "r_tail ring \<noteq> 0" "linear ring"
    using that ring_okD [OF ok] by (intro mod_pos_pos_trivial) (auto simp: linear_def)
  ultimately show ?thesis
    using ring_okD [OF ok] False by (auto simp: same ring_ok_def)
qed

text \<open>
  C18: Normalising makes the stored bytes one contiguous run at the start of the buffer and loses
  none of them, with or without a scratch block. The result is a well-formed ring except in one
  case: with a scratch block and a full ring that does not start at 0, the head is left one past the
  end of the buffer.
\<close>

theorem normalize_ring_contiguous:
  assumes "ring_ok ring" "\<And>t. temp = Some t \<Longrightarrow> r_head ring \<le> int (length t)"
  shows "\<exists>ring'. butil_normalize_ring (Some ring) temp = Some (Some ring') \<and>
    contents ring' = contents ring \<and>
    butil_ring_contiguous_read_ptr ring' = (0, r_count ring) \<and>
    mem_read (r_data ring') 0 (r_count ring) = Some (contents ring) \<and>
    (ring_ok ring' \<longleftrightarrow> \<not> (temp \<noteq> None \<and> r_tail ring \<noteq> 0 \<and> r_count ring = r_size ring))"
proof -
  obtain ring' where r: "normalize_ring ring temp = Some ring'" "contents ring' = contents ring"
    "r_tail ring' = 0" "r_count ring' = r_count ring" "r_size ring' = r_size ring"
    "length (r_data ring') = length (r_data ring)"
    "r_head ring' = (if temp \<noteq> None \<and> r_tail ring \<noteq> 0 then r_count ring
                     else r_count ring mod r_size ring)"
    using normalize_ring_any [OF assms] by auto
  note ok = ring_okD [OF assms(1)]
  have m: "r_count ring mod r_size ring = (if r_count ring < r_size ring then r_count ring else 0)"
    using ok mod_once [of "r_count ring" "r_size ring"] by auto
  have "r_size ring \<le> int_max" using assms(1) by (simp add: ring_ok_def)
  then have "ring_ok ring' \<longleftrightarrow> \<not> (temp \<noteq> None \<and> r_tail ring \<noteq> 0 \<and> r_count ring = r_size ring)"
    using ok m by (auto simp: ring_ok_def r)
  moreover have "butil_ring_contiguous_read_ptr ring' = (0, r_count ring)"
    using ok m r by (auto simp: butil_ring_contiguous_read_ptr_def split: if_splits)
  moreover have "mem_read (r_data ring') 0 (r_count ring) = Some (contents ring)"
    using ok r by (simp add: mem_read_def contents_def [of ring'] flip: r(2))
  ultimately show ?thesis using r by simp
qed

theorem normalize_ring_contiguous_witness:
  "\<exists>ring'. butil_normalize_ring (Some ring_sample) (Some [0, 0]) = Some (Some ring') \<and>
     mem_read (r_data ring') 0 4 = Some [1, 2, 3, 4] \<and> ring_ok ring'"
proof -
  have "contents ring_sample = [1, 2, 3, 4]" by code_simp
  with normalize_ring_contiguous [OF ring_sample_ok, of "Some [0, 0]"] show ?thesis
    by (auto simp: ring_sample_def)
qed

text \<open>
  After that one case the ring offers no room although bytes have been taken out, until it has
  drained completely; the turning loops (no scratch block) offer the freed room at once.
\<close>

theorem normalize_full_ring_room:
  assumes "ring_ok ring" "r_tail ring \<noteq> 0" "r_count ring = r_size ring"
    and "r_head ring \<le> int (length t)" "0 < n" "n < r_size ring"
  shows "\<exists>scratch turned. normalize_ring ring (Some t) = Some scratch \<and>
    normalize_ring ring None = Some turned \<and>
    ring_room (ring_consumed n scratch) = 0 \<and> ring_room (ring_consumed n turned) = n"
proof -
  obtain r1 where "normalize_ring ring (Some t) = Some r1" "r_tail r1 = 0"
      "r_count r1 = r_size ring" "r_size r1 = r_size ring" "r_head r1 = r_size ring"
    using normalize_ring_any [OF assms(1), of "Some t"] assms(2-4) by auto
  moreover obtain r2 where "normalize_ring ring None = Some r2" "r_tail r2 = 0"
      "r_count r2 = r_size ring" "r_size r2 = r_size ring" "r_head r2 = 0"
    using normalize_ring_any [OF assms(1), of None] assms(2-4) by auto
  ultimately show ?thesis
    using assms(5,6)
    by (simp add: ring_room_def contiguous_write_ptr_def ring_consumed_def Let_def)
qed

theorem normalize_full_ring_room_witness:
  "\<exists>scratch turned.
     normalize_ring \<lparr>r_head = 3, r_tail = 3, r_count = 4, r_size = 4, r_data = [2, 3, 4, 1]\<rparr> (Some [0, 0, 0])
       = Some scratch \<and>
     normalize_ring \<lparr>r_head = 3, r_tail = 3, r_count = 4, r_size = 4, r_data = [2, 3, 4, 1]\<rparr> None
       = Some turned \<and>
     ring_room (ring_consumed 2 scratch) = 0 \<and> ring_room (ring_consumed 2 turned) = 2"
  by (rule normalize_full_ring_room) (simp_all add: ring_ok_def int_max_def)

end
