(* ===== verification/Smb_Constants.thy ===== *)
theory Smb_Constants
  imports Prelude
begin

text \<open>
  The constants of \<open>smbproto.h\<close>: the SMB1 and SMB2 command codes, by the names and values
  of the header, and the FLAGS and FLAGS2 bits. SMB1 codes are one byte, SMB2 codes two.
\<close>

section \<open>SMB1 commands\<close>

abbreviation (input) SMB_COM_CREATE_DIRECTORY :: u8 where "SMB_COM_CREATE_DIRECTORY \<equiv> 0x00"
abbreviation (input) SMB_COM_DELETE_DIRECTORY :: u8 where "SMB_COM_DELETE_DIRECTORY \<equiv> 0x01"
abbreviation (input) SMB_COM_OPEN :: u8 where "SMB_COM_OPEN \<equiv> 0x02"
abbreviation (input) SMB_COM_CREATE :: u8 where "SMB_COM_CREATE \<equiv> 0x03"
abbreviation (input) SMB_COM_CLOSE :: u8 where "SMB_COM_CLOSE \<equiv> 0x04"
abbreviation (input) SMB_COM_FLUSH :: u8 where "SMB_COM_FLUSH \<equiv> 0x05"
abbreviation (input) SMB_COM_DELETE :: u8 where "SMB_COM_DELETE \<equiv> 0x06"
abbreviation (input) SMB_COM_RENAME :: u8 where "SMB_COM_RENAME \<equiv> 0x07"
abbreviation (input) SMB_COM_QUERY_INFORMATION :: u8 where "SMB_COM_QUERY_INFORMATION \<equiv> 0x08"
abbreviation (input) SMB_COM_SET_INFORMATION :: u8 where "SMB_COM_SET_INFORMATION \<equiv> 0x09"
abbreviation (input) SMB_COM_READ :: u8 where "SMB_COM_READ \<equiv> 0x0A"
abbreviation (input) SMB_COM_WRITE :: u8 where "SMB_COM_WRITE \<equiv> 0x0B"
abbreviation (input) SMB_COM_LOCK_BYTE_RANGE :: u8 where "SMB_COM_LOCK_BYTE_RANGE \<equiv> 0x0C"
abbreviation (input) SMB_COM_UNLOCK_BYTE_RANGE :: u8 where "SMB_COM_UNLOCK_BYTE_RANGE \<equiv> 0x0D"
abbreviation (input) SMB_COM_CREATE_TEMPORARY :: u8 where "SMB_COM_CREATE_TEMPORARY \<equiv> 0x0E"
abbreviation (input) SMB_COM_CREATE_NEW :: u8 where "SMB_COM_CREATE_NEW \<equiv> 0x0F"
abbreviation (input) SMB_COM_CHECK_DIRECTORY :: u8 where "SMB_COM_CHECK_DIRECTORY \<equiv> 0x10"
abbreviation (input) SMB_COM_PROCESS_EXIT :: u8 where "SMB_COM_PROCESS_EXIT \<equiv> 0x11"
abbreviation (input) SMB_COM_SEEK :: u8 where "SMB_COM_SEEK \<equiv> 0x12"
abbreviation (input) SMB_COM_LOCK_AND_READ :: u8 where "SMB_COM_LOCK_AND_READ \<equiv> 0x13"
abbreviation (input) SMB_COM_WRITE_AND_UNLOCK :: u8 where "SMB_COM_WRITE_AND_UNLOCK \<equiv> 0x14"
abbreviation (input) SMB_COM_READ_RAW :: u8 where "SMB_COM_READ_RAW \<equiv> 0x1A"
abbreviation (input) SMB_COM_READ_MPX :: u8 where "SMB_COM_READ_MPX \<equiv> 0x1B"
abbreviation (input) SMB_COM_READ_MPX_SECONDARY :: u8 where "SMB_COM_READ_MPX_SECONDARY \<equiv> 0x1C"
abbreviation (input) SMB_COM_WRITE_RAW :: u8 where "SMB_COM_WRITE_RAW \<equiv> 0x1D"
abbreviation (input) SMB_COM_WRITE_MPX :: u8 where "SMB_COM_WRITE_MPX \<equiv> 0x1E"
abbreviation (input) SMB_COM_WRITE_MPX_SECONDARY :: u8 where "SMB_COM_WRITE_MPX_SECONDARY \<equiv> 0x1F"
abbreviation (input) SMB_COM_WRITE_COMPLETE :: u8 where "SMB_COM_WRITE_COMPLETE \<equiv> 0x20"
abbreviation (input) SMB_COM_QUERY_SERVER :: u8 where "SMB_COM_QUERY_SERVER \<equiv> 0x21"
abbreviation (input) SMB_COM_SET_INFORMATION2 :: u8 where "SMB_COM_SET_INFORMATION2 \<equiv> 0x22"
abbreviation (input) SMB_COM_QUERY_INFORMATION2 :: u8 where "SMB_COM_QUERY_INFORMATION2 \<equiv> 0x23"
abbreviation (input) SMB_COM_LOCKING_ANDX :: u8 where "SMB_COM_LOCKING_ANDX \<equiv> 0x24"
abbreviation (input) SMB_COM_TRANSACTION :: u8 where "SMB_COM_TRANSACTION \<equiv> 0x25"
abbreviation (input) SMB_COM_TRANSACTION_SECONDARY :: u8 where "SMB_COM_TRANSACTION_SECONDARY \<equiv> 0x26"
abbreviation (input) SMB_COM_IOCTL :: u8 where "SMB_COM_IOCTL \<equiv> 0x27"
abbreviation (input) SMB_COM_IOCTL_SECONDARY :: u8 where "SMB_COM_IOCTL_SECONDARY \<equiv> 0x28"
abbreviation (input) SMB_COM_COPY :: u8 where "SMB_COM_COPY \<equiv> 0x29"
abbreviation (input) SMB_COM_MOVE :: u8 where "SMB_COM_MOVE \<equiv> 0x2A"
abbreviation (input) SMB_COM_ECHO :: u8 where "SMB_COM_ECHO \<equiv> 0x2B"
abbreviation (input) SMB_COM_WRITE_AND_CLOSE :: u8 where "SMB_COM_WRITE_AND_CLOSE \<equiv> 0x2C"
abbreviation (input) SMB_COM_OPEN_ANDX :: u8 where "SMB_COM_OPEN_ANDX \<equiv> 0x2D"
abbreviation (input) SMB_COM_READ_ANDX :: u8 where "SMB_COM_READ_ANDX \<equiv> 0x2E"
abbreviation (input) SMB_COM_WRITE_ANDX :: u8 where "SMB_COM_WRITE_ANDX \<equiv> 0x2F"
abbreviation (input) SMB_COM_NEW_FILE_SIZE :: u8 where "SMB_COM_NEW_FILE_SIZE \<equiv> 0x30"
abbreviation (input) SMB_COM_CLOSE_AND_TREE_DISC :: u8 where "SMB_COM_CLOSE_AND_TREE_DISC \<equiv> 0x31"
abbreviation (input) SMB_COM_TRANSACTION2 :: u8 where "SMB_COM_TRANSACTION2 \<equiv> 0x32"
abbreviation (input) SMB_COM_TRANSACTION2_SECONDARY :: u8 where "SMB_COM_TRANSACTION2_SECONDARY \<equiv> 0x33"
abbreviation (input) SMB_COM_FIND_CLOSE2 :: u8 where "SMB_COM_FIND_CLOSE2 \<equiv> 0x34"
abbreviation (input) SMB_COM_FIND_NOTIFY_CLOSE :: u8 where "SMB_COM_FIND_NOTIFY_CLOSE \<equiv> 0x35"
abbreviation (input) SMB_COM_TREE_CONNECT :: u8 where "SMB_COM_TREE_CONNECT \<equiv> 0x70"
abbreviation (input) SMB_COM_TREE_DISCONNECT :: u8 where "SMB_COM_TREE_DISCONNECT \<equiv> 0x71"
abbreviation (input) SMB_COM_NEGOTIATE :: u8 where "SMB_COM_NEGOTIATE \<equiv> 0x72"
abbreviation (input) SMB_COM_SESSION_SETUP_ANDX :: u8 where "SMB_COM_SESSION_SETUP_ANDX \<equiv> 0x73"
abbreviation (input) SMB_COM_LOGOFF_ANDX :: u8 where "SMB_COM_LOGOFF_ANDX \<equiv> 0x74"
abbreviation (input) SMB_COM_TREE_CONNECT_ANDX :: u8 where "SMB_COM_TREE_CONNECT_ANDX \<equiv> 0x75"
abbreviation (input) SMB_COM_QUERY_INFORMATION_DISK :: u8 where "SMB_COM_QUERY_INFORMATION_DISK \<equiv> 0x80"
abbreviation (input) SMB_COM_SEARCH :: u8 where "SMB_COM_SEARCH \<equiv> 0x81"
abbreviation (input) SMB_COM_FIND :: u8 where "SMB_COM_FIND \<equiv> 0x82"
abbreviation (input) SMB_COM_FIND_UNIQUE :: u8 where "SMB_COM_FIND_UNIQUE \<equiv> 0x83"
abbreviation (input) SMB_COM_FIND_CLOSE :: u8 where "SMB_COM_FIND_CLOSE \<equiv> 0x84"
abbreviation (input) SMB_COM_NT_TRANSACT :: u8 where "SMB_COM_NT_TRANSACT \<equiv> 0xA0"
abbreviation (input) SMB_COM_NT_TRANSACT_SECONDARY :: u8 where "SMB_COM_NT_TRANSACT_SECONDARY \<equiv> 0xA1"
abbreviation (input) SMB_COM_NT_CREATE_ANDX :: u8 where "SMB_COM_NT_CREATE_ANDX \<equiv> 0xA2"
abbreviation (input) SMB_COM_NT_CANCEL :: u8 where "SMB_COM_NT_CANCEL \<equiv> 0xA4"
abbreviation (input) SMB_COM_NT_RENAME :: u8 where "SMB_COM_NT_RENAME \<equiv> 0xA5"
abbreviation (input) SMB_COM_OPEN_PRINT_FILE :: u8 where "SMB_COM_OPEN_PRINT_FILE \<equiv> 0xC0"
abbreviation (input) SMB_COM_WRITE_PRINT_FILE :: u8 where "SMB_COM_WRITE_PRINT_FILE \<equiv> 0xC1"
abbreviation (input) SMB_COM_CLOSE_PRINT_FILE :: u8 where "SMB_COM_CLOSE_PRINT_FILE \<equiv> 0xC2"
abbreviation (input) SMB_COM_GET_PRINT_QUEUE :: u8 where "SMB_COM_GET_PRINT_QUEUE \<equiv> 0xC3"
abbreviation (input) SMB_COM_READ_BULK :: u8 where "SMB_COM_READ_BULK \<equiv> 0xD8"
abbreviation (input) SMB_COM_WRITE_BULK :: u8 where "SMB_COM_WRITE_BULK \<equiv> 0xD9"
abbreviation (input) SMB_COM_WRITE_BULK_DATA :: u8 where "SMB_COM_WRITE_BULK_DATA \<equiv> 0xDA"

text \<open>All command codes the header defines, in its order.\<close>

definition smb_commands :: "u8 list" where
  "smb_commands = [
     SMB_COM_CREATE_DIRECTORY, SMB_COM_DELETE_DIRECTORY, SMB_COM_OPEN,
     SMB_COM_CREATE, SMB_COM_CLOSE, SMB_COM_FLUSH,
     SMB_COM_DELETE, SMB_COM_RENAME, SMB_COM_QUERY_INFORMATION,
     SMB_COM_SET_INFORMATION, SMB_COM_READ, SMB_COM_WRITE,
     SMB_COM_LOCK_BYTE_RANGE, SMB_COM_UNLOCK_BYTE_RANGE, SMB_COM_CREATE_TEMPORARY,
     SMB_COM_CREATE_NEW, SMB_COM_CHECK_DIRECTORY, SMB_COM_PROCESS_EXIT,
     SMB_COM_SEEK, SMB_COM_LOCK_AND_READ, SMB_COM_WRITE_AND_UNLOCK,
     SMB_COM_READ_RAW, SMB_COM_READ_MPX, SMB_COM_READ_MPX_SECONDARY,
     SMB_COM_WRITE_RAW, SMB_COM_WRITE_MPX, SMB_COM_WRITE_MPX_SECONDARY,
     SMB_COM_WRITE_COMPLETE, SMB_COM_QUERY_SERVER, SMB_COM_SET_INFORMATION2,
     SMB_COM_QUERY_INFORMATION2, SMB_COM_LOCKING_ANDX, SMB_COM_TRANSACTION,
     SMB_COM_TRANSACTION_SECONDARY, SMB_COM_IOCTL, SMB_COM_IOCTL_SECONDARY,
     SMB_COM_COPY, SMB_COM_MOVE, SMB_COM_ECHO,
     SMB_COM_WRITE_AND_CLOSE, SMB_COM_OPEN_ANDX, SMB_COM_READ_ANDX,
     SMB_COM_WRITE_ANDX, SMB_COM_NEW_FILE_SIZE, SMB_COM_CLOSE_AND_TREE_DISC,
     SMB_COM_TRANSACTION2, SMB_COM_TRANSACTION2_SECONDARY, SMB_COM_FIND_CLOSE2,
     SMB_COM_FIND_NOTIFY_CLOSE, SMB_COM_TREE_CONNECT, SMB_COM_TREE_DISCONNECT,
     SMB_COM_NEGOTIATE, SMB_COM_SESSION_SETUP_ANDX, SMB_COM_LOGOFF_ANDX,
     SMB_COM_TREE_CONNECT_ANDX, SMB_COM_QUERY_INFORMATION_DISK, SMB_COM_SEARCH,
     SMB_COM_FIND, SMB_COM_FIND_UNIQUE, SMB_COM_FIND_CLOSE,
     SMB_COM_NT_TRANSACT, SMB_COM_NT_TRANSACT_SECONDARY, SMB_COM_NT_CREATE_ANDX,
     SMB_COM_NT_CANCEL, SMB_COM_NT_RENAME, SMB_COM_OPEN_PRINT_FILE,
     SMB_COM_WRITE_PRINT_FILE, SMB_COM_CLOSE_PRINT_FILE, SMB_COM_GET_PRINT_QUEUE,
     SMB_COM_READ_BULK, SMB_COM_WRITE_BULK, SMB_COM_WRITE_BULK_DATA]"

section \<open>SMB2 commands\<close>

abbreviation (input) SMB2_NEGOTIATE :: u16 where "SMB2_NEGOTIATE \<equiv> 0"
abbreviation (input) SMB2_SESSION_SETUP :: u16 where "SMB2_SESSION_SETUP \<equiv> 1"
abbreviation (input) SMB2_LOGOFF :: u16 where "SMB2_LOGOFF \<equiv> 2"
abbreviation (input) SMB2_TREE_CONNECT :: u16 where "SMB2_TREE_CONNECT \<equiv> 3"
abbreviation (input) SMB2_TREE_DISCONNECT :: u16 where "SMB2_TREE_DISCONNECT \<equiv> 4"
abbreviation (input) SMB2_CREATE :: u16 where "SMB2_CREATE \<equiv> 5"
abbreviation (input) SMB2_CLOSE :: u16 where "SMB2_CLOSE \<equiv> 6"
abbreviation (input) SMB2_FLUSH :: u16 where "SMB2_FLUSH \<equiv> 7"
abbreviation (input) SMB2_READ :: u16 where "SMB2_READ \<equiv> 8"
abbreviation (input) SMB2_WRITE :: u16 where "SMB2_WRITE \<equiv> 9"
abbreviation (input) SMB2_LOCK :: u16 where "SMB2_LOCK \<equiv> 10"
abbreviation (input) SMB2_IOCTL :: u16 where "SMB2_IOCTL \<equiv> 11"
abbreviation (input) SMB2_CANCEL :: u16 where "SMB2_CANCEL \<equiv> 12"
abbreviation (input) SMB2_ECHO :: u16 where "SMB2_ECHO \<equiv> 13"
abbreviation (input) SMB2_QUERY_DIRECTORY :: u16 where "SMB2_QUERY_DIRECTORY \<equiv> 14"
abbreviation (input) SMB2_CHANGE_NOTIFY :: u16 where "SMB2_CHANGE_NOTIFY \<equiv> 15"
abbreviation (input) SMB2_QUERY_INFO :: u16 where "SMB2_QUERY_INFO \<equiv> 16"
abbreviation (input) SMB2_SET_INFO :: u16 where "SMB2_SET_INFO \<equiv> 17"
abbreviation (input) SMB2_OPLOCK_BREAK :: u16 where "SMB2_OPLOCK_BREAK \<equiv> 18"

definition smb2_commands :: "u16 list" where
  "smb2_commands = [
     SMB2_NEGOTIATE, SMB2_SESSION_SETUP, SMB2_LOGOFF, SMB2_TREE_CONNECT,
     SMB2_TREE_DISCONNECT, SMB2_CREATE, SMB2_CLOSE, SMB2_FLUSH,
     SMB2_READ, SMB2_WRITE, SMB2_LOCK, SMB2_IOCTL,
     SMB2_CANCEL, SMB2_ECHO, SMB2_QUERY_DIRECTORY, SMB2_CHANGE_NOTIFY,
     SMB2_QUERY_INFO, SMB2_SET_INFO, SMB2_OPLOCK_BREAK]"

section \<open>Flags\<close>

abbreviation (input) SMB_FLAGS_SERVER_TO_REDIR :: u8 where "SMB_FLAGS_SERVER_TO_REDIR \<equiv> 0x80"
abbreviation (input) SMB_FLAGS_REQUEST_BATCH_OPLOCK :: u8 where "SMB_FLAGS_REQUEST_BATCH_OPLOCK \<equiv> 0x40"
abbreviation (input) SMB_FLAGS_REQUEST_OPLOCK :: u8 where "SMB_FLAGS_REQUEST_OPLOCK \<equiv> 0x20"
abbreviation (input) SMB_FLAGS_CANONICAL_PATHNAMES :: u8 where "SMB_FLAGS_CANONICAL_PATHNAMES \<equiv> 0x10"
abbreviation (input) SMB_FLAGS_CASELESS_PATHNAMES :: u8 where "SMB_FLAGS_CASELESS_PATHNAMES \<equiv> 0x08"
abbreviation (input) SMB_FLAGS_RESERVED :: u8 where "SMB_FLAGS_RESERVED \<equiv> 0x04"
abbreviation (input) SMB_FLAGS_CLIENT_BUF_AVAIL :: u8 where "SMB_FLAGS_CLIENT_BUF_AVAIL \<equiv> 0x02"
abbreviation (input) SMB_FLAGS_SUPPORT_LOCKREAD :: u8 where "SMB_FLAGS_SUPPORT_LOCKREAD \<equiv> 0x01"
abbreviation (input) SMB_FLAGS_MASK :: u8 where "SMB_FLAGS_MASK \<equiv> 0xFB"

abbreviation (input) SMB_FLAGS2_UNICODE_STRINGS :: u16 where "SMB_FLAGS2_UNICODE_STRINGS \<equiv> 0x8000"
abbreviation (input) SMB_FLAGS2_32BIT_STATUS :: u16 where "SMB_FLAGS2_32BIT_STATUS \<equiv> 0x4000"
abbreviation (input) SMB_FLAGS2_READ_IF_EXECUTE :: u16 where "SMB_FLAGS2_READ_IF_EXECUTE \<equiv> 0x2000"
abbreviation (input) SMB_FLAGS2_DFS_PATHNAME :: u16 where "SMB_FLAGS2_DFS_PATHNAME \<equiv> 0x1000"
abbreviation (input) SMB_FLAGS2_EXTENDED_SECURITY :: u16 where "SMB_FLAGS2_EXTENDED_SECURITY \<equiv> 0x0800"
abbreviation (input) SMB_FLAGS2_RESERVED_01 :: u16 where "SMB_FLAGS2_RESERVED_01 \<equiv> 0x0400"
abbreviation (input) SMB_FLAGS2_RESERVED_02 :: u16 where "SMB_FLAGS2_RESERVED_02 \<equiv> 0x0200"
abbreviation (input) SMB_FLAGS2_RESERVED_03 :: u16 where "SMB_FLAGS2_RESERVED_03 \<equiv> 0x0100"
abbreviation (input) SMB_FLAGS2_RESERVED_04 :: u16 where "SMB_FLAGS2_RESERVED_04 \<equiv> 0x0080"
abbreviation (input) SMB_FLAGS2_IS_LONG_NAME :: u16 where "SMB_FLAGS2_IS_LONG_NAME \<equiv> 0x0040"
abbreviation (input) SMB_FLAGS2_RESERVED_05 :: u16 where "SMB_FLAGS2_RESERVED_05 \<equiv> 0x0020"
abbreviation (input) SMB_FLAGS2_RESERVED_06 :: u16 where "SMB_FLAGS2_RESERVED_06 \<equiv> 0x0010"
abbreviation (input) SMB_FLAGS2_RESERVED_07 :: u16 where "SMB_FLAGS2_RESERVED_07 \<equiv> 0x0008"
abbreviation (input) SMB_FLAGS2_SECURITY_SIGNATURE :: u16 where "SMB_FLAGS2_SECURITY_SIGNATURE \<equiv> 0x0004"
abbreviation (input) SMB_FLAGS2_EAS :: u16 where "SMB_FLAGS2_EAS \<equiv> 0x0002"
abbreviation (input) SMB_FLAGS2_KNOWS_LONG_NAMES :: u16 where "SMB_FLAGS2_KNOWS_LONG_NAMES \<equiv> 0x0001"
abbreviation (input) SMB_FLAGS2_MASK :: u16 where "SMB_FLAGS2_MASK \<equiv> 0xF847"

text \<open>The masks are the bits that are not reserved.\<close>

lemma SMB_FLAGS_MASK_bits: "SMB_FLAGS_MASK = NOT SMB_FLAGS_RESERVED"
  by simp

lemma SMB_FLAGS2_MASK_bits:
  "SMB_FLAGS2_MASK = NOT (SMB_FLAGS2_RESERVED_01 OR SMB_FLAGS2_RESERVED_02 OR
     SMB_FLAGS2_RESERVED_03 OR SMB_FLAGS2_RESERVED_04 OR SMB_FLAGS2_RESERVED_05 OR
     SMB_FLAGS2_RESERVED_06 OR SMB_FLAGS2_RESERVED_07)"
  by simp

end
