(* ===== verification/Interfaces.thy ===== *)
theory Interfaces
  imports Prelude
begin

text \<open>
  The contracts several components share, as locales: encodings that can be read back from a
  stream, and step relations that keep an invariant or follow a simpler machine. Each is
  interpreted where its operations are defined: the codecs on the packed headers of
  \<open>smbproto.h\<close>, on UTF-8 and on the transport framing, the machines on the turns of the relay
  and on the steps of the gateway.
\<close>

section \<open>Encodings\<close>

text \<open>A reader takes one value off the front of a stream; it can be applied several times.\<close>

primrec decode_times :: "nat \<Rightarrow> ('b list \<Rightarrow> ('a \<times> 'b list) option) \<Rightarrow> 'b list \<Rightarrow> ('a list \<times> 'b list) option" where
  "decode_times 0 dec bs = Some ([], bs)"
| "decode_times (Suc n) dec bs =
     do { (x, bs') \<leftarrow> dec bs; (xs, bs'') \<leftarrow> decode_times n dec bs'; Some (x # xs, bs'') }"

text \<open>An encoding that marks its own end: what follows it does not matter to the reader.\<close>

locale stream_codec =
  fixes valid :: "'a \<Rightarrow> bool" and enc :: "'a \<Rightarrow> 'b list" and dec :: "'b list \<Rightarrow> ('a \<times> 'b list) option"
  assumes dec_enc: "valid x \<Longrightarrow> dec (enc x @ rest) = Some (x, rest)"
    and enc_nonempty: "valid x \<Longrightarrow> enc x \<noteq> []"
begin

lemma prefix_free:
  "valid x \<Longrightarrow> valid y \<Longrightarrow> enc x @ r = enc y @ s \<longleftrightarrow> x = y \<and> r = s"
  using dec_enc [of x r] dec_enc [of y s] by (metis append_same_eq option.inject prod.inject)

lemma enc_eq_iff: "valid x \<Longrightarrow> valid y \<Longrightarrow> enc x = enc y \<longleftrightarrow> x = y"
  using prefix_free [of x y "[]" "[]"] by simp

lemma decode_times_concat:
  "list_all valid xs \<Longrightarrow>
   decode_times (length xs) dec (concat (map enc xs) @ rest) = Some (xs, rest)"
  by (induction xs) (simp_all add: dec_enc)

text \<open>A stream of encodings can be cut up in one way only, however many there are.\<close>

lemma concat_unique:
  "list_all valid xs \<Longrightarrow> list_all valid ys \<Longrightarrow>
   concat (map enc xs) = concat (map enc ys) \<longleftrightarrow> xs = ys"
proof (induction xs arbitrary: ys)
  case Nil
  then show ?case by (cases ys) (auto simp: enc_nonempty)
next
  case (Cons x xs)
  then show ?case by (cases ys) (auto simp: enc_nonempty prefix_free)
qed

end

text \<open>Blocks of a fixed size, every one of which is the encoding of something.\<close>

locale block_codec =
  fixes valid :: "'a \<Rightarrow> bool" and enc :: "'a \<Rightarrow> 'b list" and load :: "'b list \<Rightarrow> 'a" and width :: nat
  assumes load_enc: "valid x \<Longrightarrow> load (enc x @ rest) = x"
    and width_enc: "valid x \<Longrightarrow> length (enc x) = width"
    and enc_load: "length bs = width \<Longrightarrow> enc (load bs) = bs"
    and valid_load: "length bs = width \<Longrightarrow> valid (load bs)"
    and width_pos: "0 < width"

text \<open>Read as a stream, such blocks need no mark between them.\<close>

definition read_block :: "nat \<Rightarrow> ('b list \<Rightarrow> 'a) \<Rightarrow> 'b list \<Rightarrow> ('a \<times> 'b list) option" where
  "read_block n load bs = (if length bs < n then None else Some (load bs, drop n bs))"

sublocale block_codec \<subseteq> stream_codec valid enc "read_block width load"
proof unfold_locales
  fix x and rest :: "'b list" assume v: "valid x"
  show "read_block width load (enc x @ rest) = Some (x, rest)"
    using load_enc [OF v] width_enc [OF v] by (simp add: read_block_def)
  show "enc x \<noteq> []" using width_enc [OF v] width_pos by auto
qed

context block_codec
begin

lemma enc_bij: "bij_betw enc {x. valid x} {bs. length bs = width}"
proof (rule bij_betw_imageI)
  show "inj_on enc {x. valid x}" by (auto simp: inj_on_def enc_eq_iff)
  show "enc ` {x. valid x} = {bs. length bs = width}"
    using width_enc enc_load valid_load by (auto simp: image_iff) metis
qed

end

section \<open>Machines\<close>

text \<open>Runs of a step relation along the labels of its steps.\<close>

inductive runs :: "('s \<Rightarrow> 'e \<Rightarrow> 's \<Rightarrow> bool) \<Rightarrow> 's \<Rightarrow> 'e list \<Rightarrow> 's \<Rightarrow> bool" for step where
  runs_none: "runs step s [] s"
| runs_more: "step s e s1 \<Longrightarrow> runs step s1 es s2 \<Longrightarrow> runs step s (e # es) s2"

inductive_simps runs_Nil [simp]: "runs step s [] s'"
inductive_simps runs_Cons: "runs step s (e # es) s'"

lemma runs_append: "runs step s (es @ es') s' \<longleftrightarrow> (\<exists>s1. runs step s es s1 \<and> runs step s1 es' s')"
  by (induction es arbitrary: s) (auto simp: runs_Cons)

text \<open>An invariant that every step keeps holds after every run.\<close>

locale kept_invariant =
  fixes step :: "'s \<Rightarrow> 'e \<Rightarrow> 's \<Rightarrow> bool" and inv :: "'s \<Rightarrow> bool"
  assumes step_keeps: "inv s \<Longrightarrow> step s e s' \<Longrightarrow> inv s'"
begin

lemma runs_keep: "runs step s es s' \<Longrightarrow> inv s \<Longrightarrow> inv s'"
  by (induction rule: runs.induct) (auto intro: step_keeps)

end

text \<open>
  A machine that follows a simpler one: each step, seen through \<open>seen\<close>, is a step of the simpler
  machine with the label \<open>obs\<close> shows of it.
\<close>

locale follows = kept_invariant step inv
  for step :: "'s \<Rightarrow> 'e \<Rightarrow> 's \<Rightarrow> bool" and inv :: "'s \<Rightarrow> bool" +
  fixes seen :: "'s \<Rightarrow> 'a" and obs :: "'e \<Rightarrow> 'o" and astep :: "'a \<Rightarrow> 'o \<Rightarrow> 'a \<Rightarrow> bool"
  assumes step_follows: "inv s \<Longrightarrow> step s e s' \<Longrightarrow> astep (seen s) (obs e) (seen s')"
begin

lemma runs_follow: "runs step s es s' \<Longrightarrow> inv s \<Longrightarrow> runs astep (seen s) (map obs es) (seen s')"
  by (induction rule: runs.induct) (auto intro: runs_more step_follows step_keeps)

end

end
