(* ===== verification/Smb_Layout.thy ===== *)
theory Smb_Layout
  imports Smb_Constants Interfaces
begin

text \<open>
  The packed structures of \<open>smbproto.h\<close> and the way \<open>memcpy\<close> fills them from packet
  bytes. The fields lie back to back, multi-byte fields in the byte order of the host, which is
  little-endian on every target the Makefile names. \<open>load\<close> is that \<open>memcpy\<close>; \<open>layout\<close>
  is not code of the program, which writes no headers, but the specification of what a sender puts
  on the wire: the properties of the walks use it to say what a well-formed packet is.
\<close>

section \<open>Little-endian fields\<close>

fun le_load :: "u8 list \<Rightarrow> 'a::len word" where
  "le_load [] = 0"
| "le_load (b # bs) = push_bit 8 (le_load bs) OR ucast b"

fun le_store :: "nat \<Rightarrow> 'a::len word \<Rightarrow> u8 list" where
  "le_store 0 w = []"
| "le_store (Suc n) w = ucast w # le_store n (drop_bit 8 w)"

lemma length_le_store [simp]: "length (le_store n w) = n"
  by (induction n arbitrary: w) simp_all

lemma le_load_store: "le_load (le_store n w) = take_bit (8 * n) w"
proof (induction n arbitrary: w)
  case 0
  then show ?case by simp
next
  case (Suc n)
  then show ?case
    by (auto intro!: bit_eqI simp: bit_simps)
qed

lemma le_load_store_full:
  "8 * n = LENGTH('a) \<Longrightarrow> le_load (le_store n w) = (w :: 'a::len word)"
  by (simp add: le_load_store)

lemma bit_le_load: "bit (le_load bs :: 'a::len word) n \<Longrightarrow> n < 8 * length bs"
proof (induction bs arbitrary: n)
  case (Cons b bs)
  show ?case
  proof (cases "n < 8")
    case False
    with Cons have "bit (le_load bs :: 'a word) (n - 8)"
      by (auto simp: bit_simps dest: bit_imp_le_length)
    from Cons.IH [OF this] False show ?thesis by simp
  qed simp
qed simp

lemma le_store_load:
  "8 * length bs \<le> LENGTH('a) \<Longrightarrow> le_store (length bs) (le_load bs :: 'a::len word) = bs"
proof (induction bs)
  case Nil
  then show ?case by simp
next
  case (Cons b bs)
  have "ucast (push_bit 8 (le_load bs) OR ucast b :: 'a word) = b"
    using Cons.prems by (intro bit_word_eqI) (auto simp: bit_simps)
  moreover have "drop_bit 8 (push_bit 8 (le_load bs) OR ucast b :: 'a word) = le_load bs"
    using Cons.prems
    by (intro bit_word_eqI)
      (auto simp: bit_simps dest: bit_le_load bit_imp_le_length)
  ultimately show ?case using Cons by simp
qed

text \<open>As a number, a load is the sum of its bytes by powers of 256.\<close>

lemma uint_le_load_Cons:
  assumes "8 * length (b # bs) \<le> LENGTH('a)"
  shows "uint (le_load (b # bs) :: 'a::len word) = 256 * uint (le_load bs :: 'a word) + uint b"
proof -
  have "uint (le_load (b # bs) :: 'a word) = push_bit 8 (uint (le_load bs :: 'a word)) OR uint b"
    using assms
    by (intro bit_eqI) (auto simp: bit_simps dest: bit_le_load bit_imp_le_length)
  also have "\<dots> = push_bit 8 (uint (le_load bs :: 'a word)) + uint b"
    by (rule disjunctive_add [symmetric]) (auto simp: bit_simps dest: bit_imp_le_length)
  finally show ?thesis by (simp add: push_bit_eq_mult)
qed

section \<open>Structures\<close>

record smb_header =
  protocol_id :: "u8 list"
  command :: u8
  status :: u32
  flags :: u8
  flags2 :: u16
  PIDhigh :: u16
  securityFeatures :: "u8 list"
  reserved :: u16
  TID :: u16
  PIDlow :: u16
  UID :: u16
  MID :: u16

definition layout_smb_header :: "smb_header \<Rightarrow> u8 list" where
  "layout_smb_header h =
     protocol_id h @ [command h] @ le_store 4 (status h) @ [flags h] @ le_store 2 (flags2 h) @
     le_store 2 (PIDhigh h) @ securityFeatures h @ le_store 2 (reserved h) @
     le_store 2 (TID h) @ le_store 2 (PIDlow h) @ le_store 2 (UID h) @ le_store 2 (MID h)"

definition field :: "nat \<Rightarrow> nat \<Rightarrow> 'a list \<Rightarrow> 'a list" where
  "field off n bs = take n (drop off bs)"

definition load_smb_header :: "u8 list \<Rightarrow> smb_header" where
  "load_smb_header bs = \<lparr>
     protocol_id = field 0 4 bs, command = le_load (field 4 1 bs),
     status = le_load (field 5 4 bs), flags = le_load (field 9 1 bs),
     flags2 = le_load (field 10 2 bs), PIDhigh = le_load (field 12 2 bs),
     securityFeatures = field 14 8 bs, reserved = le_load (field 22 2 bs),
     TID = le_load (field 24 2 bs), PIDlow = le_load (field 26 2 bs),
     UID = le_load (field 28 2 bs), MID = le_load (field 30 2 bs)\<rparr>"

definition smb_header_wf :: "smb_header \<Rightarrow> bool" where
  "smb_header_wf h \<longleftrightarrow> length (protocol_id h) = 4 \<and> length (securityFeatures h) = 8"

text \<open>
  The 64-byte SMB2 header. The union of \<open>smb2_async\<close> and \<open>smb2_sync\<close> is its eight bytes;
  the two views are \<open>smb2_async_id\<close> and \<open>smb2_sync_ids\<close>.
\<close>

record smb2_header =
  protocol_id2 :: "u8 list"
  struct_size :: u16
  credit_charge :: u16
  status2 :: u32
  command2 :: u16
  credit_request_response :: u16
  hdr_flags :: u32
  next_command :: u32
  message_id :: u64
  async_or_sync :: "u8 list"
  session_id :: u64
  signature :: "u8 list"

definition layout_smb2_header :: "smb2_header \<Rightarrow> u8 list" where
  "layout_smb2_header h =
     protocol_id2 h @ le_store 2 (struct_size h) @ le_store 2 (credit_charge h) @
     le_store 4 (status2 h) @ le_store 2 (command2 h) @ le_store 2 (credit_request_response h) @
     le_store 4 (hdr_flags h) @ le_store 4 (next_command h) @ le_store 8 (message_id h) @
     async_or_sync h @ le_store 8 (session_id h) @ signature h"

definition load_smb2_header :: "u8 list \<Rightarrow> smb2_header" where
  "load_smb2_header bs = \<lparr>
     protocol_id2 = field 0 4 bs, struct_size = le_load (field 4 2 bs),
     credit_charge = le_load (field 6 2 bs), status2 = le_load (field 8 4 bs),
     command2 = le_load (field 12 2 bs), credit_request_response = le_load (field 14 2 bs),
     hdr_flags = le_load (field 16 4 bs), next_command = le_load (field 20 4 bs),
     message_id = le_load (field 24 8 bs), async_or_sync = field 32 8 bs,
     session_id = le_load (field 40 8 bs), signature = field 48 16 bs\<rparr>"

definition smb2_header_wf :: "smb2_header \<Rightarrow> bool" where
  "smb2_header_wf h \<longleftrightarrow> length (protocol_id2 h) = 4 \<and> length (async_or_sync h) = 8 \<and>
     length (signature h) = 16"

definition smb2_async_id :: "smb2_header \<Rightarrow> u64" where
  "smb2_async_id h = le_load (async_or_sync h)"

definition smb2_sync_ids :: "smb2_header \<Rightarrow> u32 \<times> u32" where
  "smb2_sync_ids h = (le_load (field 0 4 (async_or_sync h)), le_load (field 4 4 (async_or_sync h)))"

text \<open>The two parameter blocks of SESSION_SETUP_ANDX, without and with extended security.\<close>

record setup_nonext_params =
  max_buffer_size :: u16
  max_mpx_count :: u16
  vc_number :: u16
  session_key :: u32
  length1 :: u16
  length2 :: u16
  setup_reserved :: u32
  caps :: u32

definition load_setup_nonext :: "u8 list \<Rightarrow> setup_nonext_params" where
  "load_setup_nonext bs = \<lparr>
     max_buffer_size = le_load (field 0 2 bs), max_mpx_count = le_load (field 2 2 bs),
     vc_number = le_load (field 4 2 bs), session_key = le_load (field 6 4 bs),
     length1 = le_load (field 10 2 bs), length2 = le_load (field 12 2 bs),
     setup_reserved = le_load (field 14 4 bs), caps = le_load (field 18 4 bs)\<rparr>"

record setup_ext_params =
  x_max_buffer_size :: u16
  x_max_mpx_count :: u16
  x_vc_number :: u16
  x_session_key :: u32
  x_length1 :: u16
  x_reserved :: u32
  x_caps :: u32

definition load_setup_ext :: "u8 list \<Rightarrow> setup_ext_params" where
  "load_setup_ext bs = \<lparr>
     x_max_buffer_size = le_load (field 0 2 bs), x_max_mpx_count = le_load (field 2 2 bs),
     x_vc_number = le_load (field 4 2 bs), x_session_key = le_load (field 6 4 bs),
     x_length1 = le_load (field 10 2 bs), x_reserved = le_load (field 12 4 bs),
     x_caps = le_load (field 16 4 bs)\<rparr>"

text \<open>Their \<open>sizeof\<close>s.\<close>

definition sizeof_smb_header :: int where "sizeof_smb_header = 32"
definition sizeof_smb2_header :: int where "sizeof_smb2_header = 64"
definition sizeof_setup_nonext :: int where "sizeof_setup_nonext = 22"
definition sizeof_setup_ext :: int where "sizeof_setup_ext = 20"

lemmas sizeof_defs = sizeof_smb_header_def sizeof_smb2_header_def sizeof_setup_nonext_def
  sizeof_setup_ext_def

section \<open>Round trips\<close>

lemma field_append_skip: "length xs \<le> off \<Longrightarrow> field off n (xs @ ys) = field (off - length xs) n ys"
  by (simp add: field_def)

lemma field_append_hit: "length xs = n \<Longrightarrow> field 0 n (xs @ ys) = xs"
  by (simp add: field_def)

lemma field_Cons_skip: "0 < off \<Longrightarrow> field off n (x # ys) = field (off - 1) n ys"
  by (cases off) (simp_all add: field_def)

lemma field_all: "length xs = n \<Longrightarrow> field 0 n xs = xs"
  by (simp add: field_def)

lemma field_one: "field 0 (Suc 0) (x # xs) = [x]"
  by (simp add: field_def)

lemma length_layout_smb_header: "smb_header_wf h \<Longrightarrow> length (layout_smb_header h) = 32"
  by (simp add: layout_smb_header_def smb_header_wf_def)

lemma length_layout_smb2_header: "smb2_header_wf h \<Longrightarrow> length (layout_smb2_header h) = 64"
  by (simp add: layout_smb2_header_def smb2_header_wf_def)

lemmas field_walk = field_append_skip field_append_hit field_Cons_skip field_all field_one

lemma load_layout_smb2:
  "smb2_header_wf h \<Longrightarrow> load_smb2_header (layout_smb2_header h @ rest) = h"
  by (cases h)
    (simp add: load_smb2_header_def layout_smb2_header_def smb2_header_wf_def field_walk
      le_load_store_full del: le_store.simps)

lemma load_layout_smb:
  "smb_header_wf h \<Longrightarrow> load_smb_header (layout_smb_header h @ rest) = h"
  by (cases h)
    (simp add: load_smb_header_def layout_smb_header_def smb_header_wf_def field_walk
      le_load_store_full del: le_store.simps)

lemma field_join: "b = a + n \<Longrightarrow> field a n bs @ field b m bs = field a (n + m) bs"
  by (simp add: field_def take_add) (simp add: add.commute)

lemma store_field:
  "off + n \<le> length bs \<Longrightarrow> 8 * n \<le> LENGTH('a) \<Longrightarrow>
   le_store n (le_load (field off n bs) :: 'a::len word) = field off n bs"
  using le_store_load [of "field off n bs", where 'a = 'a] by (simp add: field_def)

lemma store_field_byte:
  "off < length bs \<Longrightarrow> [le_load (field off (Suc 0) bs) :: u8] = field off (Suc 0) bs"
  using store_field [of off "Suc 0" bs, where 'a = 8] by simp

lemma store_field_byte_append:
  "off < length bs \<Longrightarrow> (le_load (field off (Suc 0) bs) :: u8) # ys = field off (Suc 0) bs @ ys"
  using store_field_byte [of off bs] by (metis append_Cons append_Nil)

lemma layout_load_smb2: "length bs = 64 \<Longrightarrow> layout_smb2_header (load_smb2_header bs) = bs"
  by (simp add: load_smb2_header_def layout_smb2_header_def store_field field_join
      del: le_store.simps) (simp add: field_def)

lemma layout_load_smb: "length bs = 32 \<Longrightarrow> layout_smb_header (load_smb_header bs) = bs"
  by (simp add: load_smb_header_def layout_smb_header_def store_field field_join
      store_field_byte_append del: le_store.simps) (simp add: field_def)

text \<open>
  So the specification and the \<open>memcpy\<close> determine each other: both headers are blocks of their
  size, and every such block is a header.
\<close>

lemma load_smb_wf: "length bs = 32 \<Longrightarrow> smb_header_wf (load_smb_header bs)"
  by (simp add: smb_header_wf_def load_smb_header_def field_def)

lemma load_smb2_wf: "length bs = 64 \<Longrightarrow> smb2_header_wf (load_smb2_header bs)"
  by (simp add: smb2_header_wf_def load_smb2_header_def field_def)

interpretation smb_block: block_codec smb_header_wf layout_smb_header load_smb_header 32
  by unfold_locales
    (simp_all add: load_layout_smb length_layout_smb_header layout_load_smb load_smb_wf)

interpretation smb2_block: block_codec smb2_header_wf layout_smb2_header load_smb2_header 64
  by unfold_locales
    (simp_all add: load_layout_smb2 length_layout_smb2_header layout_load_smb2 load_smb2_wf)

end
