(* ===== verification/Smbproto.thy ===== *)
theory Smbproto
  imports Smb_Layout "HOL-Library.Sublist"
begin

text \<open>
  The packet walker of \<open>smbproto.c\<close>. A packet is the block of memory that starts at
  \<open>pkt\<close>; it may be longer than the \<open>bytes\<close> the packet has, because \<open>pkt\<close> points
  into the receive buffer. A read outside the block is undefined behaviour. The walk of an SMB1
  ANDX chain may never end, so it is a \<open>partial_function\<close>; the SMB2 chain only moves forward
  and always ends. What the functions report through \<open>butil_log\<close> is returned as a list of
  messages with their levels.
\<close>

section \<open>Names and classes of commands\<close>

text \<open>The switches with constant results, as tables.\<close>

definition smb_command_names :: "(u8 \<times> string) list" where
  "smb_command_names = [
     (SMB_COM_CREATE_DIRECTORY, ''COM_CREATE_DIRECTORY''),
     (SMB_COM_DELETE_DIRECTORY, ''COM_DELETE_DIRECTORY''),
     (SMB_COM_OPEN, ''COM_OPEN''),
     (SMB_COM_CREATE, ''COM_CREATE''),
     (SMB_COM_CLOSE, ''COM_CLOSE''),
     (SMB_COM_FLUSH, ''COM_FLUSH''),
     (SMB_COM_DELETE, ''COM_DELETE''),
     (SMB_COM_RENAME, ''COM_RENAME''),
     (SMB_COM_QUERY_INFORMATION, ''COM_QUERY_INFORMATION''),
     (SMB_COM_SET_INFORMATION, ''COM_SET_INFORMATION''),
     (SMB_COM_READ, ''COM_READ''),
     (SMB_COM_WRITE, ''COM_WRITE''),
     (SMB_COM_LOCK_BYTE_RANGE, ''COM_LOCK_BYTE_RANGE''),
     (SMB_COM_UNLOCK_BYTE_RANGE, ''COM_UNLOCK_BYTE_RANGE''),
     (SMB_COM_CREATE_TEMPORARY, ''COM_CREATE_TEMPORARY''),
     (SMB_COM_CREATE_NEW, ''COM_CREATE_NEW''),
     (SMB_COM_CHECK_DIRECTORY, ''COM_CHECK_DIRECTORY''),
     (SMB_COM_PROCESS_EXIT, ''COM_PROCESS_EXIT''),
     (SMB_COM_SEEK, ''COM_SEEK''),
     (SMB_COM_LOCK_AND_READ, ''COM_LOCK_AND_READ''),
     (SMB_COM_WRITE_AND_UNLOCK, ''COM_WRITE_AND_UNLOCK''),
     (SMB_COM_READ_RAW, ''COM_READ_RAW''),
     (SMB_COM_READ_MPX, ''COM_READ_MPX''),
     (SMB_COM_READ_MPX_SECONDARY, ''COM_READ_MPX_SECONDARY''),
     (SMB_COM_WRITE_RAW, ''COM_WRITE_RAW''),
     (SMB_COM_WRITE_MPX, ''COM_WRITE_MPX''),
     (SMB_COM_WRITE_MPX_SECONDARY, ''COM_WRITE_MPX_SECONDARY''),
     (SMB_COM_WRITE_COMPLETE, ''COM_WRITE_COMPLETE''),
     (SMB_COM_QUERY_SERVER, ''COM_QUERY_SERVER''),
     (SMB_COM_SET_INFORMATION2, ''COM_SET_INFORMATION2''),
     (SMB_COM_QUERY_INFORMATION2, ''COM_QUERY_INFORMATION2''),
     (SMB_COM_LOCKING_ANDX, ''COM_LOCKING_ANDX''),
     (SMB_COM_TRANSACTION, ''COM_TRANSACTION''),
     (SMB_COM_TRANSACTION_SECONDARY, ''COM_TRANSACTION_SECONDARY''),
     (SMB_COM_IOCTL, ''COM_IOCTL''),
     (SMB_COM_IOCTL_SECONDARY, ''COM_IOCTL_SECONDARY''),
     (SMB_COM_COPY, ''COM_COPY''),
     (SMB_COM_MOVE, ''COM_MOVE''),
     (SMB_COM_ECHO, ''COM_ECHO''),
     (SMB_COM_WRITE_AND_CLOSE, ''COM_WRITE_AND_CLOSE''),
     (SMB_COM_OPEN_ANDX, ''COM_OPEN_ANDX''),
     (SMB_COM_READ_ANDX, ''COM_READ_ANDX''),
     (SMB_COM_WRITE_ANDX, ''COM_WRITE_ANDX''),
     (SMB_COM_NEW_FILE_SIZE, ''COM_NEW_FILE_SIZE''),
     (SMB_COM_CLOSE_AND_TREE_DISC, ''COM_CLOSE_AND_TREE_DISC''),
     (SMB_COM_TRANSACTION2, ''COM_TRANSACTION2''),
     (SMB_COM_TRANSACTION2_SECONDARY, ''COM_TRANSACTION2_SECONDARY''),
     (SMB_COM_FIND_CLOSE2, ''COM_FIND_CLOSE2''),
     (SMB_COM_FIND_NOTIFY_CLOSE, ''COM_FIND_NOTIFY_CLOSE''),
     (SMB_COM_TREE_CONNECT, ''COM_TREE_CONNECT''),
     (SMB_COM_TREE_DISCONNECT, ''COM_TREE_DISCONNECT''),
     (SMB_COM_NEGOTIATE, ''COM_NEGOTIATE''),
     (SMB_COM_SESSION_SETUP_ANDX, ''COM_SESSION_SETUP_ANDX''),
     (SMB_COM_LOGOFF_ANDX, ''COM_LOGOFF_ANDX''),
     (SMB_COM_TREE_CONNECT_ANDX, ''COM_TREE_CONNECT_ANDX''),
     (SMB_COM_QUERY_INFORMATION_DISK, ''COM_QUERY_INFORMATION_DISK''),
     (SMB_COM_SEARCH, ''COM_SEARCH''),
     (SMB_COM_FIND, ''COM_FIND''),
     (SMB_COM_FIND_UNIQUE, ''COM_FIND_UNIQUE''),
     (SMB_COM_FIND_CLOSE, ''COM_FIND_CLOSE''),
     (SMB_COM_NT_TRANSACT, ''COM_NT_TRANSACT''),
     (SMB_COM_NT_TRANSACT_SECONDARY, ''COM_NT_TRANSACT_SECONDARY''),
     (SMB_COM_NT_CREATE_ANDX, ''COM_NT_CREATE_ANDX''),
     (SMB_COM_NT_CANCEL, ''COM_NT_CANCEL''),
     (SMB_COM_NT_RENAME, ''COM_NT_RENAME''),
     (SMB_COM_OPEN_PRINT_FILE, ''COM_OPEN_PRINT_FILE''),
     (SMB_COM_WRITE_PRINT_FILE, ''COM_WRITE_PRINT_FILE''),
     (SMB_COM_CLOSE_PRINT_FILE, ''COM_CLOSE_PRINT_FILE''),
     (SMB_COM_GET_PRINT_QUEUE, ''COM_GET_PRINT_QUEUE''),
     (SMB_COM_READ_BULK, ''COM_READ_BULK''),
     (SMB_COM_WRITE_BULK, ''COM_WRITE_BULK''),
     (SMB_COM_WRITE_BULK_DATA, ''COM_WRITE_BULK_DATA'')]"
definition smbproto_smb_command_name :: "u8 \<Rightarrow> string" where
  "smbproto_smb_command_name cmd =
     (case map_of smb_command_names cmd of Some n \<Rightarrow> n | None \<Rightarrow> ''???'')"

definition smbproto_is_andx_command :: "u8 \<Rightarrow> bool" where
  "smbproto_is_andx_command cmd \<longleftrightarrow>
     cmd \<in> {SMB_COM_LOCKING_ANDX, SMB_COM_OPEN_ANDX, SMB_COM_READ_ANDX, SMB_COM_WRITE_ANDX,
       SMB_COM_SESSION_SETUP_ANDX, SMB_COM_LOGOFF_ANDX, SMB_COM_TREE_CONNECT_ANDX,
       SMB_COM_NT_CREATE_ANDX}"

definition smb2_command_names :: "(u16 \<times> string) list" where
  "smb2_command_names = [
     (SMB2_NEGOTIATE, ''NEGOTIATE''),
     (SMB2_SESSION_SETUP, ''SESSION_SETUP''),
     (SMB2_LOGOFF, ''LOGOFF''),
     (SMB2_TREE_CONNECT, ''TREE_CONNECT''),
     (SMB2_TREE_DISCONNECT, ''TREE_DISCONNECT''),
     (SMB2_CREATE, ''CREATE''),
     (SMB2_CLOSE, ''CLOSE''),
     (SMB2_FLUSH, ''FLUSH''),
     (SMB2_READ, ''READ''),
     (SMB2_WRITE, ''WRITE''),
     (SMB2_LOCK, ''LOCK''),
     (SMB2_IOCTL, ''IOCTL''),
     (SMB2_CANCEL, ''CANCEL''),
     (SMB2_ECHO, ''ECHO''),
     (SMB2_QUERY_DIRECTORY, ''QUERY_DIRECTORY''),
     (SMB2_CHANGE_NOTIFY, ''CHANGE_NOTIFY''),
     (SMB2_QUERY_INFO, ''QUERY_INFO''),
     (SMB2_SET_INFO, ''SET_INFO''),
     (SMB2_OPLOCK_BREAK, ''OPLOCK_BREAK'')]"

definition smbproto_smb2_command_name :: "u16 \<Rightarrow> string" where
  "smbproto_smb2_command_name cmd =
     (case map_of smb2_command_names cmd of Some n \<Rightarrow> n | None \<Rightarrow> ''????'')"

lemma command_tables:
  "map fst smb_command_names = smb_commands" "map fst smb2_command_names = smb2_commands"
  "distinct smb_commands" "distinct (map snd smb_command_names)"
  "distinct smb2_commands" "distinct (map snd smb2_command_names)"
  "\<forall>(c, n) \<in> set smb_command_names. n \<noteq> ''???'' \<and>
     (smbproto_is_andx_command c \<longleftrightarrow> drop (length n - 5) n = ''_ANDX'')"
  "\<forall>(c, n) \<in> set smb2_command_names. n \<noteq> ''????''"
  by code_simp+

lemma map_of_table:
  "distinct (map fst t) \<Longrightarrow>
   map (\<lambda>c. case map_of t c of Some n \<Rightarrow> n | None \<Rightarrow> d) (map fst t) = map snd t"
  by auto

lemma distinct_names:
  "distinct (map smbproto_smb_command_name smb_commands)"
  "distinct (map smbproto_smb2_command_name smb2_commands)"
proof -
  have "map smbproto_smb_command_name smb_commands = map snd smb_command_names"
    using map_of_table [of smb_command_names "''???''"] command_tables(3)
    by (simp only: command_tables(1) smbproto_smb_command_name_def [abs_def])
  then show "distinct (map smbproto_smb_command_name smb_commands)"
    by (simp only: command_tables(4))
  have "map smbproto_smb2_command_name smb2_commands = map snd smb2_command_names"
    using map_of_table [of smb2_command_names "''????''"] command_tables(5)
    by (simp only: command_tables(2) smbproto_smb2_command_name_def [abs_def])
  then show "distinct (map smbproto_smb2_command_name smb2_commands)"
    by (simp only: command_tables(6))
qed

lemma suffix_drop_iff: "suffix s xs \<longleftrightarrow> drop (length xs - length s) xs = s"
  by (auto simp: suffix_def) (metis append_take_drop_id)

lemma suffix_ANDX: "suffix ''_ANDX'' n \<longleftrightarrow> drop (length n - 5) n = ''_ANDX''"
  by (simp add: suffix_drop_iff numeral_eq_Suc)

text \<open>
  The command names identify the commands of the protocol headers: a code gets the fallback
  name exactly when no constant of the header has it, no two constants share a name, and the
  commands the walk treats as chained are exactly those whose name ends in \<open>_ANDX\<close>.
\<close>

theorem command_names_exact:
  "(smbproto_smb_command_name c = ''???'' \<longleftrightarrow> c \<notin> set smb_commands) \<and>
   (smbproto_smb2_command_name c2 = ''????'' \<longleftrightarrow> c2 \<notin> set smb2_commands) \<and>
   distinct (map smbproto_smb_command_name smb_commands) \<and>
   distinct (map smbproto_smb2_command_name smb2_commands) \<and>
   (smbproto_is_andx_command c \<longleftrightarrow> suffix ''_ANDX'' (smbproto_smb_command_name c))"
proof -
  note in1 = map_of_eq_None_iff [of smb_command_names c, unfolded image_set command_tables]
    and in2 = map_of_eq_None_iff [of smb2_command_names c2, unfolded image_set command_tables]
  have "smbproto_smb2_command_name c2 = ''????'' \<longleftrightarrow> c2 \<notin> set smb2_commands"
    using in2 command_tables(8)
    by (auto simp: smbproto_smb2_command_name_def split: option.splits dest: map_of_SomeD)
  moreover have "smbproto_smb_command_name c = ''???'' \<longleftrightarrow> c \<notin> set smb_commands"
    using in1 command_tables(7)
    by (auto simp: smbproto_smb_command_name_def split: option.splits dest: map_of_SomeD)
  moreover have "smbproto_is_andx_command c \<longleftrightarrow> suffix ''_ANDX'' (smbproto_smb_command_name c)"
  proof (cases "map_of smb_command_names c")
    case None
    with in1 have "c \<notin> set smb_commands" by simp
    then have "\<not> smbproto_is_andx_command c"
      by (auto simp: smbproto_is_andx_command_def smb_commands_def)
    moreover have "\<not> suffix ''_ANDX'' ''???''" by (simp add: suffix_ANDX)
    ultimately show ?thesis using None by (simp add: smbproto_smb_command_name_def)
  next
    case (Some n)
    from bspec [OF command_tables(7) map_of_SomeD [OF Some]]
    show ?thesis by (simp add: smbproto_smb_command_name_def suffix_ANDX Some)
  qed
  ultimately show ?thesis using distinct_names by simp
qed

section \<open>Messages\<close>

text \<open>
  One constructor per \<open>butil_log\<close> call, with the values it prints; \<open>bool\<close> tells the
  client's side ("C") from the server's ("S"), the first \<open>int\<close> is the connection's ordinal.
\<close>

datatype smb_msg =
    ShortHeader bool int
  | BadHeader bool int
  | BadHeader2 bool int
  | NoParameterBlock bool int string
  | AndX u8 u32
  | UnknownSetupLength
  | V1Command bool int int int string
  | V2Command bool int int u32 string
  | V2Status u32

type_synonym smb_log = "(u32 \<times> smb_msg) list"

section \<open>SMB1\<close>

text \<open>
  A pointer is an offset into the packet's block or into the string literal "" that stands in for
  a missing parameter block.
\<close>

datatype smb_ptr = InPacket int | InEmptyString int

fun ptr_add :: "smb_ptr \<Rightarrow> int \<Rightarrow> smb_ptr" where
  "ptr_add (InPacket off) n = InPacket (off + n)"
| "ptr_add (InEmptyString off) n = InEmptyString (off + n)"

fun ptr_read :: "u8 list \<Rightarrow> smb_ptr \<Rightarrow> int \<Rightarrow> u8 list option" where
  "ptr_read mem (InPacket off) n = mem_read mem off n"
| "ptr_read mem (InEmptyString off) n = mem_read [0] off n"

definition ptr_byte :: "u8 list \<Rightarrow> smb_ptr \<Rightarrow> int \<Rightarrow> u8 option" where
  "ptr_byte mem p i = map_option hd (ptr_read mem (ptr_add p i) 1)"

text \<open>
  The request handler copies the parameter block into the structure its length selects; the copy
  is the result beside the return value.
\<close>

datatype setup_copy = NotCopied | NonExtended setup_nonext_params | Extended setup_ext_params

definition smbproto_session_setup_request ::
    "u8 list \<Rightarrow> smb_ptr \<Rightarrow> int \<Rightarrow> (int \<times> setup_copy \<times> smb_log) option" where
  "smbproto_session_setup_request mem params param_bytes =
     (if param_bytes = sizeof_setup_nonext then do {
        bs \<leftarrow> ptr_read mem params sizeof_setup_nonext;
        Some (0, NonExtended (load_setup_nonext bs), [])
      }
      else if param_bytes = sizeof_setup_ext then do {
        bs \<leftarrow> ptr_read mem params sizeof_setup_ext;
        Some (0, Extended (load_setup_ext bs), [])
      }
      else Some (-1, NotCopied, [(0, UnknownSetupLength)]))"

definition smbproto_session_setup_response ::
    "u8 list \<Rightarrow> smb_ptr \<Rightarrow> int \<Rightarrow> (int \<times> setup_copy \<times> smb_log) option" where
  "smbproto_session_setup_response mem params param_bytes = Some (0, NotCopied, [])"

text \<open>
  Only SESSION_SETUP_ANDX does anything; its result is stored in \<open>result\<close> and dropped: the
  function returns 0.
\<close>

definition smbproto_handle_v1_command ::
    "bool \<Rightarrow> int \<Rightarrow> u8 list \<Rightarrow> u8 \<Rightarrow> smb_ptr \<Rightarrow> int \<Rightarrow> int \<Rightarrow> (int \<times> smb_log) option" where
  "smbproto_handle_v1_command isclient ordinal mem cmd params param_bytes data_bytes = do {
     let msg = (4, V1Command isclient ordinal data_bytes param_bytes
                     (smbproto_smb_command_name cmd));
     (result, copy, l) \<leftarrow>
       (if cmd = SMB_COM_SESSION_SETUP_ANDX
        then (if isclient then smbproto_session_setup_request mem params param_bytes
              else smbproto_session_setup_response mem params param_bytes)
        else Some (0, NotCopied, []));
     Some (0, msg # l)
   }"

text \<open>
  One turn of the \<open>do\<close> loop of \<open>smbproto_v1_packet\<close>: the next command, the next
  parameter pointer and the messages. \<open>word_count\<close> and \<open>byte_count\<close> are set once,
  before the loop.
\<close>

definition v1_turn ::
    "bool \<Rightarrow> int \<Rightarrow> u8 list \<Rightarrow> u32 \<Rightarrow> u32 \<Rightarrow> u8 \<Rightarrow> smb_ptr \<Rightarrow> (u8 \<times> smb_ptr \<times> smb_log) option" where
  "v1_turn isclient ordinal mem word_count byte_count cmd params = do {
     (result, l) \<leftarrow>
       (if smbproto_is_andx_command cmd
        then smbproto_handle_v1_command isclient ordinal mem cmd (ptr_add params 4)
               (sint ((word_count - 1) * 2)) (sint byte_count)
        else smbproto_handle_v1_command isclient ordinal mem cmd params
               (sint (word_count * 2)) (sint byte_count));
     if smbproto_is_andx_command cmd then do {
       next \<leftarrow> ptr_byte mem params 0;
       hi \<leftarrow> ptr_byte mem params 2;
       lo \<leftarrow> ptr_byte mem params 3;
       let off = (push_bit 8 (ucast hi) OR ucast lo :: u32);
       Some (if next \<noteq> 0xFF then (next, InPacket (uint off), l @ [(1, AndX next off)])
             else (next, params, l))
     }
     else Some (0xFF, params, l)
   }"

partial_function (option) v1_loop ::
    "bool \<Rightarrow> int \<Rightarrow> u8 list \<Rightarrow> u32 \<Rightarrow> u32 \<Rightarrow> u8 \<Rightarrow> smb_ptr \<Rightarrow> smb_log \<Rightarrow>
     (int \<times> smb_log) option option" where
  "v1_loop isclient ordinal mem word_count byte_count cmd params log =
     (case v1_turn isclient ordinal mem word_count byte_count cmd params of
        None \<Rightarrow> Some None
      | Some (cmd', params', l) \<Rightarrow>
          if cmd' = 0xFF then Some (Some (0, log @ l))
          else v1_loop isclient ordinal mem word_count byte_count cmd' params' (log @ l))"

definition smb_magic :: "u8 list" where
  "smb_magic = [0xFF, 0x53, 0x4D, 0x42]"

definition smbproto_v1_packet ::
    "bool \<Rightarrow> int \<Rightarrow> u8 list \<Rightarrow> int \<Rightarrow> (int \<times> smb_log) outcome" where
  "smbproto_v1_packet isclient ordinal mem bytes =
     (if 0 \<le> bytes \<and> bytes < sizeof_smb_header
      then Returns (-1, [(1, ShortHeader isclient ordinal)])
      else let hdrz = (if bytes < sizeof_smb_header then bytes else sizeof_smb_header) in
        case mem_read mem 0 hdrz of
          None \<Rightarrow> Faults
        | Some h \<Rightarrow>
            let hdr = load_smb_header h in
            if protocol_id hdr \<noteq> smb_magic
            then Returns (-1, [(1, BadHeader isclient ordinal)])
            else let byte_count = (word_of_int bytes - word_of_int hdrz :: u32) in
              if byte_count = 0
              then outcome_of (v1_loop isclient ordinal mem 0 0 (command hdr) (InEmptyString 0)
                     [(1, NoParameterBlock isclient ordinal
                            (smbproto_smb_command_name (command hdr)))])
              else case mem_byte mem hdrz of
                None \<Rightarrow> Faults
              | Some wc \<Rightarrow>
                  let word_count = (ucast wc :: u32) in
                  outcome_of (v1_loop isclient ordinal mem word_count
                     (byte_count - 1 - word_count * 2) (command hdr) (InPacket (hdrz + 1)) []))"

section \<open>SMB2\<close>

text \<open>
  The command is passed as a \<open>uint8_t\<close>, which drops the upper byte of the header's 16-bit
  field.
\<close>

definition smbproto_handle_v2_command ::
    "bool \<Rightarrow> int \<Rightarrow> u8 \<Rightarrow> smb2_header \<Rightarrow> int \<Rightarrow> int \<times> smb_log" where
  "smbproto_handle_v2_command isclient ordinal cmd hdr data_bytes =
     (0, (4, V2Command isclient ordinal data_bytes (next_command hdr)
               (smbproto_smb2_command_name (ucast cmd)))
         # (if status2 hdr \<noteq> 0 then [(4, V2Status (status2 hdr))] else []))"

definition smb2_magic :: "u8 list" where
  "smb2_magic = [0xFE, 0x53, 0x4D, 0x42]"

function v2_loop ::
    "bool \<Rightarrow> int \<Rightarrow> u8 list \<Rightarrow> int \<Rightarrow> u32 \<Rightarrow> int \<Rightarrow> smb_log \<Rightarrow> (int \<times> smb_log) option" where
  "v2_loop isclient ordinal mem hdrz byte_count off log =
     (case mem_read mem off hdrz of
        None \<Rightarrow> None
      | Some h \<Rightarrow>
          let hdr = load_smb2_header h in
          if protocol_id2 hdr \<noteq> smb2_magic
          then Some (-1, log @ [(1, BadHeader2 isclient ordinal)])
          else let byte_count' = byte_count - word_of_int hdrz;
                   (result, l) = smbproto_handle_v2_command isclient ordinal
                      (ucast (command2 hdr)) hdr (sint byte_count')
            in if result = 0 \<and> next_command hdr \<noteq> 0
               then v2_loop isclient ordinal mem hdrz byte_count'
                      (off + uint (next_command hdr)) (log @ l)
               else Some (0, log @ l))"
  by pat_completeness auto
termination
  by (relation "measure (\<lambda>(isclient, ordinal, mem, hdrz, byte_count, off, log).
        nat (int (length mem) + 1 - off))")
    (auto simp: mem_read_def word_neq_0_conv word_less_def split: if_splits)

declare v2_loop.simps [simp del]

definition smbproto_v2_packet ::
    "bool \<Rightarrow> int \<Rightarrow> u8 list \<Rightarrow> int \<Rightarrow> (int \<times> smb_log) outcome" where
  "smbproto_v2_packet isclient ordinal mem bytes =
     (if 0 \<le> bytes \<and> bytes < sizeof_smb2_header
      then Returns (-1, [(1, ShortHeader isclient ordinal)])
      else let hdrz = (if bytes < sizeof_smb2_header then bytes else sizeof_smb2_header) in
        outcome_of (Some (v2_loop isclient ordinal mem hdrz (word_of_int bytes) 0 [])))"

section \<open>Dispatch\<close>

definition smbproto_packet ::
    "bool \<Rightarrow> int \<Rightarrow> u8 list \<Rightarrow> int \<Rightarrow> (int \<times> smb_log) outcome" where
  "smbproto_packet isclient ordinal mem bytes =
     (if bytes < 1 then Returns (-1, [])
      else case mem_byte mem 0 of
        None \<Rightarrow> Faults
      | Some proto \<Rightarrow>
          if proto = 0xFF then smbproto_v1_packet isclient ordinal mem bytes
          else smbproto_v2_packet isclient ordinal mem bytes)"

section \<open>The SMB1 walk\<close>

text \<open>A walk that ends, ends with 0.\<close>

lemma v1_loop_result:
  assumes "v1_loop c ord mem wc bc cmd params log = Some (Some (r, log'))"
  shows "r = 0"
proof -
  have "\<forall>r l. y = Some (r, l) \<longrightarrow> r = 0"
    if "v1_loop c ord mem wc bc cmd params log = Some y" for y
  proof (rule v1_loop.raw_induct
      [where P = "\<lambda>c ord mem wc bc cmd params log y. \<forall>r l. y = Some (r, l) \<longrightarrow> r = 0", OF _ that])
    fix f c ord mem wc bc cmd params log y
    assume IH: "\<And>c ord mem wc bc cmd params log y. f c ord mem wc bc cmd params log = Some y \<Longrightarrow>
        \<forall>r l. y = Some (r, l) \<longrightarrow> (r :: int) = 0"
      and eq: "(case v1_turn c ord mem wc bc cmd params of
          None \<Rightarrow> Some None
        | Some (cmd', params', l) \<Rightarrow> if cmd' = 0xFF then Some (Some (0, log @ l))
            else f c ord mem wc bc cmd' params' (log @ l)) = Some y"
    show "\<forall>r l. y = Some (r, l) \<longrightarrow> (r :: int) = 0"
    proof (cases "v1_turn c ord mem wc bc cmd params")
      case None
      with eq show ?thesis by simp
    next
      case (Some t)
      with eq IH show ?thesis by (cases t) (auto split: if_splits)
    qed
  qed
  with assms show ?thesis by blast
qed

text \<open>A block of the packet whose reads stay inside the memory makes its turn.\<close>

definition andx_offset :: "u8 \<Rightarrow> u8 \<Rightarrow> int" where
  "andx_offset hi lo = 256 * uint hi + uint lo"

lemma andx_offset_word: "uint (push_bit 8 (ucast hi) OR ucast lo :: u32) = andx_offset hi lo"
proof -
  have "uint (push_bit 8 (ucast hi) OR ucast lo :: u32) = push_bit 8 (uint hi) OR uint lo"
    by (rule bit_eqI) (auto simp: bit_simps dest: bit_imp_le_length)
  also have "\<dots> = push_bit 8 (uint hi) + uint lo"
    by (rule disjunctive_add [symmetric]) (auto simp: bit_simps dest: bit_imp_le_length)
  finally show ?thesis
    by (simp add: andx_offset_def push_bit_eq_mult)
qed

lemma andx_offset_bounds: "0 \<le> andx_offset hi lo" "andx_offset hi lo \<le> 65535"
  using uint_lt2p [of hi] uint_lt2p [of lo] by (simp_all add: andx_offset_def)

lemma ptr_byte_packet: "ptr_byte mem (InPacket off) i = mem_byte mem (off + i)"
  by (auto simp: ptr_byte_def mem_read_def mem_byte_def hd_drop_conv_nth hd_conv_nth)

lemma mem_byte_in: "0 \<le> off \<Longrightarrow> off < int (length mem) \<Longrightarrow> mem_byte mem off = Some (mem ! nat off)"
  by (simp add: mem_byte_def)

text \<open>The longest reach of a handled block: the 22 bytes copied after the four ANDX bytes.\<close>

lemma handle_v1_safe:
  assumes "0 \<le> off" "off + 22 \<le> int (length mem)"
  shows "\<exists>l. smbproto_handle_v1_command c ord mem cmd (InPacket off) pb db = Some (0, l)"
  using assms
  by (auto simp: smbproto_handle_v1_command_def smbproto_session_setup_request_def
      smbproto_session_setup_response_def sizeof_defs mem_read_def)

lemma handle_v1_other:
  "cmd \<noteq> SMB_COM_SESSION_SETUP_ANDX \<Longrightarrow>
   smbproto_handle_v1_command c ord mem cmd p pb db =
     Some (0, [(4, V1Command c ord db pb (smbproto_smb_command_name cmd))])"
  by (simp add: smbproto_handle_v1_command_def)

text \<open>The four ways a turn can go.\<close>

lemma v1_turn_plain:
  assumes "\<not> smbproto_is_andx_command cmd"
  shows "\<exists>l. v1_turn c ord mem wc bc cmd params = Some (0xFF, params, l)"
proof -
  from assms have "cmd \<noteq> SMB_COM_SESSION_SETUP_ANDX"
    by (auto simp: smbproto_is_andx_command_def)
  with assms show ?thesis by (simp add: v1_turn_def handle_v1_other)
qed

lemma v1_turn_andx:
  assumes "smbproto_is_andx_command cmd" "0 \<le> off" "off + 26 \<le> int (length mem)"
    and b: "mem_byte mem off = Some nx" "mem_byte mem (off + 2) = Some hi"
      "mem_byte mem (off + 3) = Some lo"
  shows "\<exists>l. v1_turn c ord mem wc bc cmd (InPacket off) =
    Some (nx, if nx \<noteq> 0xFF then InPacket (andx_offset hi lo) else InPacket off, l)"
proof -
  obtain l where "smbproto_handle_v1_command c ord mem cmd (InPacket (off + 4))
      (sint ((wc - 1) * 2)) (sint bc) = Some (0, l)"
    using handle_v1_safe [of "off + 4" mem] assms by fastforce
  with assms(1) b show ?thesis
    by (simp add: v1_turn_def ptr_byte_packet andx_offset_word)
qed

text \<open>A turn that leads back to the same block and command never ends.\<close>

lemma v1_loop_stuck:
  assumes turn: "v1_turn c ord mem wc bc cmd params = Some (cmd, params, l)"
    and cmd: "cmd \<noteq> 0xFF"
  shows "v1_loop c ord mem wc bc cmd params log = None"
proof (rule ccontr)
  let ?P = "\<lambda>c' ord' mem' wc' bc' cmd' params' (log' :: smb_log) (y :: (int \<times> smb_log) option).
      (c', ord', mem', wc', bc', cmd', params') \<noteq> (c, ord, mem, wc, bc, cmd, params)"
  assume "v1_loop c ord mem wc bc cmd params log \<noteq> None"
  then obtain y where y: "v1_loop c ord mem wc bc cmd params log = Some y" by blast
  have "?P c ord mem wc bc cmd params log y"
  proof (rule v1_loop.raw_induct [where P = ?P, OF _ y])
    fix f c' ord' mem' wc' bc' cmd' params' log' y'
    assume IH: "\<And>c' ord' mem' wc' bc' cmd' params' log' y'.
        f c' ord' mem' wc' bc' cmd' params' log' = Some y' \<Longrightarrow>
        ?P c' ord' mem' wc' bc' cmd' params' log' y'"
      and eq: "(case v1_turn c' ord' mem' wc' bc' cmd' params' of
          None \<Rightarrow> Some None
        | Some (cmd1, params1, l) \<Rightarrow> if cmd1 = 0xFF then Some (Some (0, log' @ l))
            else f c' ord' mem' wc' bc' cmd1 params1 (log' @ l)) = Some y'"
    show "?P c' ord' mem' wc' bc' cmd' params' log' y'"
    proof
      assume same: "(c', ord', mem', wc', bc', cmd', params') = (c, ord, mem, wc, bc, cmd, params)"
      with eq turn cmd have "f c ord mem wc bc cmd params (log' @ l) = Some y'" by simp
      from IH [OF this] show False by simp
    qed
  qed
  then show False by simp
qed

text \<open>No read of a walk through blocks of a large enough memory faults.\<close>

definition v1_reach :: int where
  "v1_reach = 65535 + 26"

fun ptr_in_reach :: "smb_ptr \<Rightarrow> bool" where
  "ptr_in_reach (InPacket off) = (0 \<le> off \<and> off \<le> 65535)"
| "ptr_in_reach (InEmptyString off) = False"

lemma v1_turn_in_reach:
  assumes "v1_reach \<le> int (length mem)" "ptr_in_reach params"
  shows "\<exists>cmd' params' l. v1_turn c ord mem wc bc cmd params = Some (cmd', params', l) \<and>
    ptr_in_reach params'"
proof (cases "smbproto_is_andx_command cmd")
  case False
  with v1_turn_plain [OF False] assms(2) show ?thesis by blast
next
  case True
  from assms obtain off where off: "params = InPacket off" "0 \<le> off" "off + 26 \<le> int (length mem)"
    by (cases params) (auto simp: v1_reach_def)
  have "mem_byte mem off = Some (mem ! nat off)" "mem_byte mem (off + 2) = Some (mem ! nat (off + 2))"
      "mem_byte mem (off + 3) = Some (mem ! nat (off + 3))"
    using off by (auto intro: mem_byte_in)
  from v1_turn_andx [OF True off(2,3) this] show ?thesis
    using off(1) assms(2) andx_offset_bounds by fastforce
qed

lemma v1_loop_safe:
  assumes "v1_reach \<le> int (length mem)" "ptr_in_reach params"
  shows "v1_loop c ord mem wc bc cmd params log \<noteq> Some None"
proof
  let ?P = "\<lambda>c ord mem wc bc cmd params (log :: smb_log) (y :: (int \<times> smb_log) option).
      v1_reach \<le> int (length mem) \<longrightarrow> ptr_in_reach params \<longrightarrow> y \<noteq> None"
  assume y: "v1_loop c ord mem wc bc cmd params log = Some None"
  have "?P c ord mem wc bc cmd params log None"
  proof (rule v1_loop.raw_induct [where P = ?P, OF _ y], intro impI)
    fix f c ord mem wc bc cmd params log y
    assume IH: "\<And>c ord mem wc bc cmd params log y.
        f c ord mem wc bc cmd params log = Some y \<Longrightarrow> ?P c ord mem wc bc cmd params log y"
      and eq: "(case v1_turn c ord mem wc bc cmd params of
          None \<Rightarrow> Some None
        | Some (cmd', params', l) \<Rightarrow> if cmd' = 0xFF then Some (Some (0, log @ l))
            else f c ord mem wc bc cmd' params' (log @ l)) = Some y"
      and prems: "v1_reach \<le> int (length mem)" "ptr_in_reach params"
    from v1_turn_in_reach [OF prems] obtain cmd' params' l where
      "v1_turn c ord mem wc bc cmd params = Some (cmd', params', l)" "ptr_in_reach params'"
      by blast
    with eq IH prems show "y \<noteq> None"
      by (auto split: if_splits)
  qed
  with assms show False by simp
qed

text \<open>
  A chain in which every block points beyond itself, as the protocol has it: this is what makes
  the walk end.
\<close>

function andx_forward :: "u8 list \<Rightarrow> u8 \<Rightarrow> int \<Rightarrow> bool" where
  "andx_forward mem cmd off =
     (\<not> smbproto_is_andx_command cmd \<or>
      (case (mem_byte mem off, mem_byte mem (off + 2), mem_byte mem (off + 3)) of
         (Some nx, Some hi, Some lo) \<Rightarrow>
           nx = 0xFF \<or> (if off < andx_offset hi lo
                           then andx_forward mem nx (andx_offset hi lo) else False)
       | _ \<Rightarrow> False))"
  by pat_completeness auto
termination
proof (relation "measure (\<lambda>(mem, cmd, off). nat (65536 - off))")
  fix mem :: "u8 list" and off and nx hi lo :: u8
  assume "off < andx_offset hi lo"
  then show "((mem, nx, andx_offset hi lo), mem, cmd, off)
      \<in> measure (\<lambda>(mem, cmd, off). nat (65536 - off))" for cmd
    using andx_offset_bounds [of hi lo] by simp
qed simp

declare andx_forward.simps [simp del]

lemma andx_forward_cases:
  assumes "andx_forward mem cmd off" "smbproto_is_andx_command cmd"
  obtains nx hi lo where "mem_byte mem off = Some nx" "mem_byte mem (off + 2) = Some hi" "mem_byte mem (off + 3) = Some lo"
    "nx = 0xFF \<or> off < andx_offset hi lo \<and> andx_forward mem nx (andx_offset hi lo)"
  using assms by (auto simp: andx_forward.simps [of mem cmd off] split: option.splits if_splits)

lemma andx_forward_append:
  "andx_forward mem cmd off \<Longrightarrow> 0 \<le> off \<Longrightarrow> andx_forward (mem @ rest) cmd off"
proof (induction mem cmd off rule: andx_forward.induct)
  case (1 mem cmd off)
  show ?case
  proof (cases "smbproto_is_andx_command cmd")
    case True
    with "1.prems"(1) obtain nx hi lo where
      b: "mem_byte mem off = Some nx" "mem_byte mem (off + 2) = Some hi" "mem_byte mem (off + 3) = Some lo"
      and fwd: "nx = 0xFF \<or> off < andx_offset hi lo \<and> andx_forward mem nx (andx_offset hi lo)"
      by (rule andx_forward_cases)
    have "andx_forward (mem @ rest) nx (andx_offset hi lo)" if "nx \<noteq> 0xFF"
      using "1.IH" True b fwd that andx_offset_bounds(1) by blast
    moreover have "mem_byte (mem @ rest) i = Some b" if "mem_byte mem i = Some b" for i b
      using that by (auto simp: mem_byte_def nth_append split: if_splits)
    ultimately show ?thesis
      using True b fwd by (subst andx_forward.simps) auto
  qed (simp add: andx_forward.simps [of "mem @ rest"])
qed

lemma v1_loop_forward:
  assumes "v1_reach \<le> int (length mem)"
  shows "andx_forward mem cmd off \<Longrightarrow> 0 \<le> off \<Longrightarrow> off \<le> 65535 \<Longrightarrow>
    \<exists>l. v1_loop c ord mem wc bc cmd (InPacket off) log = Some (Some (0, l))"
  using assms
proof (induction mem cmd off arbitrary: log rule: andx_forward.induct)
  case (1 mem cmd off)
  show ?case
  proof (cases "smbproto_is_andx_command cmd")
    case False
    from v1_turn_plain [OF False] obtain l where
      "v1_turn c ord mem wc bc cmd (InPacket off) = Some (0xFF, InPacket off, l)" by blast
    then show ?thesis
      by (subst v1_loop.simps) simp
  next
    case True
    with "1.prems"(1) obtain nx hi lo where b: "mem_byte mem off = Some nx"
      "mem_byte mem (off + 2) = Some hi" "mem_byte mem (off + 3) = Some lo"
      and fwd: "nx = 0xFF \<or> off < andx_offset hi lo \<and> andx_forward mem nx (andx_offset hi lo)"
      by (rule andx_forward_cases)
    have "off + 26 \<le> int (length mem)"
      using "1.prems" by (simp add: v1_reach_def)
    with v1_turn_andx [OF True "1.prems"(2) _ b] obtain l where
      turn: "v1_turn c ord mem wc bc cmd (InPacket off) =
        Some (nx, if nx \<noteq> 0xFF then InPacket (andx_offset hi lo) else InPacket off, l)"
      by blast
    show ?thesis
    proof (cases "nx = 0xFF")
      case True
      with turn show ?thesis by (subst v1_loop.simps) simp
    next
      case False
      with fwd have f: "off < andx_offset hi lo" "andx_forward mem nx (andx_offset hi lo)" by auto
      have "\<exists>l'. v1_loop c ord mem wc bc nx (InPacket (andx_offset hi lo)) (log @ l) =
          Some (Some (0, l'))"
        using "1.IH" b False f True "1.prems"(4) andx_offset_bounds by blast
      with turn False show ?thesis by (subst v1_loop.simps) simp
    qed
  qed
qed

section \<open>SMB1 packets\<close>

lemma load_smb_header_fields:
  assumes "32 \<le> length mem"
  shows "protocol_id (load_smb_header (take 32 mem)) = take 4 mem"
    and "command (load_smb_header (take 32 mem)) = mem ! 4"
proof -
  have "take 1 (drop 4 (take 32 mem)) = [mem ! 4]"
    using assms by (subst take_drop_nth_upt) simp_all
  then show "command (load_smb_header (take 32 mem)) = mem ! 4"
    by (simp add: load_smb_header_def field_def)
qed (use assms in \<open>simp add: load_smb_header_def field_def\<close>)

lemma word_of_int_u32_0_iff: "0 \<le> n \<Longrightarrow> n \<le> int_max \<Longrightarrow> (word_of_int n :: u32) = 0 \<longleftrightarrow> n = 0"
  by (cases "n = 0") (auto simp: int_max_def word_of_int_eq_0_iff dest: zdvd_imp_le)

lemma v1_packet_params:
  assumes "32 < bytes" "bytes \<le> int (length mem)" "bytes \<le> int_max" "take 4 mem = smb_magic"
  shows "smbproto_v1_packet c ord mem bytes =
    outcome_of (v1_loop c ord mem (ucast (mem ! 32))
      (word_of_int (bytes - 33) - ucast (mem ! 32) * 2) (mem ! 4) (InPacket 33) [])"
proof -
  have len: "32 < length mem" using assms by simp
  have "(word_of_int bytes - word_of_int 32 :: u32) \<noteq> 0"
    using word_of_int_u32_0_iff [of "bytes - 32"] assms by simp
  moreover have "(word_of_int bytes - word_of_int 32 - 1 :: u32) = word_of_int (bytes - 33)"
    by simp
  ultimately show ?thesis
    using assms len load_smb_header_fields [of mem]
    by (simp add: smbproto_v1_packet_def sizeof_defs mem_read_def mem_byte_def Let_def)
qed

lemma v1_packet_no_params:
  assumes "32 \<le> int (length mem)" "take 4 mem = smb_magic"
  shows "smbproto_v1_packet c ord mem 32 =
    outcome_of (v1_loop c ord mem 0 0 (mem ! 4) (InEmptyString 0)
      [(1, NoParameterBlock c ord (smbproto_smb_command_name (mem ! 4)))])"
  using assms load_smb_header_fields [of mem]
  by (simp add: smbproto_v1_packet_def sizeof_defs mem_read_def Let_def)

lemma v1_packet_rejects:
  assumes "0 \<le> bytes" "bytes < 32 \<or> bytes \<le> int (length mem) \<and> take 4 mem \<noteq> smb_magic"
  shows "\<exists>log. smbproto_v1_packet c ord mem bytes = Returns (-1, log)"
  using assms load_smb_header_fields [of mem]
  by (cases "bytes < 32") (auto simp: smbproto_v1_packet_def sizeof_defs mem_read_def Let_def)

lemma ucast_u8_u32: "(ucast (w :: u8) :: u32) = word_of_int (uint w)"
  by (rule ucast_eq)

text \<open>What the 32-bit counts of the walker are when they are passed on as \<open>int\<close>.\<close>

lemma uint_u8_bounds: "0 \<le> uint (w :: u8)" "uint w < 256"
  using uint_lt2p [of w] by simp_all

lemma sint_data_bytes:
  assumes "0 \<le> n" "n \<le> int_max"
  shows "sint (word_of_int n - ucast (wc :: u8) * 2 :: u32) = n - 2 * uint wc"
proof -
  have "(word_of_int n - ucast wc * 2 :: u32) = word_of_int n - word_of_int (uint wc) * word_of_int 2"
    by (simp only: ucast_u8_u32 of_int_numeral)
  also have "\<dots> = word_of_int (n - uint wc * 2)" by (simp only: wi_hom_sub wi_hom_mult)
  also have "sint \<dots> = n - uint wc * 2"
    using assms uint_u8_bounds [of wc] unfolding int_max_def
    by (intro sint_u32_word_of_int; linarith)
  finally show ?thesis by simp
qed

lemma sint_param_bytes: "sint (ucast (wc :: u8) * 2 :: u32) = 2 * uint wc"
proof -
  have "(ucast wc * 2 :: u32) = word_of_int (uint wc) * word_of_int 2"
    by (simp only: ucast_u8_u32 of_int_numeral)
  also have "\<dots> = word_of_int (uint wc * 2)" by (simp only: wi_hom_mult)
  also have "sint \<dots> = uint wc * 2"
    using uint_u8_bounds [of wc] by (intro sint_u32_word_of_int; linarith)
  finally show ?thesis by simp
qed

lemma setup_param_bytes: "sint ((ucast (wc :: u8) - 1) * 2 :: u32) = 2 * uint wc - 2"
proof -
  have "((ucast wc - 1) * 2 :: u32) = (word_of_int (uint wc) - word_of_int 1) * word_of_int 2"
    by (simp only: ucast_u8_u32 of_int_1 of_int_numeral)
  also have "\<dots> = word_of_int (2 * uint wc - 2)"
    by (simp only: wi_hom_sub wi_hom_mult) (simp add: algebra_simps)
  also have "sint \<dots> = 2 * uint wc - 2"
    using uint_u8_bounds [of wc] by (intro sint_u32_word_of_int; linarith)
  finally show ?thesis by simp
qed

lemma v1_packet_plain:
  assumes "32 < bytes" "bytes \<le> int (length mem)" "bytes \<le> int_max" "take 4 mem = smb_magic"
    and "\<not> smbproto_is_andx_command (mem ! 4)"
  shows "smbproto_v1_packet c ord mem bytes =
    Returns (0, [(4, V1Command c ord
       (sint (word_of_int (bytes - 33) - ucast (mem ! 32) * 2 :: u32))
       (sint (ucast (mem ! 32) * 2 :: u32)) (smbproto_smb_command_name (mem ! 4)))])"
proof -
  have "mem ! 4 \<noteq> SMB_COM_SESSION_SETUP_ANDX"
    using assms(5) by (auto simp: smbproto_is_andx_command_def)
  then show ?thesis
    using assms(5) unfolding v1_packet_params [OF assms(1-4)]
    by (subst v1_loop.simps) (simp add: v1_turn_def handle_v1_other)
qed

text \<open>A packet of SMB1: the magic, a command, a zero rest of the header, and what follows.\<close>

definition sample_v1 :: "u8 \<Rightarrow> u8 list \<Rightarrow> u8 list" where
  "sample_v1 cmd body = smb_magic @ [cmd] @ replicate 27 0 @ body"

lemma sample_v1_simps [simp]:
  "take 4 (sample_v1 cmd body) = smb_magic" "sample_v1 cmd body ! 4 = cmd"
  "length (sample_v1 cmd body) = 32 + length body"
  by (simp_all add: sample_v1_def smb_magic_def)

lemma sample_v1_nth [simp]: "32 \<le> n \<Longrightarrow> sample_v1 cmd body ! n = body ! (n - 32)"
  by (simp add: sample_v1_def smb_magic_def nth_append nth_Cons' numeral_eq_Suc)

text \<open>
  An SMB1 packet is rejected with -1 exactly when it is shorter than the header or does not
  start with the SMB magic; whenever the walk of any other packet returns, it returns 0, whatever
  the session setup handler found.
\<close>

theorem v1_packet_result:
  assumes "0 \<le> bytes" "bytes \<le> int (length mem)" "bytes \<le> int_max"
    and ret: "smbproto_v1_packet c ord mem bytes = Returns (r, log)"
  shows "r = (if bytes < 32 \<or> take 4 mem \<noteq> smb_magic then -1 else 0)"
proof -
  consider "bytes < 32 \<or> take 4 mem \<noteq> smb_magic" | "bytes = 32" "take 4 mem = smb_magic"
    | "32 < bytes" "take 4 mem = smb_magic"
    using assms by linarith
  then show ?thesis
  proof cases
    case 1
    with v1_packet_rejects [OF assms(1), of mem c ord] assms show ?thesis by auto
  next
    case 2
    with ret assms v1_packet_no_params [of mem c ord] show ?thesis
      by (auto simp: outcome_of_eq_iff dest: v1_loop_result)
  next
    case 3
    with ret assms v1_packet_params [of bytes mem c ord] show ?thesis
      by (auto simp: outcome_of_eq_iff dest: v1_loop_result)
  qed
qed

theorem v1_packet_result_witness:
  "\<exists>log. smbproto_v1_packet True 0 (sample_v1 SMB_COM_ECHO [0, 0, 0]) 35 = Returns (0, log)"
proof -
  let ?m = "sample_v1 SMB_COM_ECHO [0, 0, 0]"
  have len: "32 < (35::int)" "(35::int) \<le> int (length ?m)" "(35::int) \<le> int_max"
    by (simp_all add: int_max_def)
  obtain r log where ret: "smbproto_v1_packet True 0 ?m 35 = Returns (r, log)"
    using v1_packet_plain [OF len, of True 0] by (simp add: smbproto_is_andx_command_def)
  have "r = 0"
    using v1_packet_result [OF _ len(2,3) ret] by simp
  with ret show ?thesis by blast
qed

lemma v1_packet_safe:
  assumes "32 < bytes" "bytes \<le> int (length mem)" "bytes \<le> int_max"
    and "v1_reach \<le> int (length mem)"
  shows "smbproto_v1_packet c ord mem bytes \<noteq> Faults"
proof (cases "take 4 mem = smb_magic")
  case True
  then show ?thesis
    using assms v1_loop_safe [of mem "InPacket 33"]
    by (simp add: v1_packet_params outcome_of_eq_iff)
next
  case False
  with v1_packet_rejects [of bytes mem c ord] assms show ?thesis by auto
qed

text \<open>
  Memory safety of the SMB1 walk: when the receive buffer reaches 65561 bytes beyond the
  packet's start (it does, in the gateway), no packet with at least one byte after the header
  makes the walk read outside the buffer, wherever its ANDX offsets point.
\<close>

theorem v1_packet_no_fault:
  assumes "32 < bytes" "bytes \<le> int (length mem)" "bytes \<le> int_max"
    and "v1_reach \<le> int (length mem)"
  shows "smbproto_v1_packet c ord mem bytes \<noteq> Faults"
  using assms by (rule v1_packet_safe)

theorem v1_packet_no_fault_witness:
  "smbproto_v1_packet True 0 (sample_v1 SMB_COM_SESSION_SETUP_ANDX (13 # replicate 65600 0)) 59
     \<noteq> Faults"
  by (rule v1_packet_no_fault) (simp_all add: int_max_def v1_reach_def)

lemma v1_forward_accepted:
  assumes "32 < bytes" "bytes \<le> int (length mem)" "bytes \<le> int_max"
    and "v1_reach \<le> int (length mem)" "take 4 mem = smb_magic"
    and "andx_forward mem (mem ! 4) 33"
  shows "\<exists>log. smbproto_v1_packet c ord mem bytes = Returns (0, log)"
proof -
  obtain l where "v1_loop c ord mem (ucast (mem ! 32))
      (word_of_int (bytes - 33) - ucast (mem ! 32) * 2) (mem ! 4) (InPacket 33) [] = Some (Some (0, l))"
    using v1_loop_forward [OF assms(4,6)] by fastforce
  then show ?thesis
    by (simp only: v1_packet_params [OF assms(1,2,3,5)] outcome_of.simps) blast
qed

text \<open>
  C14: Termination of the SMB1 walk: a packet whose ANDX blocks all point forward is walked to
  the end of its chain and accepted.
\<close>

theorem v1_packet_forward_returns:
  assumes "32 < bytes" "bytes \<le> int (length mem)" "bytes \<le> int_max"
    and "v1_reach \<le> int (length mem)" "take 4 mem = smb_magic"
    and "andx_forward mem (mem ! 4) 33"
  shows "\<exists>log. smbproto_v1_packet c ord mem bytes = Returns (0, log)"
  using assms by (rule v1_forward_accepted)

theorem v1_packet_forward_returns_witness:
  "\<exists>log. smbproto_v1_packet False 1 (sample_v1 SMB_COM_SESSION_SETUP_ANDX
     ([2, SMB_COM_TREE_CONNECT_ANDX, 0, 0, 40, 0, 0, 0, 0xFF, 0, 0, 0] @ replicate 65600 0)) 44
     = Returns (0, log)"
proof (rule v1_packet_forward_returns)
  let ?m = "sample_v1 SMB_COM_SESSION_SETUP_ANDX
     ([2, SMB_COM_TREE_CONNECT_ANDX, 0, 0, 40, 0, 0, 0, 0xFF, 0, 0, 0] @ replicate 65600 0)"
  have "andx_forward ?m SMB_COM_TREE_CONNECT_ANDX 40"
    by (subst andx_forward.simps) (simp add: mem_byte_def)
  then show "andx_forward ?m (?m ! 4) 33"
    by (subst andx_forward.simps) (simp add: mem_byte_def andx_offset_def)
qed (simp_all add: int_max_def v1_reach_def)

lemma v1_packet_self_loop:
  assumes "32 < bytes" "bytes \<le> int (length mem)" "bytes \<le> int_max" "59 \<le> int (length mem)"
    and "take 4 mem = smb_magic" "smbproto_is_andx_command (mem ! 4)"
    and "mem ! 33 = mem ! 4" "mem ! 35 = 0" "mem ! 36 = 33"
  shows "smbproto_v1_packet c ord mem bytes = Diverges"
proof -
  have ne: "mem ! 4 \<noteq> 0xFF"
    using assms(6) by (auto simp: smbproto_is_andx_command_def)
  have len: "36 < length mem" using assms(4) by simp
  have "mem_byte mem 33 = Some (mem ! 4)" "mem_byte mem (33 + 2) = Some 0"
      "mem_byte mem (33 + 3) = Some 33"
    using len assms(7-9) by (simp_all add: mem_byte_def)
  from v1_turn_andx [OF assms(6) _ _ this] assms(4) ne obtain l where
    "v1_turn c ord mem (ucast (mem ! 32)) (word_of_int (bytes - 33) - ucast (mem ! 32) * 2)
       (mem ! 4) (InPacket 33) = Some (mem ! 4, InPacket 33, l)"
    by (fastforce simp: andx_offset_def)
  from v1_loop_stuck [OF this ne] show ?thesis
    by (simp only: v1_packet_params [OF assms(1,2,3,5)] outcome_of.simps)
qed

text \<open>
  An ANDX block that names its own command and its own offset traps the walk: the packet
  function never returns, whatever follows in the packet.
\<close>

theorem v1_packet_self_reference_diverges:
  assumes "32 < bytes" "bytes \<le> int (length mem)" "bytes \<le> int_max" "59 \<le> int (length mem)"
    and "take 4 mem = smb_magic" "smbproto_is_andx_command (mem ! 4)"
    and "mem ! 33 = mem ! 4" "mem ! 35 = 0" "mem ! 36 = 33"
  shows "smbproto_v1_packet c ord mem bytes = Diverges"
  using assms by (rule v1_packet_self_loop)

theorem v1_packet_self_reference_diverges_witness:
  "smbproto_v1_packet True 0
     (sample_v1 SMB_COM_READ_ANDX ([2, SMB_COM_READ_ANDX, 0, 0, 33] @ replicate 30 0)) 37 = Diverges"
  by (rule v1_packet_self_reference_diverges)
    (simp_all add: int_max_def smbproto_is_andx_command_def)

text \<open>
  C32: Every SMB1 packet of exactly one header, with any of the ANDX commands, makes the walk read
  outside its data, whatever memory lies behind the packet: the empty string that stands for the
  missing parameter block is one byte long, and the walk takes the next command and its offset from
  the bytes behind it.
\<close>

theorem v1_packet_header_only_andx_faults:
  assumes "32 \<le> int (length mem)" "take 4 mem = smb_magic" "smbproto_is_andx_command (mem ! 4)"
  shows "smbproto_v1_packet c ord mem 32 = Faults"
proof -
  have "sint ((0 - 1) * 2 :: u32) = -2" by simp
  then have "\<exists>l. smbproto_handle_v1_command c ord mem (mem ! 4) (InEmptyString 4)
      (sint ((0 - 1) * 2 :: u32)) (sint (0 :: u32)) = Some (0, l)"
    by (simp add: smbproto_handle_v1_command_def smbproto_session_setup_request_def
        smbproto_session_setup_response_def sizeof_defs)
  moreover have "ptr_byte mem (InEmptyString 0) 2 = None"
    by (simp add: ptr_byte_def mem_read_def)
  ultimately have "v1_turn c ord mem 0 0 (mem ! 4) (InEmptyString 0) = None"
    using assms(3) by (auto simp: v1_turn_def bind_eq_None_conv)
  then show ?thesis
    by (simp add: v1_packet_no_params [OF assms(1,2)] v1_loop.simps)
qed

theorem v1_packet_header_only_andx_faults_witness:
  "smbproto_v1_packet True 0 (sample_v1 SMB_COM_LOGOFF_ANDX []) 32 = Faults"
  by (rule v1_packet_header_only_andx_faults) (simp_all add: smbproto_is_andx_command_def)

text \<open>
  A packet with one plain command is reported once, with twice its word count as parameter
  bytes. The data bytes are what the packet has left after the header, the count byte and the
  parameters, which is negative when the word count runs past the end of the packet.
\<close>

theorem v1_packet_plain_report:
  assumes "32 < bytes" "bytes \<le> int (length mem)" "bytes \<le> int_max" "take 4 mem = smb_magic"
    and "\<not> smbproto_is_andx_command (mem ! 4)"
  shows "smbproto_v1_packet c ord mem bytes =
    Returns (0, [(4, V1Command c ord (bytes - 33 - 2 * uint (mem ! 32)) (2 * uint (mem ! 32))
       (smbproto_smb_command_name (mem ! 4)))])"
  unfolding v1_packet_plain [OF assms]
  using sint_data_bytes [of "bytes - 33" "mem ! 32"] sint_param_bytes [of "mem ! 32"] assms(1,3)
  by simp

theorem v1_packet_plain_report_witness:
  "smbproto_v1_packet True 0 (sample_v1 SMB_COM_ECHO [3, 1, 2]) 35 =
     Returns (0, [(4, V1Command True 0 (- 4) 6 ''COM_ECHO'')])"
  by (subst v1_packet_plain_report)
    (simp_all add: int_max_def smbproto_is_andx_command_def smbproto_smb_command_name_def
      smb_command_names_def)

section \<open>Session setup\<close>

text \<open>
  The walker hands the handler \<open>(word_count - 1) * 2\<close> bytes, but the block starts with two
  words (command, reserved byte, offset) that it skips by \<open>params + 4\<close>.
\<close>

lemma setup_request_bytes:
  assumes "0 \<le> off" "off + 22 \<le> int (length mem)"
  shows "smbproto_session_setup_request mem (InPacket off) (2 * uint (wc :: u8) - 2) = Some
    (if wc = 12 then (0, NonExtended (load_setup_nonext (take 22 (drop (nat off) mem))), [])
     else if wc = 11 then (0, Extended (load_setup_ext (take 20 (drop (nat off) mem))), [])
     else (-1, NotCopied, [(0, UnknownSetupLength)]))"
proof -
  have "2 * uint wc - 2 = 22 \<longleftrightarrow> wc = 12" "2 * uint wc - 2 = 20 \<longleftrightarrow> wc = 11"
    by (auto simp: word_uint_eq_iff)
  with assms show ?thesis
    by (simp add: smbproto_session_setup_request_def sizeof_defs mem_read_def)
qed

text \<open>
  C27: The word count decides how the walk takes a session setup request. A client's packet of this
  one command is always accepted, but the 22-byte block without extended security (13 words with the
  ANDX block) is reported as one of unknown length and not read; a 12-word request, the extended
  form, is read as the form without extended security, and the extended form is read at 11 words.
\<close>

theorem session_setup_by_word_count:
  assumes "32 < bytes" "bytes \<le> int (length mem)" "bytes \<le> int_max" "59 \<le> int (length mem)"
    and "take 4 mem = smb_magic" "mem ! 4 = SMB_COM_SESSION_SETUP_ANDX" "mem ! 33 = 0xFF"
  defines "wc \<equiv> mem ! 32"
  shows "\<exists>pb r copy l. smbproto_v1_packet True ord mem bytes =
      Returns (0, (4, V1Command True ord (bytes - 33 - 2 * uint wc) pb ''COM_SESSION_SETUP_ANDX'') # l) \<and>
    smbproto_session_setup_request mem (InPacket 37) pb = Some (r, copy, l) \<and>
    copy = (if wc = 12 then NonExtended (load_setup_nonext (take 22 (drop 37 mem)))
      else if wc = 11 then Extended (load_setup_ext (take 20 (drop 37 mem)))
      else NotCopied) \<and>
    (r = 0 \<longleftrightarrow> wc \<in> {11, 12}) \<and> l = (if wc \<in> {11, 12} then [] else [(0, UnknownSetupLength)])"
proof -
  let ?pb = "2 * uint wc - 2"
  obtain r copy l where req: "smbproto_session_setup_request mem (InPacket 37) ?pb = Some (r, copy, l)"
    and post: "copy = (if wc = 12 then NonExtended (load_setup_nonext (take 22 (drop 37 mem)))
        else if wc = 11 then Extended (load_setup_ext (take 20 (drop 37 mem))) else NotCopied)"
      "r = 0 \<longleftrightarrow> wc \<in> {11, 12}" "l = (if wc \<in> {11, 12} then [] else [(0, UnknownSetupLength)])"
    using setup_request_bytes [of 37 mem wc] assms(4) by (auto split: if_splits)
  have name: "smbproto_smb_command_name SMB_COM_SESSION_SETUP_ANDX = ''COM_SESSION_SETUP_ANDX''"
    by (simp add: smbproto_smb_command_name_def smb_command_names_def)
  have mem: "36 < length mem" using assms(4) by simp
  have andx: "smbproto_is_andx_command SMB_COM_SESSION_SETUP_ANDX"
    by (simp add: smbproto_is_andx_command_def)
  have "v1_turn True ord mem (ucast wc) (word_of_int (bytes - 33) - ucast wc * 2) (mem ! 4) (InPacket 33) =
      Some (0xFF, InPacket 33, (4, V1Command True ord (bytes - 33 - 2 * uint wc) ?pb ''COM_SESSION_SETUP_ANDX'') # l)"
    using req andx mem assms(7) sint_data_bytes [of "bytes - 33" wc] assms(1,3)
    by (simp add: v1_turn_def assms(6) smbproto_handle_v1_command_def setup_param_bytes [simplified]
      ptr_byte_packet mem_byte_def name)
  then have "smbproto_v1_packet True ord mem bytes =
      Returns (0, (4, V1Command True ord (bytes - 33 - 2 * uint wc) ?pb ''COM_SESSION_SETUP_ANDX'') # l)"
    by (simp add: v1_packet_params [OF assms(1-3,5)] v1_loop.simps flip: wc_def)
  with req post show ?thesis by blast
qed

theorem session_setup_by_word_count_witness:
  "\<exists>pb. smbproto_v1_packet True 0 (sample_v1 SMB_COM_SESSION_SETUP_ANDX (13 # 0xFF # replicate 30 0)) 64 =
     Returns (0, [(4, V1Command True 0 5 pb ''COM_SESSION_SETUP_ANDX''), (0, UnknownSetupLength)])"
proof -
  let ?m = "sample_v1 SMB_COM_SESSION_SETUP_ANDX (13 # 0xFF # replicate 30 0)"
  have wc: "?m ! 32 = 13" "?m ! 33 = 0xFF" by (simp_all add: sample_v1_def smb_magic_def nth_append)
  have len: "32 < (64 :: int)" "(64 :: int) \<le> int (length ?m)" "(64 :: int) \<le> int_max" "59 \<le> int (length ?m)"
    by (simp_all add: int_max_def)
  from session_setup_by_word_count [OF len _ _ wc(2), of 0] show ?thesis
    unfolding wc by auto
qed

section \<open>SMB2 packets\<close>

text \<open>A compound packet: messages back to back, each header giving the distance to the next.\<close>

definition smb2_compound :: "(smb2_header \<times> u8 list) list \<Rightarrow> u8 list" where
  "smb2_compound msgs = concat (map (\<lambda>(h, p). layout_smb2_header h @ p) msgs)"

fun smb2_linked :: "(smb2_header \<times> u8 list) list \<Rightarrow> bool" where
  "smb2_linked [] = False"
| "smb2_linked ((h, p) # rest) =
     (smb2_header_wf h \<and> protocol_id2 h = smb2_magic \<and>
      (if rest = [] then next_command h = 0
       else uint (next_command h) = 64 + int (length p) \<and> smb2_linked rest))"

text \<open>What the walk of a compound packet reports, message by message.\<close>

fun smb2_reports :: "bool \<Rightarrow> int \<Rightarrow> u32 \<Rightarrow> (smb2_header \<times> u8 list) list \<Rightarrow> smb_log" where
  "smb2_reports c ord left [] = []"
| "smb2_reports c ord left ((h, p) # rest) =
     (4, V2Command c ord (sint (left - 64)) (next_command h)
           (smbproto_smb2_command_name (command2 h AND 0xFF)))
     # (if status2 h \<noteq> 0 then [(4, V2Status (status2 h))] else [])
     @ smb2_reports c ord (left - 64) rest"

lemma command_low_byte: "ucast (ucast (w :: u16) :: u8) = w AND 0xFF"
proof -
  have "w AND 0xFF = take_bit 8 w" by (simp add: take_bit_eq_mask mask_eq_exp_minus_1)
  then show ?thesis
    by (auto intro: bit_word_eqI simp: bit_simps)
qed

lemma v2_loop_compound:
  assumes "smb2_linked msgs" "mem = pre @ smb2_compound msgs @ post"
  shows "v2_loop c ord mem 64 left (int (length pre)) log =
    Some (0, log @ smb2_reports c ord left msgs)"
  using assms
proof (induction msgs arbitrary: pre left log)
  case Nil
  then show ?case by simp
next
  case (Cons m msgs)
  obtain h p where m: "m = (h, p)" by (cases m)
  with Cons.prems have h: "smb2_header_wf h" "protocol_id2 h = smb2_magic" by auto
  have comp: "smb2_compound (m # msgs) = layout_smb2_header h @ p @ smb2_compound msgs"
    by (simp add: smb2_compound_def m)
  have "mem_read mem (int (length pre)) 64 = Some (layout_smb2_header h)"
    using Cons.prems(2) comp length_layout_smb2_header [OF h(1)] by (simp add: mem_read_def)
  moreover have "load_smb2_header (layout_smb2_header h) = h"
    using load_layout_smb2 [OF h(1), of "[]"] by simp
  ultimately have step: "v2_loop c ord mem 64 left (int (length pre)) log =
      (let l = snd (smbproto_handle_v2_command c ord (ucast (command2 h)) h (sint (left - 64)))
       in if next_command h \<noteq> 0
          then v2_loop c ord mem 64 (left - 64) (int (length pre) + uint (next_command h)) (log @ l)
          else Some (0, log @ l))"
    using h(2) by (subst v2_loop.simps) (simp add: smbproto_handle_v2_command_def Let_def)
  have l: "snd (smbproto_handle_v2_command c ord (ucast (command2 h)) h (sint (left - 64)))
      @ smb2_reports c ord (left - 64) ms = smb2_reports c ord left ((h, p) # ms)" for ms
    by (simp add: smbproto_handle_v2_command_def command_low_byte)
  show ?case
  proof (cases "msgs = []")
    case True
    with Cons.prems m step l [of "[]"] show ?thesis by (simp add: Let_def)
  next
    case False
    with Cons.prems m have n: "uint (next_command h) = 64 + int (length p)" "smb2_linked msgs"
      by auto
    then have "next_command h \<noteq> 0" by auto
    moreover have "v2_loop c ord mem 64 (left - 64)
        (int (length (pre @ layout_smb2_header h @ p))) (log @ l') =
        Some (0, (log @ l') @ smb2_reports c ord (left - 64) msgs)" for l'
      using Cons.prems(2) comp by (intro Cons.IH n(2)) simp
    ultimately show ?thesis
      using step l [of msgs] n(1) length_layout_smb2_header [OF h(1)] m
      by (simp add: Let_def add.assoc)
  qed
qed

lemma v2_packet_of_compound:
  assumes "smb2_linked msgs" "bytes = int (length (smb2_compound msgs))"
  shows "smbproto_v2_packet c ord (smb2_compound msgs @ rest) bytes =
    Returns (0, smb2_reports c ord (word_of_int bytes) msgs)"
proof -
  obtain h p ms where m: "msgs = (h, p) # ms" "smb2_header_wf h"
    using assms(1) by (cases msgs rule: smb2_linked.cases) auto
  then have "64 \<le> bytes"
    using assms(2) length_layout_smb2_header [of h] by (simp add: smb2_compound_def)
  then show ?thesis
    using v2_loop_compound [OF assms(1), of "smb2_compound msgs @ rest" "[]" rest c ord _ "[]"]
    by (simp add: smbproto_v2_packet_def sizeof_defs)
qed

text \<open>
  C15: A well-formed compound SMB2 packet is walked message by message and accepted. The report
  names each command by the low byte of its code, and counts 64 bytes down per message, payloads
  not included.
\<close>

theorem v2_packet_compound:
  assumes "smb2_linked msgs" "bytes = int (length (smb2_compound msgs))"
  shows "smbproto_v2_packet c ord (smb2_compound msgs @ rest) bytes =
    Returns (0, smb2_reports c ord (word_of_int bytes) msgs)"
  using assms by (rule v2_packet_of_compound)

definition sample_v2 :: "u16 \<Rightarrow> u32 \<Rightarrow> smb2_header" where
  "sample_v2 cmd nx = \<lparr>
     protocol_id2 = smb2_magic, struct_size = 64, credit_charge = 1, status2 = 0, command2 = cmd,
     credit_request_response = 1, hdr_flags = 0, next_command = nx, message_id = 7,
     async_or_sync = replicate 8 0, session_id = 1, signature = replicate 16 0\<rparr>"

theorem v2_packet_compound_witness:
  "smbproto_v2_packet True 3
     (smb2_compound [(sample_v2 SMB2_CREATE 72, replicate 8 1), (sample_v2 0x0106 0, [])] @ [9]) 136
   = Returns (0, [(4, V2Command True 3 72 72 ''CREATE''), (4, V2Command True 3 8 0 ''CLOSE'')])"
proof -
  let ?msgs = "[(sample_v2 SMB2_CREATE 72, replicate 8 1), (sample_v2 0x0106 0, [])]"
  have wf: "smb2_header_wf (sample_v2 cmd nx)" for cmd nx
    by (simp add: sample_v2_def smb2_header_wf_def smb2_magic_def)
  have l: "smb2_linked ?msgs" "136 = int (length (smb2_compound ?msgs))"
    using wf length_layout_smb2_header [OF wf] by (simp_all add: sample_v2_def smb2_compound_def)
  have "smb2_reports True 3 (word_of_int 136) ?msgs =
      [(4, V2Command True 3 72 72 ''CREATE''), (4, V2Command True 3 8 0 ''CLOSE'')]"
    by (simp add: sample_v2_def smbproto_smb2_command_name_def smb2_command_names_def)
  with v2_packet_compound [OF l, of True 3 "[9]"] show ?thesis by simp
qed

text \<open>
  The SMB2 walk trusts \<open>next_command\<close>: a valid header whose next offset leads less than
  a header before the end of the receive buffer, or beyond it, makes the walk read outside.
\<close>

theorem v2_packet_next_out_of_buffer_faults:
  assumes "64 \<le> bytes" "bytes \<le> int (length mem)" "take 4 mem = smb2_magic"
    and "h = load_smb2_header (take 64 mem)" "next_command h \<noteq> 0"
    and "int (length mem) < uint (next_command h) + 64"
  shows "smbproto_v2_packet c ord mem bytes = Faults"
proof -
  have "mem_read mem 0 64 = Some (take 64 mem)"
    using assms(1,2) by (simp add: mem_read_def)
  moreover have "protocol_id2 h = smb2_magic"
    using assms(1-4) by (simp add: load_smb2_header_def field_def)
  moreover have "v2_loop c ord mem 64 left (uint (next_command h)) log = None" for left log
    using assms(6) by (subst v2_loop.simps) (simp add: mem_read_def)
  ultimately have "v2_loop c ord mem 64 left 0 log = None" for left log
    using assms(4,5) by (subst v2_loop.simps) (simp add: smbproto_handle_v2_command_def Let_def)
  then show ?thesis
    using assms(1) by (simp add: smbproto_v2_packet_def sizeof_defs)
qed

theorem v2_packet_next_out_of_buffer_faults_witness:
  "smbproto_v2_packet False 0 (layout_smb2_header (sample_v2 SMB2_READ 0x10000000)) 64 = Faults"
proof -
  have wf: "smb2_header_wf (sample_v2 SMB2_READ 0x10000000)"
    by (simp add: sample_v2_def smb2_header_wf_def smb2_magic_def)
  note len = length_layout_smb2_header [OF wf]
  have ld: "load_smb2_header (take 64 (layout_smb2_header (sample_v2 SMB2_READ 0x10000000))) =
      sample_v2 SMB2_READ 0x10000000"
    using load_layout_smb2 [OF wf, of "[]"] len by simp
  show ?thesis
    by (rule v2_packet_next_out_of_buffer_faults [OF _ _ _ ld [symmetric]])
      (use len in \<open>simp_all add: sample_v2_def layout_smb2_header_def smb2_magic_def\<close>)
qed

text \<open>
  The chain of headers in a buffer: the header at an offset, whether it lies in the buffer with the
  right identifier, the offsets the links lead to, and the result with which a walk ends at an
  offset, \<open>None\<close> for a read outside the buffer.
\<close>

definition smb2_at :: "u8 list \<Rightarrow> nat \<Rightarrow> smb2_header" where
  "smb2_at mem off = load_smb2_header (take 64 (drop off mem))"

definition smb2_valid :: "u8 list \<Rightarrow> nat \<Rightarrow> bool" where
  "smb2_valid mem off \<longleftrightarrow> off + 64 \<le> length mem \<and> protocol_id2 (smb2_at mem off) = smb2_magic"

inductive smb2_leads :: "u8 list \<Rightarrow> nat \<Rightarrow> nat \<Rightarrow> bool" for mem :: "u8 list" where
  smb2_here: "smb2_leads mem off off"
| smb2_next: "smb2_valid mem off \<Longrightarrow> next_command (smb2_at mem off) \<noteq> 0 \<Longrightarrow>
    smb2_leads mem (off + unat (next_command (smb2_at mem off))) off' \<Longrightarrow> smb2_leads mem off off'"

definition smb2_ends :: "u8 list \<Rightarrow> nat \<Rightarrow> int option \<Rightarrow> bool" where
  "smb2_ends mem off r \<longleftrightarrow>
     (if length mem < off + 64 then r = None
      else if protocol_id2 (smb2_at mem off) \<noteq> smb2_magic then r = Some (-1)
      else next_command (smb2_at mem off) = 0 \<and> r = Some 0)"

inductive_cases smb2_leads_cases: "smb2_leads mem off off'"

lemma smb2_end_unique:
  assumes "smb2_leads mem off off1" "smb2_ends mem off1 r1" "smb2_leads mem off off2" "smb2_ends mem off2 r2"
  shows "r1 = r2"
  using assms
proof (induction rule: smb2_leads.induct)
  case (smb2_here off)
  from smb2_here.prems(2) show ?case
    by cases (use smb2_here.prems in \<open>auto simp: smb2_ends_def smb2_valid_def split: if_splits\<close>)
next
  case (smb2_next off off1)
  from smb2_next.prems(2) show ?case
    by cases (use smb2_next in \<open>auto simp: smb2_ends_def smb2_valid_def split: if_splits\<close>)
qed

lemma v2_loop_at:
  "v2_loop c ord mem 64 left (int off) log =
    (if length mem < off + 64 then None
     else if \<not> smb2_valid mem off then Some (-1, log @ [(1, BadHeader2 c ord)])
     else let h = smb2_at mem off;
              l = log @ snd (smbproto_handle_v2_command c ord (ucast (command2 h)) h (sint (left - 64)))
          in if next_command h = 0 then Some (0, l)
             else v2_loop c ord mem 64 (left - 64) (int (off + unat (next_command h))) l)"
proof (cases "length mem < off + 64")
  case True
  then show ?thesis by (subst v2_loop.simps) (simp add: mem_read_def)
next
  case False
  then have "mem_read mem (int off) 64 = Some (take 64 (drop off mem))" by (simp add: mem_read_def)
  with False show ?thesis
    by (subst v2_loop.simps)
      (simp add: smb2_valid_def smb2_at_def smbproto_handle_v2_command_def Let_def)
qed

lemma v2_loop_ends:
  "\<exists>off'. smb2_leads mem off off' \<and> smb2_ends mem off' (map_option fst (v2_loop c ord mem 64 left (int off) log))"
proof (induction "length mem - off" arbitrary: off left log rule: less_induct)
  case less
  show ?case
  proof (cases "smb2_valid mem off \<and> next_command (smb2_at mem off) \<noteq> 0")
    case False
    then show ?thesis
      by (intro exI [of _ off]) (auto simp: v2_loop_at smb2_ends_def smb2_valid_def Let_def intro: smb2_here)
  next
    case True
    let ?n = "unat (next_command (smb2_at mem off))"
    have "0 < ?n" using True by (simp add: unat_gt_0)
    then have "length mem - (off + ?n) < length mem - off" using True unfolding smb2_valid_def by linarith
    note IH = less [OF this]
    have "\<exists>left' log'. v2_loop c ord mem 64 left (int off) log =
        v2_loop c ord mem 64 left' (int (off + ?n)) log'"
      using True by (subst v2_loop_at) (auto simp: smb2_valid_def Let_def)
    then obtain off' where "smb2_leads mem (off + ?n) off'"
        "smb2_ends mem off' (map_option fst (v2_loop c ord mem 64 left (int off) log))"
      using IH by metis
    with True smb2_next show ?thesis by blast
  qed
qed

text \<open>A chain that stays inside a message is the same whatever follows the message in the buffer.\<close>

definition smb2_inside :: "u8 list \<Rightarrow> bool" where
  "smb2_inside m \<longleftrightarrow> (\<forall>off. smb2_leads m 0 off \<longrightarrow> off + 64 \<le> length m)"

lemma smb2_at_append: "off + 64 \<le> length m \<Longrightarrow> smb2_at (m @ rest) off = smb2_at m off"
  by (simp add: smb2_at_def)

lemma smb2_leads_append:
  assumes "smb2_leads (m @ rest) a off" "\<And>off. smb2_leads m a off \<Longrightarrow> off + 64 \<le> length m"
  shows "smb2_leads m a off"
  using assms
proof (induction rule: smb2_leads.induct)
  case (smb2_here a)
  show ?case by (rule smb2_leads.smb2_here)
next
  case (smb2_next a off)
  have a: "a + 64 \<le> length m" by (rule smb2_next.prems) (rule smb2_leads.smb2_here)
  then have v: "smb2_valid m a" "next_command (smb2_at m a) \<noteq> 0"
    using smb2_next.hyps(1,2) by (simp_all add: smb2_valid_def smb2_at_append)
  note more = smb2_leads.smb2_next [OF v]
  have "smb2_leads m (a + unat (next_command (smb2_at m a))) off"
    using smb2_next.IH [unfolded smb2_at_append [OF a]] smb2_next.prems more by blast
  then show ?case by (rule more)
qed

lemma v2_packet_safe:
  assumes "length m < 64 \<or> smb2_inside m"
  shows "smbproto_v2_packet c ord (m @ rest) (int (length m)) \<noteq> Faults"
proof (cases "length m < 64")
  case True
  then show ?thesis by (simp add: smbproto_v2_packet_def sizeof_defs)
next
  case False
  with assms have inside: "off + 64 \<le> length m" if "smb2_leads m 0 off" for off
    using that by (auto simp: smb2_inside_def)
  obtain off where off: "smb2_leads (m @ rest) 0 off"
      "smb2_ends (m @ rest) off (map_option fst (v2_loop c ord (m @ rest) 64 (word_of_int (int (length m))) 0 []))"
    using v2_loop_ends [of "m @ rest" 0 c ord] by auto
  have "off + 64 \<le> length m" by (rule inside [OF smb2_leads_append [OF off(1) inside]])
  with off(2) have "v2_loop c ord (m @ rest) 64 (word_of_int (int (length m))) 0 [] \<noteq> None"
    by (auto simp: smb2_ends_def split: if_splits)
  with False show ?thesis by (auto simp: smbproto_v2_packet_def sizeof_defs)
qed

text \<open>
  C16: The SMB2 walk, decided: of at least a header's length it always ends, the links lead to exactly
  one end, and the end decides the result: accepted at a header without a successor, refused
  at one without the identifier, and a read outside the buffer where the links lead less than a
  header before the end of the buffer or beyond it. Only the links count: the walk looks at no
  length, neither the message's nor the buffer's.
\<close>

theorem v2_packet_decided:
  fixes mem :: "u8 list" and c :: bool and ord bytes :: int
  assumes "64 \<le> bytes"
  defines "walk \<equiv> smbproto_v2_packet c ord mem bytes"
    and "result \<equiv> \<lambda>r. \<exists>off. smb2_leads mem 0 off \<and> smb2_ends mem off r"
  shows "walk \<noteq> Diverges \<and> (walk = Faults \<longleftrightarrow> result None) \<and>
    (\<forall>r. (\<exists>l. walk = Returns (r, l)) \<longleftrightarrow> result (Some r)) \<and> (\<exists>!r. result r)"
proof -
  let ?run = "v2_loop c ord mem 64 (word_of_int bytes) 0 []"
  have w: "walk = outcome_of (Some ?run)"
    using assms(1) by (simp add: walk_def smbproto_v2_packet_def sizeof_defs)
  have "result (map_option fst ?run)"
    using v2_loop_ends [of mem 0 c ord "word_of_int bytes" "[]"] by (simp add: result_def)
  then have "result r \<longleftrightarrow> r = map_option fst ?run" for r
    using smb2_end_unique unfolding result_def by blast
  then show ?thesis
    by (cases ?run) (simp_all add: w, metis fst_conv prod.collapse)
qed

lemma load_sample_v2: "load_smb2_header (layout_smb2_header (sample_v2 cmd nx)) = sample_v2 cmd nx"
  "length (layout_smb2_header (sample_v2 cmd nx)) = 64"
proof -
  have wf: "smb2_header_wf (sample_v2 cmd nx)"
    by (simp add: sample_v2_def smb2_header_wf_def smb2_magic_def)
  show "load_smb2_header (layout_smb2_header (sample_v2 cmd nx)) = sample_v2 cmd nx"
    using load_layout_smb2 [OF wf, of "[]"] by simp
  show "length (layout_smb2_header (sample_v2 cmd nx)) = 64" by (rule length_layout_smb2_header [OF wf])
qed

theorem v2_packet_decided_witness:
  "smbproto_v2_packet False 0 (layout_smb2_header (sample_v2 SMB2_READ 64)) 64 = Faults"
proof -
  let ?m = "layout_smb2_header (sample_v2 SMB2_READ 64)"
  have at: "smb2_at ?m 0 = sample_v2 SMB2_READ 64"
    by (simp add: smb2_at_def load_sample_v2)
  have "smb2_valid ?m 0" by (simp only: smb2_valid_def at load_sample_v2) (simp add: sample_v2_def)
  moreover have "next_command (smb2_at ?m 0) = 64" by (simp only: at) (simp add: sample_v2_def)
  ultimately have "smb2_leads ?m 0 64"
    using smb2_next [of ?m 0 64] smb2_here [of ?m 64] by simp
  moreover have "smb2_ends ?m 64 None" by (simp add: smb2_ends_def load_sample_v2)
  ultimately show ?thesis using v2_packet_decided [of 64 False 0 ?m] by auto
qed

end
