(* ===== verification/Tcp.thy ===== *)
theory Tcp
  imports Prelude "HOL-Library.Signed_Division" "HOL-Library.Sublist"
begin

text \<open>
  The socket layer of \<open>gwtcp.c\<close> (the branches compiled on Linux and macOS). What the
  operating system answers is a parameter: the return values of \<open>socket\<close>, \<open>ioctl\<close>,
  \<open>bind\<close>, \<open>listen\<close>, \<open>accept\<close>, \<open>connect\<close>, \<open>select\<close>, the bytes
  \<open>recv\<close> has ready and the number of bytes \<open>send\<close> takes. \<open>recv\<close> and
  \<open>send\<close> transfer at most the count they are asked for, as POSIX has it. A function's result
  lists its return value, the socket it stores through its pointer and the sockets it closes.
\<close>

section \<open>Operating system answers\<close>

abbreviation (input) INVALID_SOCKET :: int where "INVALID_SOCKET \<equiv> - 1"

datatype errno = EWOULDBLOCK | EAGAIN | EINPROGRESS | EINTR | EOTHER int

datatype recv_answer = Ready "u8 list" | RecvFailed errno

text \<open>The count is passed as a \<open>size_t\<close>: a negative one asks for everything there is.\<close>

definition clip :: "int \<Rightarrow> 'a list \<Rightarrow> 'a list" where
  "clip n bs = (if n < 0 then bs else take (nat n) bs)"

definition os_recv :: "recv_answer \<Rightarrow> int \<Rightarrow> int \<times> u8 list" where
  "os_recv a count =
     (case a of Ready bs \<Rightarrow> (int (length (clip count bs)), clip count bs) | RecvFailed e \<Rightarrow> (-1, []))"

definition os_send :: "int \<Rightarrow> int \<Rightarrow> int" where
  "os_send takes n = (if takes < 0 then -1 else min takes n)"

record timeval =
  tv_sec :: int
  tv_usec :: int

definition timeval_usecs :: "timeval \<Rightarrow> int" where
  "timeval_usecs t = tv_sec t * 1000000 + tv_usec t"

section \<open>Reading and writing\<close>

definition tcp_timeout :: "int \<Rightarrow> timeval" where
  "tcp_timeout ms = \<lparr>tv_sec = ms sdiv 1000, tv_usec = (ms - (ms sdiv 1000) * 1000) * 1000\<rparr>"

definition tcp_read :: "int \<Rightarrow> recv_answer \<Rightarrow> int \<Rightarrow> int \<times> u8 list" where
  "tcp_read sv answer count =
     (if sv < 0 then (-1, [])
      else if sv = 0 then (0, [])
      else let (rc, bs) = os_recv answer count in
        if rc < 0
        then (if answer = RecvFailed EWOULDBLOCK \<or> answer = RecvFailed EAGAIN then (0, [])
              else (rc, []))
        else if rc = 0 then (-1, [])
        else (rc, bs))"

text \<open>
  The \<open>do\<close> loop of \<open>tcp_write\<close>. \<open>os i\<close> holds the answers of its \<open>i\<close>-th turn:
  what \<open>select\<close> returns and how many bytes \<open>send\<close> would take. The result is the return
  value and the number of bytes sent.
\<close>

function tcp_write_loop :: "(nat \<Rightarrow> int \<times> int) \<Rightarrow> nat \<Rightarrow> int \<Rightarrow> int \<Rightarrow> int \<times> int" where
  "tcp_write_loop os i count sent =
     (let (sv, takes) = os i in
      if sv < 0 then (-1, sent)
      else if sv = 0 then (-1, sent)
      else let wc = os_send takes (count - sent) in
        if wc < 0 then (wc, sent)
        else if wc = 0 then (-1, sent)
        else if sent + wc < count then tcp_write_loop os (Suc i) count (sent + wc)
        else (count, sent + wc))"
  by pat_completeness auto
termination
  by (relation "measure (\<lambda>(os, i, count, sent). nat (count - sent))") auto

declare tcp_write_loop.simps [simp del]

definition tcp_write :: "(nat \<Rightarrow> int \<times> int) \<Rightarrow> u8 list \<Rightarrow> int \<times> u8 list" where
  "tcp_write os buffer =
     (case tcp_write_loop os 0 (int (length buffer)) 0 of (r, sent) \<Rightarrow> (r, take (nat sent) buffer))"

definition tcp_write_timeout :: timeval where
  "tcp_write_timeout = tcp_timeout 15000"

section \<open>Sockets\<close>

record sock_result =
  sr_result :: int
  sr_stored :: "int option"
  sr_closed :: "int list"

definition tcp_listen_on_port :: "int \<Rightarrow> int \<Rightarrow> int \<Rightarrow> int \<Rightarrow> int \<Rightarrow> sock_result" where
  "tcp_listen_on_port sock setsockopt_r ioctl_r bind_r listen_r =
     (if sock < 0 then \<lparr>sr_result = INVALID_SOCKET, sr_stored = None, sr_closed = []\<rparr>
      else if setsockopt_r < 0 then \<lparr>sr_result = setsockopt_r, sr_stored = None, sr_closed = []\<rparr>
      else if ioctl_r < 0 then \<lparr>sr_result = ioctl_r, sr_stored = None, sr_closed = []\<rparr>
      else if bind_r < 0 then \<lparr>sr_result = bind_r, sr_stored = None, sr_closed = [sock]\<rparr>
      else \<lparr>sr_result = listen_r, sr_stored = Some sock,
            sr_closed = (if listen_r < 0 then [sock] else [])\<rparr>)"

definition accept_timeout :: "int \<Rightarrow> timeval" where
  "accept_timeout ms = \<lparr>tv_sec = ms sdiv 1000, tv_usec = (ms - (ms sdiv 1000) * 1000) sdiv 1000\<rparr>"

definition tcp_accept_connection :: "int \<Rightarrow> int \<Rightarrow> int \<Rightarrow> int \<Rightarrow> sock_result" where
  "tcp_accept_connection serversock sv accept_r ioctl_r =
     (let clientsock = (if 0 < sv then accept_r else INVALID_SOCKET) in
      if clientsock \<noteq> INVALID_SOCKET
      then (if ioctl_r < 0
            then \<lparr>sr_result = -1, sr_stored = Some INVALID_SOCKET, sr_closed = [clientsock]\<rparr>
            else \<lparr>sr_result = 0, sr_stored = Some clientsock, sr_closed = []\<rparr>)
      else if 0 < sv then \<lparr>sr_result = -1, sr_stored = Some INVALID_SOCKET, sr_closed = []\<rparr>
      else if sv < 0
      then \<lparr>sr_result = -1, sr_stored = Some INVALID_SOCKET, sr_closed = [serversock]\<rparr>
      else \<lparr>sr_result = 0, sr_stored = Some INVALID_SOCKET, sr_closed = []\<rparr>)"

text \<open>A host of digits and dots is an address, any other a name to look up.\<close>

definition host_is_name :: "string \<Rightarrow> bool" where
  "host_is_name host = list_ex (\<lambda>c. (c_char c < c_char CHR ''0'' \<or> c_char CHR ''9'' < c_char c) \<and> c \<noteq> CHR ''.'') host"

text \<open>
  \<open>resolved\<close> tells whether \<open>gethostbyname\<close> finds the host, \<open>pton_r\<close> is what
  \<open>inet_pton\<close> returns, \<open>connect_r\<close> and \<open>connect_errno\<close> are \<open>connect\<close>'s answer.
\<close>

definition tcp_connect :: "string \<Rightarrow> int \<Rightarrow> int \<Rightarrow> bool \<Rightarrow> int \<Rightarrow> int \<Rightarrow> errno \<Rightarrow> sock_result" where
  "tcp_connect host sock ioctl_r resolved pton_r connect_r connect_errno =
     (let failed = \<lparr>sr_result = -1, sr_stored = Some INVALID_SOCKET, sr_closed = [sock]\<rparr> in
      if sock < 0 then \<lparr>sr_result = -1, sr_stored = Some INVALID_SOCKET, sr_closed = []\<rparr>
      else if ioctl_r < 0 then failed
      else if (if host_is_name host then \<not> resolved else pton_r = 0) then failed
      else if connect_r < 0 \<and> connect_errno \<noteq> EWOULDBLOCK \<and> connect_errno \<noteq> EINPROGRESS
      then failed
      else \<lparr>sr_result = 0, sr_stored = Some sock, sr_closed = []\<rparr>)"

section \<open>What the calls guarantee\<close>

lemma length_clip: "0 \<le> n \<Longrightarrow> int (length (clip n bs)) = min n (int (length bs))"
  by (simp add: clip_def min_def) arith

text \<open>The result of a read is the number of bytes it delivered, or an error without bytes.\<close>

lemma tcp_read_cases:
  assumes "tcp_read sv answer count = (n, bs)"
  shows "(n = int (length bs) \<and> (0 \<le> count \<longrightarrow> n \<le> count)) \<or> (n = -1 \<and> bs = [])"
proof (cases answer)
  case (Ready b)
  show ?thesis
    using assms Ready length_clip [of count b]
    by (auto simp: tcp_read_def os_recv_def Let_def split: if_splits)
next
  case (RecvFailed e)
  with assms show ?thesis
    by (auto simp: tcp_read_def os_recv_def split: if_splits)
qed

lemma tcp_write_loop_cases:
  "tcp_write_loop os i count sent = (r, n) \<Longrightarrow> sent \<le> count \<Longrightarrow>
     (r = count \<and> n = count \<and> 0 < n - sent) \<or> (r = -1 \<and> sent \<le> n \<and> n \<le> count)"
proof (induction os i count sent rule: tcp_write_loop.induct)
  case (1 os i count sent)
  obtain sv takes where os: "os i = (sv, takes)" by (cases "os i")
  define wc where "wc = os_send takes (count - sent)"
  have wc: "wc \<le> count - sent" "wc < 0 \<longrightarrow> wc = -1"
    using "1.prems"(2) by (auto simp: wc_def os_send_def)
  show ?case
  proof (cases "0 < sv \<and> 0 < wc \<and> sent + wc < count")
    case True
    with "1.prems" os have "tcp_write_loop os (Suc i) count (sent + wc) = (r, n)"
      by (simp add: tcp_write_loop.simps [of os i] wc_def)
    from "1.IH" [OF os [symmetric] refl _ _ wc_def _ _ _ this] True wc show ?thesis
      by auto
  next
    case False
    with "1.prems" os wc show ?thesis
      by (auto simp: tcp_write_loop.simps [of os i] Let_def simp flip: wc_def split: if_splits)
  qed
qed

lemma tcp_write_cases:
  assumes "tcp_write os buffer = (r, out)"
  shows "(r = int (length buffer) \<and> out = buffer \<and> buffer \<noteq> []) \<or> (r = -1 \<and> prefix out buffer)"
  using assms tcp_write_loop_cases [of os 0 "int (length buffer)" 0]
  by (auto simp: tcp_write_def take_is_prefix split: prod.splits)

lemma tcp_write_loop_ready:
  "(\<And>j. 0 < fst (os j) \<and> 0 < snd (os j)) \<Longrightarrow> sent < count \<Longrightarrow>
   tcp_write_loop os i count sent = (count, count)"
proof (induction os i count sent rule: tcp_write_loop.induct)
  case (1 os i count sent)
  obtain sv takes where os: "os i = (sv, takes)" by (cases "os i")
  have pos: "0 < sv" "0 < takes" using "1.prems"(1) [of i] os by auto
  define wc where "wc = os_send takes (count - sent)"
  have wc: "0 < wc" "wc \<le> count - sent"
    using pos "1.prems"(2) by (auto simp: wc_def os_send_def)
  show ?case
  proof (cases "sent + wc < count")
    case True
    have "tcp_write_loop os (Suc i) count (sent + wc) = (count, count)"
      using "1.IH" [OF os [symmetric] refl _ _ wc_def _ _ True "1.prems"(1) True] pos wc by auto
    with True pos wc os show ?thesis
      by (simp add: tcp_write_loop.simps [of os i count sent] flip: wc_def)
  next
    case False
    with pos wc os show ?thesis
      by (simp add: tcp_write_loop.simps [of os i count sent] flip: wc_def)
  qed
qed

text \<open>
  C33: \<open>tcp_write\<close> sends a whole buffer or reports an error: it returns the full count exactly
  when every byte was sent, in order; otherwise it returns -1 and what was sent is a prefix. When
  the socket stays writable it does send everything, however small the pieces \<open>send\<close> takes.
\<close>

theorem tcp_write_whole_or_error:
  assumes "tcp_write os buffer = (r, out)"
  shows "(r = int (length buffer) \<and> out = buffer \<or> r = -1 \<and> prefix out buffer) \<and>
    (buffer \<noteq> [] \<and> (\<forall>i. 0 < fst (os i) \<and> 0 < snd (os i)) \<longrightarrow>
       r = int (length buffer) \<and> out = buffer)"
  using tcp_write_cases [OF assms] tcp_write_loop_ready [of os 0 "int (length buffer)" 0] assms
  by (auto simp: tcp_write_def)

theorem tcp_write_whole_or_error_witness:
  "tcp_write (\<lambda>i. (1, 2)) [10, 20, 30] = (3, [10, 20, 30])"
proof -
  obtain r out where w: "tcp_write (\<lambda>i. (1, 2)) [10, 20, 30 :: u8] = (r, out)"
    by (cases "tcp_write (\<lambda>i. (1, 2)) [10, 20, 30 :: u8]")
  with tcp_write_whole_or_error [OF w] show ?thesis by simp
qed

lemma sdiv_nonneg: "0 \<le> (a :: int) \<Longrightarrow> 0 < b \<Longrightarrow> a sdiv b = a div b"
  by (simp add: signed_divide_int_def sgn_if)

lemmas timeout_defs = timeval_usecs_def tcp_timeout_def accept_timeout_def sdiv_nonneg

text \<open>
  The timeouts of reads and writes are normalised and worth exactly the milliseconds asked
  for; the timeout of \<open>tcp_accept_connection\<close>, which divides where the others multiply, drops
  the milliseconds below a full second.
\<close>

theorem timeouts_in_microseconds:
  assumes "0 \<le> ms"
  shows "timeval_usecs (tcp_timeout ms) = ms * 1000 \<and>
    0 \<le> tv_usec (tcp_timeout ms) \<and> tv_usec (tcp_timeout ms) < 1000000 \<and>
    timeval_usecs (accept_timeout ms) = (ms - ms mod 1000) * 1000"
proof -
  have r: "ms - ms div 1000 * 1000 = ms mod 1000"
    by (rule minus_div_mult_eq_mod)
  have "(ms mod 1000) div 1000 = 0" by simp
  moreover have "ms = ms div 1000 * 1000 + ms mod 1000" by simp
  ultimately show ?thesis
    using assms by (simp add: timeout_defs r) presburger
qed

theorem timeouts_in_microseconds_witness:
  "timeval_usecs (tcp_timeout 1500) = 1500000 \<and> timeval_usecs (accept_timeout 1500) = 1000000"
  using timeouts_in_microseconds [of 1500] by simp

text \<open>
  \<open>tcp_connect\<close> neither leaks nor hands out a closed socket: it returns 0 with the new socket
  stored and open, or -1 with \<open>INVALID_SOCKET\<close> stored and the socket, if one was made, closed. A
  connection still in progress counts as success.
\<close>

theorem tcp_connect_no_leak:
  fixes host sock ioctl_r resolved pton_r connect_r err
  defines "s \<equiv> tcp_connect host sock ioctl_r resolved pton_r connect_r err"
  shows "sr_result s = 0 \<and> 0 \<le> sock \<and> sr_stored s = Some sock \<and> sr_closed s = [] \<or>
    sr_result s = -1 \<and> sr_stored s = Some INVALID_SOCKET \<and>
      sr_closed s = (if 0 \<le> sock then [sock] else [])"
  by (auto simp: s_def tcp_connect_def Let_def)

text \<open>
  Listening succeeds (0) only with the socket stored and open. When \<open>listen\<close> itself fails
  the socket is closed and stored all the same, and when setting an option fails it is neither
  stored nor closed.
\<close>

theorem tcp_listen_outcomes:
  fixes sock so io bi li
  defines "s \<equiv> tcp_listen_on_port sock so io bi li"
  assumes "li \<le> 0"
  shows "(sr_result s = 0 \<longrightarrow> 0 \<le> sock \<and> sr_stored s = Some sock \<and> sr_closed s = []) \<and>
    (0 \<le> sock \<and> 0 \<le> so \<and> 0 \<le> io \<and> 0 \<le> bi \<and> li < 0 \<longrightarrow>
       sr_stored s = Some sock \<and> sr_closed s = [sock]) \<and>
    (0 \<le> sock \<and> (so < 0 \<or> io < 0) \<longrightarrow> sr_stored s = None \<and> sr_closed s = [])"
  using assms(2) by (auto simp: s_def tcp_listen_on_port_def)

theorem tcp_listen_outcomes_witness:
  "sr_stored (tcp_listen_on_port 7 0 0 0 (-1)) = Some 7 \<and>
   sr_closed (tcp_listen_on_port 7 0 0 0 (-1)) = [7]"
  using tcp_listen_outcomes [of "-1" 7 0 0 0] by simp

end
