(* ===== verification/Gateway.thy ===== *)
theory Gateway
  imports Ring Smbproto Tcp
begin

text \<open>
  The relay of \<open>smbgw.c\<close>: the loop of \<open>smbgw_thread\<close> that moves framed SMB messages
  between the client and the server of one connection. The two halves of the loop body are the same
  code with client and server exchanged, so they are one definition with the direction as its
  parameter. A turn's environment is what \<open>select\<close> and \<open>recv\<close> answer on the socket it
  reads and what \<open>select\<close> and \<open>send\<close> answer on the socket it writes.
\<close>

section \<open>State\<close>

datatype packet_state = psHeader | psBody | psPacket

text \<open>One direction: its ring, its packet state and the bytes the current stage wants.\<close>

record relay_dir =
  d_ring :: ioring
  d_state :: packet_state
  d_remain :: int

record io_event =
  ev_select :: int
  ev_recv :: recv_answer
  ev_send :: "nat \<Rightarrow> int \<times> int"

text \<open>
  What a half turn does: the value of \<open>result\<close> after it (not 0 breaks off), the new state, the
  bytes it received and the bytes it sent.
\<close>

record half_result =
  h_result :: int
  h_dir :: relay_dir
  h_recv :: "u8 list"
  h_sent :: "u8 list"
  h_log :: smb_log

section \<open>The relay\<close>

definition start_dir :: "ioring \<Rightarrow> relay_dir" where
  "start_dir ring = \<lparr>d_ring = ring, d_state = psHeader, d_remain = 4\<rparr>"

text \<open>\<open>ntohl\<close> of the four bytes copied from the receive pointer: big-endian.\<close>

definition packet_header :: "u8 list \<Rightarrow> u32" where
  "packet_header bs = le_load (rev bs)"

definition relay_header :: "relay_dir \<Rightarrow> ioring \<Rightarrow> int \<Rightarrow> u8 list \<Rightarrow> half_result outcome" where
  "relay_header d ring ioptr got =
     (case mem_read (r_data ring) ioptr 4 of
        None \<Rightarrow> Faults
      | Some bs \<Rightarrow>
          if 0x1FFFFF < packet_header bs
          then Returns \<lparr>h_result = -1, h_dir = d\<lparr>d_ring := ring\<rparr>, h_recv = got, h_sent = [], h_log = []\<rparr>
          else Returns \<lparr>h_result = 0,
                 h_dir = \<lparr>d_ring = ring, d_state = psBody,
                          d_remain = sint (packet_header bs + 4)\<rparr>,
                 h_recv = got, h_sent = [], h_log = []\<rparr>)"

definition relay_body ::
    "bool \<Rightarrow> int \<Rightarrow> bool \<Rightarrow> io_event \<Rightarrow> relay_dir \<Rightarrow> ioring \<Rightarrow> u8 list \<Rightarrow> half_result outcome" where
  "relay_body isclient ordinal passthrough ev d ring got =
     (case normalize_ring ring None of
        None \<Rightarrow> Faults
      | Some ring1 \<Rightarrow>
          let (ioptr, chunk) = butil_ring_contiguous_read_ptr ring1 in
          case (if passthrough then Returns (0, [])
                else smbproto_packet isclient ordinal (drop (nat (ioptr + 4)) (r_data ring1)) (chunk - 4)) of
            Faults \<Rightarrow> Faults
          | Diverges \<Rightarrow> Diverges
          | Returns (result, l) \<Rightarrow>
              if result \<noteq> 0
              then Returns \<lparr>h_result = result, h_dir = d\<lparr>d_ring := ring1\<rparr>, h_recv = got, h_sent = [],
                            h_log = l\<rparr>
              else let (ioptr2, chunk2) = butil_ring_contiguous_read_ptr ring1 in
                if 0 < chunk2
                then (case mem_read (r_data ring1) ioptr2 chunk2 of
                        None \<Rightarrow> Faults
                      | Some buf \<Rightarrow>
                          let (n, out) = tcp_write (ev_send ev) buf in
                          if 0 \<le> n
                          then Returns \<lparr>h_result = 0, h_dir = start_dir (ring_consumed n ring1),
                                 h_recv = got, h_sent = out, h_log = l\<rparr>
                          else Returns \<lparr>h_result = n, h_dir = start_dir ring1,
                                 h_recv = got, h_sent = out, h_log = l\<rparr>)
                else Returns \<lparr>h_result = 0, h_dir = start_dir ring1, h_recv = got, h_sent = [],
                              h_log = l\<rparr>)"

definition relay_received ::
    "bool \<Rightarrow> int \<Rightarrow> bool \<Rightarrow> io_event \<Rightarrow> relay_dir \<Rightarrow> ioring \<Rightarrow> int \<Rightarrow> u8 list \<Rightarrow> half_result outcome" where
  "relay_received isclient ordinal passthrough ev d ring ioptr got =
     (if r_count ring = d_remain d
      then (if d_state d = psHeader then relay_header d ring ioptr got
            else relay_body isclient ordinal passthrough ev d ring got)
      else Returns \<lparr>h_result = 0, h_dir = d\<lparr>d_ring := ring\<rparr>, h_recv = got, h_sent = [], h_log = []\<rparr>)"

definition relay_half ::
    "bool \<Rightarrow> int \<Rightarrow> bool \<Rightarrow> io_event \<Rightarrow> relay_dir \<Rightarrow> half_result outcome" where
  "relay_half isclient ordinal passthrough ev d =
     (let ring = d_ring d; (ioptr, room) = contiguous_write_ptr ring;
          chunk = d_remain d - r_count ring
      in if room < chunk
         then Returns \<lparr>h_result = -1, h_dir = d, h_recv = [], h_sent = [], h_log = []\<rparr>
         else let (n, got) = tcp_read (ev_select ev) (ev_recv ev) chunk in
           if 0 < n
           then (case ring_put got ring of
                   None \<Rightarrow> Faults
                 | Some ring1 \<Rightarrow>
                     relay_received isclient ordinal passthrough ev d ring1 ioptr got)
           else if n \<noteq> 0
           then Returns \<lparr>h_result = n, h_dir = d, h_recv = [], h_sent = [], h_log = []\<rparr>
           else relay_received isclient ordinal passthrough ev d ring ioptr [])"

definition client_half where
  "client_half ordinal passthrough ev d = relay_half True ordinal passthrough ev d"

definition server_half where
  "server_half ordinal passthrough ev d = relay_half False ordinal passthrough ev d"

text \<open>
  The \<open>do\<close> loop over a list of turns. A turn is the client's half and, unless it broke off, the
  server's half. The result holds the last \<open>result\<close>, the bytes read from and written to each
  side.
\<close>

record relay_conn =
  c_client :: relay_dir
  c_server :: relay_dir

record relay_io =
  from_client :: "u8 list"
  to_server :: "u8 list"
  from_server :: "u8 list"
  to_client :: "u8 list"

definition no_io :: relay_io where
  "no_io = \<lparr>from_client = [], to_server = [], from_server = [], to_client = []\<rparr>"

definition client_io :: "half_result \<Rightarrow> relay_io \<Rightarrow> relay_io" where
  "client_io h io = io\<lparr>from_client := from_client io @ h_recv h, to_server := to_server io @ h_sent h\<rparr>"

definition server_io :: "half_result \<Rightarrow> relay_io \<Rightarrow> relay_io" where
  "server_io h io = io\<lparr>from_server := from_server io @ h_recv h, to_client := to_client io @ h_sent h\<rparr>"

fun relay_loop ::
    "int \<Rightarrow> bool \<Rightarrow> (io_event \<times> io_event) list \<Rightarrow> relay_conn \<Rightarrow> relay_io \<Rightarrow>
     (int \<times> relay_conn \<times> relay_io) outcome" where
  "relay_loop ordinal passthrough [] c io = Returns (0, c, io)"
| "relay_loop ordinal passthrough ((ec, es) # evs) c io =
     (case client_half ordinal passthrough ec (c_client c) of
        Faults \<Rightarrow> Faults
      | Diverges \<Rightarrow> Diverges
      | Returns h \<Rightarrow>
          let c1 = c\<lparr>c_client := h_dir h\<rparr>; io1 = client_io h io in
          if h_result h \<noteq> 0 then Returns (h_result h, c1, io1)
          else (case server_half ordinal passthrough es (c_server c1) of
                  Faults \<Rightarrow> Faults
                | Diverges \<Rightarrow> Diverges
                | Returns h' \<Rightarrow>
                    let c2 = c1\<lparr>c_server := h_dir h'\<rparr>; io2 = server_io h' io1 in
                    if h_result h' \<noteq> 0 then Returns (h_result h', c2, io2)
                    else relay_loop ordinal passthrough evs c2 io2))"

section \<open>The invariant of a direction\<close>

text \<open>
  Between two turns the ring is unwrapped (it starts at the beginning of its buffer), a header
  stage holds less than a header, and a body stage holds the header and wants no more than the
  largest accepted message.
\<close>

definition max_body :: int where
  "max_body = 0x1FFFFF"

fun stage_ok :: "packet_state \<Rightarrow> int \<Rightarrow> int \<Rightarrow> bool" where
  "stage_ok psHeader remain n = (remain = 4 \<and> n < 4)"
| "stage_ok psBody remain n = (4 \<le> n \<and> n \<le> remain \<and> remain \<le> max_body + 4)"
| "stage_ok psPacket remain n = False"

definition dir_ok :: "relay_dir \<Rightarrow> bool" where
  "dir_ok d \<longleftrightarrow> ring_ok (d_ring d) \<and> r_tail (d_ring d) = 0 \<and> 8 \<le> r_size (d_ring d) \<and>
     stage_ok (d_state d) (d_remain d) (r_count (d_ring d))"

lemma ring_from_zero:
  assumes "ring_ok ring" "r_tail ring = 0"
  shows "butil_ring_contiguous_read_ptr ring = (0, r_count ring)"
    and "mem_read (r_data ring) 0 (r_count ring) = Some (contents ring)"
    and "normalize_ring ring None = Some ring"
    and "ring_room ring = r_size ring - r_count ring"
    and "r_count ring < r_size ring \<Longrightarrow> r_head ring = r_count ring"
proof -
  show h: "r_head ring = r_count ring" if "r_count ring < r_size ring"
    using assms that by (simp add: ring_ok_def)
  have "ring_avail ring = r_count ring"
    using ring_avail_eq [OF assms(1)] assms(2) ring_okD [OF assms(1)] by simp
  then show "butil_ring_contiguous_read_ptr ring = (0, r_count ring)"
    using assms(2) by (simp add: ring_avail_def butil_ring_contiguous_read_ptr_def)
  show "mem_read (r_data ring) 0 (r_count ring) = Some (contents ring)"
    using assms ring_okD [OF assms(1)] by (simp add: mem_read_def contents_def)
  show "normalize_ring ring None = Some ring"
    using assms(2) by (simp add: normalize_ring_def)
  show "ring_room ring = r_size ring - r_count ring"
    using ring_room_eq [OF assms(1)] ring_okD [OF assms(1)] h
    by (cases "r_count ring < r_size ring") auto
qed

lemma consume_all:
  assumes "ring_ok ring" "r_tail ring = 0"
  shows "ring_ok (ring_consumed (r_count ring) ring)" "contents (ring_consumed (r_count ring) ring) = []"
    "r_tail (ring_consumed (r_count ring) ring) = 0" "r_count (ring_consumed (r_count ring) ring) = 0"
    "r_size (ring_consumed (r_count ring) ring) = r_size ring"
  using assms ring_okD [OF assms(1)]
  by (auto simp: ring_consumed_def reset_ring_def Let_def ring_ok_def contents_def)

text \<open>What every half turn guarantees, by the stage it ends in.\<close>

definition half_post :: "relay_dir \<Rightarrow> half_result \<Rightarrow> bool" where
  "half_post d h \<longleftrightarrow>
     prefix (h_sent h) (contents (d_ring d) @ h_recv h) \<and>
     (h_result h = 0 \<longrightarrow> dir_ok (h_dir h) \<and> r_size (d_ring (h_dir h)) = r_size (d_ring d) \<and>
        h_sent h @ contents (d_ring (h_dir h)) = contents (d_ring d) @ h_recv h)"

definition received_ok :: "relay_dir \<Rightarrow> ioring \<Rightarrow> u8 list \<Rightarrow> bool" where
  "received_ok d ring got \<longleftrightarrow> ring_ok ring \<and> r_tail ring = 0 \<and> 8 \<le> r_size ring \<and>
     r_size ring = r_size (d_ring d) \<and> contents ring = contents (d_ring d) @ got \<and>
     r_count ring \<le> d_remain d \<and>
     (d_state d = psHeader \<and> d_remain d = 4 \<or>
      d_state d = psBody \<and> 4 \<le> r_count ring \<and> d_remain d \<le> max_body + 4)"

lemma header_remain:
  assumes "\<not> 0x1FFFFF < packet_header bs"
  shows "sint (packet_header bs + 4) = uint (packet_header bs) + 4" "uint (packet_header bs) \<le> max_body"
proof -
  show le: "uint (packet_header bs) \<le> max_body"
    using assms by (simp add: max_body_def not_less word_le_def)
  have "packet_header bs + 4 = word_of_int (uint (packet_header bs) + 4)"
    by (simp flip: wi_hom_add)
  also have "sint \<dots> = uint (packet_header bs) + 4"
  proof (rule sint_u32_word_of_int)
    have "0 \<le> uint (packet_header bs)" by simp
    then show "- 2147483648 \<le> uint (packet_header bs) + 4" by linarith
    show "uint (packet_header bs) + 4 < 2147483648"
      using le unfolding max_body_def by linarith
  qed
  finally show "sint (packet_header bs + 4) = uint (packet_header bs) + 4" .
qed

lemma relay_header_post:
  assumes "received_ok d ring got" "d_state d = psHeader" "r_count ring = 4"
    and "relay_header d ring ioptr got = Returns h"
  shows "half_post d h"
  using assms header_remain
  by (auto simp: relay_header_def half_post_def received_ok_def dir_ok_def
      split: option.splits if_splits)

lemma relay_body_post:
  assumes ok: "received_ok d ring got" and st: "d_state d = psBody"
    and ret: "relay_body c ord pass ev d ring got = Returns h"
  shows "half_post d h"
proof -
  have r: "ring_ok ring" "r_tail ring = 0" "0 < r_count ring" "8 \<le> r_size ring"
      "r_size ring = r_size (d_ring d)" "contents ring = contents (d_ring d) @ got"
    using ok st by (auto simp: received_ok_def)
  note z = ring_from_zero [OF r(1,2)] and all = consume_all [OF r(1,2)]
  obtain n out where w: "tcp_write (ev_send ev) (contents ring) = (n, out)"
    by (cases "tcp_write (ev_send ev) (contents ring)")
  have len: "int (length (contents ring)) = r_count ring"
    by (rule length_contents [OF r(1)])
  from tcp_write_cases [OF w] ret show ?thesis
    using r z(1-3) all len w
    by (auto simp: relay_body_def half_post_def start_dir_def dir_ok_def
        split: outcome.splits if_splits prod.splits)
qed

lemma relay_received_post:
  assumes ok: "received_ok d ring got"
    and ret: "relay_received c ord pass ev d ring ioptr got = Returns h"
  shows "half_post d h"
proof (cases "r_count ring = d_remain d")
  case False
  with ok ret show ?thesis
    by (auto simp: relay_received_def half_post_def received_ok_def dir_ok_def)
next
  case True
  then show ?thesis
    using ok ret relay_header_post [OF ok] relay_body_post [OF ok]
    by (auto simp: relay_received_def received_ok_def split: if_splits)
qed

text \<open>The packet handler the body stage calls.\<close>

definition body_check :: "bool \<Rightarrow> int \<Rightarrow> bool \<Rightarrow> ioring \<Rightarrow> (int \<times> smb_log) outcome" where
  "body_check c ord pass ring =
     (if pass then Returns (0, [])
      else smbproto_packet c ord (drop 4 (r_data ring)) (r_count ring - 4))"

lemma relay_body_eq:
  assumes "ring_ok ring" "r_tail ring = 0" "0 < r_count ring"
  shows "relay_body c ord pass ev d ring got =
    (case body_check c ord pass ring of
       Faults \<Rightarrow> Faults | Diverges \<Rightarrow> Diverges
     | Returns (result, l) \<Rightarrow>
         if result \<noteq> 0
         then Returns \<lparr>h_result = result, h_dir = d\<lparr>d_ring := ring\<rparr>, h_recv = got, h_sent = [], h_log = l\<rparr>
         else let (n, out) = tcp_write (ev_send ev) (contents ring) in
           if 0 \<le> n
           then Returns \<lparr>h_result = 0, h_dir = start_dir (ring_consumed n ring), h_recv = got,
                         h_sent = out, h_log = l\<rparr>
           else Returns \<lparr>h_result = n, h_dir = start_dir ring, h_recv = got, h_sent = out, h_log = l\<rparr>)"
  using ring_from_zero [OF assms(1,2)] assms(3)
  by (cases "body_check c ord pass ring")
    (auto simp: relay_body_def body_check_def split: if_splits)

text \<open>
  The read of a half turn: it stays inside the room, it fills the ring and it leaves the packet's
  state to \<open>relay_received\<close>.
\<close>

lemma relay_half_cases:
  assumes ok: "dir_ok d"
  obtains (broken) n where "n \<noteq> 0"
      "relay_half c ord pass ev d = Returns \<lparr>h_result = n, h_dir = d, h_recv = [], h_sent = [], h_log = []\<rparr>"
      "ring_room (d_ring d) < d_remain d - r_count (d_ring d) \<or>
       fst (tcp_read (ev_select ev) (ev_recv ev) (d_remain d - r_count (d_ring d))) < 0"
  | (received) ring got where "received_ok d ring got"
      "got = snd (tcp_read (ev_select ev) (ev_recv ev) (d_remain d - r_count (d_ring d)))"
      "ring = d_ring d \<and> got = [] \<or> ring_put got (d_ring d) = Some ring \<and> got \<noteq> []"
      "relay_half c ord pass ev d =
         relay_received c ord pass ev d ring (r_head (d_ring d)) got"
proof -
  let ?ring = "d_ring d"
  have r: "ring_ok ?ring" "r_tail ?ring = 0" "8 \<le> r_size ?ring"
    and st: "stage_ok (d_state d) (d_remain d) (r_count ?ring)"
    using ok by (auto simp: dir_ok_def)
  have chunk: "r_count ?ring \<le> d_remain d"
    and stage: "d_state d = psHeader \<and> d_remain d = 4 \<or>
      d_state d = psBody \<and> 4 \<le> r_count ?ring \<and> d_remain d \<le> max_body + 4"
    using st by (cases "d_state d"; simp)+
  define ch where "ch = d_remain d - r_count ?ring"
  obtain ioptr room where p: "contiguous_write_ptr ?ring = (ioptr, room)" "ioptr = r_head ?ring"
      "room = ring_room ?ring"
    by (simp add: contiguous_write_ptr_def ring_room_def)
  obtain n got where rd: "tcp_read (ev_select ev) (ev_recv ev) ch = (n, got)"
    by (cases "tcp_read (ev_select ev) (ev_recv ev) ch")
  note half = relay_half_def [of c ord pass ev d, unfolded Let_def p(1), simplified, folded ch_def]
  from tcp_read_cases [OF rd] chunk consider
      "room < ch" | "\<not> room < ch" "0 < n" "n = int (length got)" "n \<le> ch"
    | "\<not> room < ch" "n = 0" "got = []" | "\<not> room < ch" "n = -1"
    by (fastforce simp: ch_def)
  then show thesis
  proof cases
    case 1
    then show thesis using p by (intro broken [of "-1"]) (simp_all add: half ch_def)
  next
    case 2
    then have "int (length got) \<le> ring_room ?ring" using p by simp
    from ring_put_ok [OF r(1) this] obtain ring where put: "ring_put got ?ring = Some ring"
      "ring_ok ring" "contents ring = contents ?ring @ got" "r_count ring = r_count ?ring + n"
      "r_tail ring = 0" "r_size ring = r_size ?ring"
      using 2 r by auto
    show thesis
    proof (rule received)
      show "received_ok d ring got"
        using put r stage 2 by (auto simp: received_ok_def ch_def)
      show "relay_half c ord pass ev d = relay_received c ord pass ev d ring (r_head ?ring) got"
        using 2 rd put(1) p by (simp add: half)
      show "ring = ?ring \<and> got = [] \<or> ring_put got ?ring = Some ring \<and> got \<noteq> []"
        using put 2 by auto
    qed (simp add: rd flip: ch_def)
  next
    case 3
    show thesis
    proof (rule received)
      show "received_ok d ?ring []"
        using r stage chunk by (auto simp: received_ok_def)
      show "relay_half c ord pass ev d = relay_received c ord pass ev d ?ring (r_head ?ring) []"
        using 3 rd p by (simp add: half)
    qed (simp_all add: rd 3 flip: ch_def)
  next
    case 4
    with rd p show thesis by (intro broken [of "-1"]) (simp_all add: half flip: ch_def)
  qed
qed

lemma relay_half_post:
  assumes "dir_ok d" "relay_half c ord pass ev d = Returns h"
  shows "half_post d h"
proof (rule relay_half_cases [OF assms(1), of c ord pass ev])
  fix n assume "n \<noteq> 0" "relay_half c ord pass ev d =
      Returns \<lparr>h_result = n, h_dir = d, h_recv = [], h_sent = [], h_log = []\<rparr>"
  with assms(2) show ?thesis by (auto simp: half_post_def)
next
  fix ring got assume "received_ok d ring got"
    and "relay_half c ord pass ev d = relay_received c ord pass ev d ring (r_head (d_ring d)) got"
  with assms(2) show ?thesis by (auto intro: relay_received_post)
qed

section \<open>Safety of a half turn\<close>

lemma relay_header_safe:
  assumes "dir_ok d" "received_ok d ring got" "d_state d = psHeader"
  shows "\<exists>h. relay_header d ring (r_head (d_ring d)) got = Returns h"
proof -
  have "r_head (d_ring d) = r_count (d_ring d)" "r_count (d_ring d) < 4"
    using assms(1,3) ring_from_zero(5) [of "d_ring d"] by (auto simp: dir_ok_def)
  moreover have "int (length (r_data ring)) = r_size ring" "8 \<le> r_size ring"
    using assms(2) by (auto simp: received_ok_def ring_ok_def)
  moreover have "0 \<le> r_count (d_ring d)"
    using assms(1) by (auto simp: dir_ok_def ring_ok_def)
  ultimately show ?thesis
    by (simp add: relay_header_def mem_read_def)
qed

lemma received_ok_ring:
  "received_ok d ring got \<Longrightarrow> ring_ok ring \<and> r_tail ring = 0"
  "received_ok d ring got \<Longrightarrow> d_state d = psBody \<Longrightarrow> 0 < r_count ring"
  by (auto simp: received_ok_def)

text \<open>A half turn can fail to return only in the packet handler.\<close>

lemma relay_half_returns_or_handler:
  assumes ok: "dir_ok d"
  shows "(\<exists>h. relay_half c ord pass ev d = Returns h \<and> half_post d h) \<or>
    (\<exists>ring got. received_ok d ring got \<and> d_state d = psBody \<and> r_count ring = d_remain d \<and>
       (body_check c ord pass ring = Faults \<and> relay_half c ord pass ev d = Faults \<or>
        body_check c ord pass ring = Diverges \<and> relay_half c ord pass ev d = Diverges))"
proof -
  have ret: ?thesis if "\<exists>h. relay_half c ord pass ev d = Returns h"
    using that relay_half_post [OF ok] by blast
  show ?thesis
  proof (rule relay_half_cases [OF ok, of c ord pass ev])
    fix n assume "relay_half c ord pass ev d =
        Returns \<lparr>h_result = n, h_dir = d, h_recv = [], h_sent = [], h_log = []\<rparr>"
    then show ?thesis by (intro ret) blast
  next
    fix ring got assume rcv: "received_ok d ring got"
      and eq: "relay_half c ord pass ev d = relay_received c ord pass ev d ring (r_head (d_ring d)) got"
    show ?thesis
    proof (cases "r_count ring = d_remain d \<and> d_state d \<noteq> psHeader")
      case False
      with relay_header_safe [OF ok rcv] show ?thesis
        by (intro ret) (auto simp: eq relay_received_def)
    next
      case True
      with rcv have st: "d_state d = psBody" by (auto simp: received_ok_def)
      have body: "relay_half c ord pass ev d = relay_body c ord pass ev d ring got"
        using True by (simp add: eq relay_received_def)
      note beq = relay_body_eq [OF received_ok_ring(1) [OF rcv, THEN conjunct1]
          received_ok_ring(1) [OF rcv, THEN conjunct2] received_ok_ring(2) [OF rcv st]]
      show ?thesis
      proof (cases "body_check c ord pass ring")
        case (Returns x)
        then show ?thesis
          by (intro ret) (auto simp: body beq split: prod.splits)
      qed (rule disjI2, use rcv st True beq body in fastforce)+
    qed
  qed
qed

section \<open>The loop\<close>

text \<open>
  What was sent, followed by what a ring still holds, is what was received, for both directions;
  \<open>a\<close> and \<open>b\<close> are what the rings held at the start.
\<close>

definition io_sync :: "u8 list \<Rightarrow> u8 list \<Rightarrow> relay_io \<Rightarrow> relay_conn \<Rightarrow> bool" where
  "io_sync a b io c \<longleftrightarrow>
     to_server io @ contents (d_ring (c_client c)) = a @ from_client io \<and>
     to_client io @ contents (d_ring (c_server c)) = b @ from_server io"

definition conn_ok :: "relay_conn \<Rightarrow> bool" where
  "conn_ok c \<longleftrightarrow> dir_ok (c_client c) \<and> dir_ok (c_server c)"

definition io_prefixes :: "u8 list \<Rightarrow> u8 list \<Rightarrow> relay_io \<Rightarrow> bool" where
  "io_prefixes a b io \<longleftrightarrow> prefix (to_server io) (a @ from_client io) \<and>
     prefix (to_client io) (b @ from_server io)"

lemma io_sync_prefixes: "io_sync a b io c \<Longrightarrow> io_prefixes a b io"
  unfolding io_sync_def io_prefixes_def prefix_def by metis

lemma prefix_extend:
  "s @ c = a @ r \<Longrightarrow> prefix x (c @ g) \<Longrightarrow> prefix (s @ x) (a @ r @ g)"
  by (metis append.assoc same_prefix_prefix)

lemma client_turn:
  assumes "io_sync a b io c" "half_post (c_client c) h"
  shows "io_prefixes a b (client_io h io)"
    and "h_result h = 0 \<Longrightarrow> io_sync a b (client_io h io) (c\<lparr>c_client := h_dir h\<rparr>)"
  using assms io_sync_prefixes [OF assms(1)]
  by (auto simp: io_sync_def io_prefixes_def half_post_def client_io_def intro: prefix_extend)

lemma server_turn:
  assumes "io_sync a b io c" "half_post (c_server c) h"
  shows "io_prefixes a b (server_io h io)"
    and "h_result h = 0 \<Longrightarrow> io_sync a b (server_io h io) (c\<lparr>c_server := h_dir h\<rparr>)"
  using assms io_sync_prefixes [OF assms(1)]
  by (auto simp: io_sync_def io_prefixes_def half_post_def server_io_def intro: prefix_extend)

lemma half_post_dir: "half_post d h \<Longrightarrow> h_result h = 0 \<Longrightarrow> dir_ok (h_dir h)"
  by (simp add: half_post_def)

lemma relay_loop_sync:
  "relay_loop ord pass evs c io = Returns (r, c', io') \<Longrightarrow> conn_ok c \<Longrightarrow> io_sync a b io c \<Longrightarrow>
   io_prefixes a b io' \<and> (r = 0 \<longrightarrow> conn_ok c' \<and> io_sync a b io' c')"
proof (induction ord pass evs c io rule: relay_loop.induct)
  case (1 ord pass c io)
  then show ?case by (auto dest: io_sync_prefixes)
next
  case (2 ord pass ec es evs c io)
  from "2.prems"(1) obtain h where h: "client_half ord pass ec (c_client c) = Returns h"
    by (auto split: outcome.splits)
  have post: "half_post (c_client c) h"
    using h "2.prems"(2) relay_half_post by (auto simp: client_half_def conn_ok_def)
  note ct = client_turn [OF "2.prems"(3) post]
  show ?case
  proof (cases "h_result h = 0")
    case False
    with "2.prems"(1) h ct show ?thesis by (auto simp: Let_def)
  next
    case True
    let ?c1 = "c\<lparr>c_client := h_dir h\<rparr>" and ?io1 = "client_io h io"
    have c1: "conn_ok ?c1" "io_sync a b ?io1 ?c1"
      using "2.prems"(2) half_post_dir [OF post True] ct True by (auto simp: conn_ok_def)
    from "2.prems"(1) h True obtain h' where h': "server_half ord pass es (c_server ?c1) = Returns h'"
      by (auto simp: Let_def split: outcome.splits)
    have post': "half_post (c_server ?c1) h'"
      using h' c1(1) relay_half_post by (auto simp: server_half_def conn_ok_def)
    note st = server_turn [OF c1(2) post']
    show ?thesis
    proof (cases "h_result h' = 0")
      case False
      with "2.prems"(1) h h' True st show ?thesis by (auto simp: Let_def)
    next
      case zero: True
      let ?c2 = "?c1\<lparr>c_server := h_dir h'\<rparr>"
      have "conn_ok ?c2" "io_sync a b (server_io h' ?io1) ?c2"
        using c1(1) half_post_dir [OF post' zero] st(2) [OF zero] by (auto simp: conn_ok_def)
      with "2.IH" [OF h refl refl _ h' refl refl] "2.prems"(1) h h' True zero show ?thesis
        by (simp add: Let_def)
    qed
  qed
qed

lemma relay_half_passthrough: "dir_ok d \<Longrightarrow> \<exists>h. relay_half c ord True ev d = Returns h \<and> half_post d h"
  using relay_half_returns_or_handler [of d c ord True ev] by (auto simp: body_check_def)

lemma relay_loop_passthrough:
  "conn_ok c \<Longrightarrow> \<exists>r c' io'. relay_loop ord True evs c io = Returns (r, c', io')"
proof (induction evs arbitrary: c io)
  case Nil
  then show ?case by simp
next
  case (Cons ev evs)
  obtain ec es where ev: "ev = (ec, es)" by (cases ev)
  obtain h where h: "client_half ord True ec (c_client c) = Returns h" "half_post (c_client c) h"
    using relay_half_passthrough [of "c_client c" True ord ec] Cons.prems
    by (auto simp: client_half_def conn_ok_def)
  obtain h' where h': "server_half ord True es (c_server c) = Returns h'" "half_post (c_server c) h'"
    using relay_half_passthrough [of "c_server c" False ord es] Cons.prems
    by (auto simp: server_half_def conn_ok_def)
  show ?case
  proof (cases "h_result h = 0 \<and> h_result h' = 0")
    case True
    then have "conn_ok (c\<lparr>c_client := h_dir h, c_server := h_dir h'\<rparr>)"
      using h h' by (auto simp: conn_ok_def dest: half_post_dir)
    with Cons.IH True h h' ev show ?thesis by (simp add: Let_def)
  next
    case False
    with h h' ev show ?thesis by (auto simp: Let_def)
  qed
qed

text \<open>A connection as \<open>smbgw_thread\<close> finds it: both rings reset, both directions at a header.\<close>

definition fresh_ring :: "ioring \<Rightarrow> bool" where
  "fresh_ring ring \<longleftrightarrow> ring_ok ring \<and> 8 \<le> r_size ring \<and> r_tail ring = 0 \<and> r_count ring = 0"

definition start_conn :: "ioring \<Rightarrow> ioring \<Rightarrow> relay_conn" where
  "start_conn cr sr = \<lparr>c_client = start_dir cr, c_server = start_dir sr\<rparr>"

lemma start_conn_ok: "fresh_ring cr \<Longrightarrow> fresh_ring sr \<Longrightarrow> conn_ok (start_conn cr sr)"
  by (simp add: fresh_ring_def start_conn_def conn_ok_def dir_ok_def start_dir_def)

lemma start_conn_sync: "fresh_ring cr \<Longrightarrow> fresh_ring sr \<Longrightarrow> io_sync [] [] no_io (start_conn cr sr)"
  by (simp add: fresh_ring_def start_conn_def start_dir_def io_sync_def no_io_def contents_def)

definition empty_ring :: "u8 list \<Rightarrow> ioring" where
  "empty_ring data = \<lparr>r_head = 0, r_tail = 0, r_count = 0, r_size = int (length data), r_data = data\<rparr>"

lemma empty_ring_fresh: "8 \<le> length data \<Longrightarrow> int (length data) \<le> int_max \<Longrightarrow> fresh_ring (empty_ring data)"
  by (auto simp: fresh_ring_def empty_ring_def ring_ok_def)

text \<open>
  C4: The relay is transparent: whatever the sockets answer, over any number of turns, the bytes
  written to the server are a prefix of the bytes read from the client and the bytes written to
  the client a prefix of the bytes read from the server; while the relay runs on, the difference
  is exactly what the two rings hold.
\<close>

theorem relay_stream_integrity:
  assumes "fresh_ring cr" "fresh_ring sr"
    and "relay_loop ord pass evs (start_conn cr sr) no_io = Returns (r, c, io)"
  shows "prefix (to_server io) (from_client io) \<and> prefix (to_client io) (from_server io) \<and>
    (r = 0 \<longrightarrow> from_client io = to_server io @ contents (d_ring (c_client c)) \<and>
               from_server io = to_client io @ contents (d_ring (c_server c)))"
  using relay_loop_sync [OF assms(3) start_conn_ok [OF assms(1,2)] start_conn_sync [OF assms(1,2)]]
  by (simp add: io_prefixes_def io_sync_def)

definition idle :: io_event where
  "idle = \<lparr>ev_select = 0, ev_recv = Ready [], ev_send = \<lambda>i. (0, 0)\<rparr>"

definition arrives :: "u8 list \<Rightarrow> io_event" where
  "arrives bs = \<lparr>ev_select = 1, ev_recv = Ready bs, ev_send = \<lambda>i. (1, 4)\<rparr>"

theorem relay_stream_integrity_witness:
  "relay_loop 0 True [(arrives [0, 0, 0, 2], idle), (arrives [7, 8, 9], idle)]
     (start_conn (empty_ring (replicate 8 0)) (empty_ring (replicate 8 0))) no_io
   = Returns (0, start_conn (empty_ring [0, 0, 0, 2, 7, 8, 0, 0]) (empty_ring (replicate 8 0)),
       \<lparr>from_client = [0, 0, 0, 2, 7, 8], to_server = [0, 0, 0, 2, 7, 8],
        from_server = [], to_client = []\<rparr>) \<and>
   prefix [0, 0, 0, 2, 7, 8 :: u8] [0, 0, 0, 2, 7, 8]"
proof -
  let ?c = "start_conn (empty_ring (replicate 8 0)) (empty_ring (replicate 8 0))"
  have run: "relay_loop 0 True [(arrives [0, 0, 0, 2], idle), (arrives [7, 8, 9], idle)] ?c no_io
   = Returns (0, start_conn (empty_ring [0, 0, 0, 2, 7, 8, 0, 0]) (empty_ring (replicate 8 0)),
       \<lparr>from_client = [0, 0, 0, 2, 7, 8], to_server = [0, 0, 0, 2, 7, 8],
        from_server = [], to_client = []\<rparr>)"
    by code_simp
  have "fresh_ring (empty_ring (replicate 8 0))"
    by (rule empty_ring_fresh) (simp_all add: int_max_def)
  from relay_stream_integrity [OF this this run] run show ?thesis by simp
qed

text \<open>
  A passthrough relay never reaches undefined behaviour and never gets stuck inside a turn,
  whatever the sockets answer: every run of the loop ends in a result.
\<close>

theorem relay_passthrough_safe:
  assumes "fresh_ring cr" "fresh_ring sr"
  shows "\<exists>r c io. relay_loop ord True evs (start_conn cr sr) no_io = Returns (r, c, io)"
  by (rule relay_loop_passthrough) (rule start_conn_ok [OF assms])

theorem relay_passthrough_safe_witness:
  "\<exists>r c io. relay_loop 0 True [(arrives [0, 0], idle), (arrives [0, 3, 1, 2], arrives [9])]
    (start_conn (empty_ring (replicate 16 0)) (empty_ring (replicate 16 0))) no_io = Returns (r, c, io)"
proof -
  have "fresh_ring (empty_ring (replicate 16 0))"
    by (rule empty_ring_fresh) (simp_all add: int_max_def)
  then show ?thesis by (intro relay_passthrough_safe)
qed

section \<open>Framing\<close>

lemma ring_put_data:
  assumes "dir_ok d" "d_state d = psHeader" "ring_put got (d_ring d) = Some ring"
    and "r_count (d_ring d) + int (length got) = 4"
  shows "mem_read (r_data ring) (r_head (d_ring d)) 4 =
      Some (got @ take (nat (r_count (d_ring d))) (drop 4 (r_data (d_ring d))))"
    and "r_count ring = 4"
proof -
  let ?d = "r_data (d_ring d)"
  define k where "k = nat (r_count (d_ring d))"
  have ok: "ring_ok (d_ring d)" "r_tail (d_ring d) = 0" "8 \<le> r_size (d_ring d)"
      "r_count (d_ring d) < 4"
    using assms(1,2) by (auto simp: dir_ok_def)
  have k: "r_count (d_ring d) = int k" "k < 4" "k + length got = 4" "8 \<le> length ?d"
      "r_head (d_ring d) = int k"
    using ok assms(4) ring_okD [OF ok(1)] ring_from_zero(5) [OF ok(1,2)] by (auto simp: k_def)
  have "mem_write ?d (int k) got = Some (take k ?d @ got @ drop 4 ?d)"
    using k by (simp add: mem_write_def)
  then have ring: "r_data ring = take k ?d @ got @ drop 4 ?d" "r_count ring = 4"
    using assms(3,4) k by (auto simp: ring_put_def contiguous_write_ptr_def ring_wrote_def Let_def)
  show "r_count ring = 4" by (rule ring(2))
  have "4 - length got = k" using k(3) by simp
  then have "take 4 (got @ drop 4 ?d) = got @ take k (drop 4 ?d)"
    using k(3) by simp
  then show "mem_read (r_data ring) (r_head (d_ring d)) 4 =
      Some (got @ take (nat (r_count (d_ring d))) (drop 4 ?d))"
    using k ring(1) by (simp add: mem_read_def)
qed

lemma relay_half_header:
  assumes ok: "dir_ok d" and st: "d_state d = psHeader"
    and got: "got = snd (tcp_read (ev_select ev) (ev_recv ev) (4 - r_count (d_ring d)))"
    and full: "r_count (d_ring d) + int (length got) = 4"
  defines "w \<equiv> packet_header (got @ take (nat (r_count (d_ring d))) (drop 4 (r_data (d_ring d))))"
  shows "\<exists>ring. ring_put got (d_ring d) = Some ring \<and> relay_half c ord pass ev d = Returns
    (if 0x1FFFFF < w
     then \<lparr>h_result = -1, h_dir = d\<lparr>d_ring := ring\<rparr>, h_recv = got, h_sent = [], h_log = []\<rparr>
     else \<lparr>h_result = 0, h_dir = \<lparr>d_ring = ring, d_state = psBody, d_remain = uint w + 4\<rparr>,
           h_recv = got, h_sent = [], h_log = []\<rparr>)"
proof -
  have rem: "d_remain d = 4" "r_count (d_ring d) < 4" "8 \<le> r_size (d_ring d)"
    "ring_room (d_ring d) = r_size (d_ring d) - r_count (d_ring d)"
    using ok st ring_from_zero(4) by (auto simp: dir_ok_def)
  obtain n where rd: "tcp_read (ev_select ev) (ev_recv ev) (4 - r_count (d_ring d)) = (n, got)"
    using got by (cases "tcp_read (ev_select ev) (ev_recv ev) (4 - r_count (d_ring d))") simp
  have n: "0 < n" "n = int (length got)"
    using tcp_read_cases [OF rd] full rem by auto
  have "int (length got) \<le> ring_room (d_ring d)"
    using rem full by simp
  then obtain ring where put: "ring_put got (d_ring d) = Some ring"
    using ring_put_ok ok unfolding dir_ok_def by blast
  have "\<not> ring_room (d_ring d) < 4 - r_count (d_ring d)" using rem by simp
  then have "relay_half c ord pass ev d = relay_header d ring (r_head (d_ring d)) got"
    using rd n put rem(1) st ring_put_data(2) [OF ok st put full]
    by (simp add: relay_half_def relay_received_def ring_room_def contiguous_write_ptr_def)
  moreover have "\<not> 0x1FFFFF < w \<Longrightarrow> sint (w + 4) = uint w + 4"
    unfolding w_def by (rule header_remain(1))
  ultimately show ?thesis
    using put ring_put_data(1) [OF ok st put full]
    by (auto simp: relay_header_def simp flip: w_def)
qed

lemma packet_header_value:
  "uint (packet_header [a, b, c, d]) = 16777216 * uint a + 65536 * uint b + 256 * uint c + uint d"
  by (simp add: packet_header_def uint_le_load_Cons del: le_load.simps(2))

text \<open>
  A header that arrives in one piece is decoded as the big-endian length it carries: lengths
  above 0x1FFFFF end the connection, any other makes the direction wait for exactly the header
  and that many bytes.
\<close>

theorem relay_whole_header:
  assumes "dir_ok d" "d_state d = psHeader" "r_count (d_ring d) = 0"
    and "snd (tcp_read (ev_select ev) (ev_recv ev) 4) = [a, b, c, e]"
  defines "len \<equiv> 16777216 * uint a + 65536 * uint b + 256 * uint c + uint e"
  shows "\<exists>h. relay_half isclient ord pass ev d = Returns h \<and> h_sent h = [] \<and>
    (if 0x1FFFFF < len then h_result h = -1
     else h_result h = 0 \<and> d_state (h_dir h) = psBody \<and> d_remain (h_dir h) = len + 4)"
proof -
  have "snd (tcp_read (ev_select ev) (ev_recv ev) (4 - r_count (d_ring d))) = [a, b, c, e]"
    using assms(3,4) by simp
  from relay_half_header [OF assms(1,2) this [symmetric], of isclient ord pass] assms(3)
  show ?thesis
    using packet_header_value [of a b c e] by (auto simp: len_def word_less_def)
qed

lemma start_dir_ok: "fresh_ring ring \<Longrightarrow> dir_ok (start_dir ring)"
  by (simp add: fresh_ring_def dir_ok_def start_dir_def)

lemma start_dir_16: "dir_ok (start_dir (empty_ring (replicate 16 0)))"
  by (intro start_dir_ok empty_ring_fresh) (simp_all add: int_max_def)

theorem relay_whole_header_witness:
  "\<exists>h. relay_half True 0 False (arrives [0, 0, 1, 2, 9]) (start_dir (empty_ring (replicate 16 0)))
     = Returns h \<and> d_remain (h_dir h) = 262"
proof -
  have "snd (tcp_read (ev_select (arrives [0, 0, 1, 2, 9])) (ev_recv (arrives [0, 0, 1, 2, 9])) 4)
      = [0, 0, 1, 2]"
    by code_simp
  from relay_whole_header [OF start_dir_16 _ _ this, of True 0 False] show ?thesis
    by (auto simp: start_dir_def empty_ring_def)
qed

text \<open>
  C22: A header that arrives in two pieces is misread: the length is decoded from where the last
  read started, that is from the second piece followed by as many stale bytes of the ring as the
  first piece had.
\<close>

theorem relay_split_header_misread:
  assumes "dir_ok d" "d_state d = psHeader" "r_count (d_ring d) = int k"
    and "got = snd (tcp_read (ev_select ev) (ev_recv ev) (4 - int k))" "k + length got = 4"
  defines "w \<equiv> packet_header (got @ take k (drop 4 (r_data (d_ring d))))"
  shows "\<exists>h. relay_half isclient ord pass ev d = Returns h \<and>
    (if 0x1FFFFF < w then h_result h = -1
     else h_result h = 0 \<and> d_state (h_dir h) = psBody \<and> d_remain (h_dir h) = uint w + 4)"
proof -
  have "got = snd (tcp_read (ev_select ev) (ev_recv ev) (4 - r_count (d_ring d)))"
      "r_count (d_ring d) + int (length got) = 4"
    using assms(3,4,5) by simp_all
  from relay_half_header [OF assms(1,2) this, of isclient ord pass] assms(3)
  show ?thesis by (auto simp: w_def)
qed

theorem relay_split_header_misread_witness:
  "\<exists>h. relay_half True 0 False (arrives [0, 0x2C])
     \<lparr>d_ring = \<lparr>r_head = 2, r_tail = 0, r_count = 2, r_size = 16, r_data = replicate 16 0\<rparr>,
      d_state = psHeader, d_remain = 4\<rparr> = Returns h \<and> h_result h = -1"
proof -
  let ?d = "\<lparr>d_ring = \<lparr>r_head = 2, r_tail = 0, r_count = 2, r_size = 16, r_data = replicate 16 0\<rparr>,
      d_state = psHeader, d_remain = 4\<rparr>"
  have d: "dir_ok ?d" "d_state ?d = psHeader" "r_count (d_ring ?d) = int 2"
    by (simp_all add: dir_ok_def ring_ok_def int_max_def)
  have got: "[0, 0x2C] = snd (tcp_read (ev_select (arrives [0, 0x2C])) (ev_recv (arrives [0, 0x2C]))
      (4 - int 2))"
    by code_simp
  have "0x1FFFFF < packet_header ([0, 0x2C] @ take 2 (drop 4 (replicate 16 0)))"
    by code_simp
  with relay_split_header_misread [OF d got, of True 0 False] show ?thesis by auto
qed

text \<open>
  Sending: only a message that is complete and, unless in passthrough, accepted by the walk is
  sent. With a socket that fails, a part of it may be out.
\<close>

lemma relay_half_offers:
  assumes ok: "dir_ok d" and ret: "relay_half isclient ord pass ev d = Returns h" and sent: "h_sent h \<noteq> []"
  defines "msg \<equiv> contents (d_ring d) @ h_recv h"
  shows "d_state d = psBody \<and> int (length msg) = d_remain d \<and>
    (\<not> pass \<longrightarrow> (\<exists>rest l. int (length rest) = r_size (d_ring d) - d_remain d \<and>
       smbproto_packet isclient ord (drop 4 msg @ rest) (int (length msg) - 4) = Returns (0, l))) \<and>
    (if h_result h = 0 then h_sent h = msg \<and> h_dir h = start_dir (d_ring (h_dir h)) \<and> fresh_ring (d_ring (h_dir h))
     else prefix (h_sent h) msg \<and> h_result h = -1)"
proof (rule relay_half_cases [OF ok, of isclient ord pass ev])
  fix n assume "relay_half isclient ord pass ev d =
      Returns \<lparr>h_result = n, h_dir = d, h_recv = [], h_sent = [], h_log = []\<rparr>"
  with ret sent show ?thesis by auto
next
  fix ring got assume rcv: "received_ok d ring got"
    and "relay_half isclient ord pass ev d =
      relay_received isclient ord pass ev d ring (r_head (d_ring d)) got"
  with ret sent have body: "relay_body isclient ord pass ev d ring got = Returns h"
      "r_count ring = d_remain d" "d_state d = psBody"
    by (auto simp: relay_received_def relay_header_def received_ok_def
        split: if_splits option.splits)
  note r = received_ok_ring(1) [OF rcv] received_ok_ring(2) [OF rcv body(3)]
  have ok': "ring_ok ring" "r_tail ring = 0" using r by auto
  have c: "contents ring = take (nat (r_count ring)) (r_data ring)" "int (length (contents ring)) = r_count ring"
    using ok' length_contents [OF ok'(1)] by (simp_all add: contents_def)
  obtain n out where w: "tcp_write (ev_send ev) (contents ring) = (n, out)"
    by (cases "tcp_write (ev_send ev) (contents ring)")
  from body(1) sent obtain l where chk: "body_check isclient ord pass ring = Returns (0, l)"
    unfolding relay_body_eq [OF ok' r(2)] by (auto split: outcome.splits if_splits)
  note h = body(1) [unfolded relay_body_eq [OF ok' r(2)] chk outcome.case prod.case, simplified, unfolded w, simplified]
  have msg: "msg = contents ring" using h rcv by (auto simp: msg_def received_ok_def split: if_splits)
  have len: "4 \<le> length (contents ring)" "int (length (r_data ring)) = r_size (d_ring d)"
      "r_count ring \<le> r_size (d_ring d)"
    using rcv body(3) c(2) ring_okD [OF ok'(1)] by (auto simp: received_ok_def)
  let ?rest = "drop (nat (r_count ring)) (r_data ring)"
  have "drop 4 msg @ ?rest = drop 4 (contents ring @ ?rest)" using len(1) by (simp add: msg)
  also have "\<dots> = drop 4 (r_data ring)" by (simp add: c(1))
  finally have "\<not> pass \<Longrightarrow> smbproto_packet isclient ord (drop 4 msg @ ?rest) (int (length msg) - 4) = Returns (0, l)"
    using chk by (simp add: body_check_def msg c(2))
  moreover have "int (length ?rest) = r_size (d_ring d) - d_remain d"
    using len c(2) body(2) ring_okD [OF ok'(1)] by simp
  ultimately have "\<not> pass \<Longrightarrow> \<exists>rest l. int (length rest) = r_size (d_ring d) - d_remain d \<and>
      smbproto_packet isclient ord (drop 4 msg @ rest) (int (length msg) - 4) = Returns (0, l)" by blast
  moreover have "int (length msg) = d_remain d" using c(2) body(2) by (simp add: msg)
  moreover have "if h_result h = 0 then h_sent h = msg \<and> h_dir h = start_dir (d_ring (h_dir h)) \<and> fresh_ring (d_ring (h_dir h))
      else prefix (h_sent h) msg \<and> h_result h = -1"
    using h tcp_write_cases [OF w] consume_all [OF ok'] rcv r(2)
    by (auto simp: msg c(2) fresh_ring_def received_ok_def start_dir_def split: if_splits)
  ultimately show ?thesis using body(3) by blast
qed

lemma relay_half_sends:
  assumes "dir_ok d" "relay_half isclient ord pass ev d = Returns h" "h_result h = 0" "h_sent h \<noteq> []"
  shows "d_state d = psBody \<and> h_sent h = contents (d_ring d) @ h_recv h \<and>
    int (length (h_sent h)) = d_remain d \<and> r_count (d_ring (h_dir h)) = 0 \<and>
    d_state (h_dir h) = psHeader \<and> d_remain (h_dir h) = 4 \<and>
    (\<not> pass \<longrightarrow> (\<exists>rest l. smbproto_packet isclient ord (drop 4 (h_sent h) @ rest)
        (int (length (h_sent h)) - 4) = Returns (0, l)))"
proof -
  note o = relay_half_offers [OF assms(1,2,4)]
  with assms(3) have d: "h_sent h = contents (d_ring d) @ h_recv h" "h_dir h = start_dir (d_ring (h_dir h))"
      "fresh_ring (d_ring (h_dir h))" by simp_all
  then have "d_state (h_dir h) = psHeader" "d_remain (h_dir h) = 4"
    by (metis start_dir_def relay_dir.select_convs(2,3))+
  moreover from d(3) have "r_count (d_ring (h_dir h)) = 0" by (simp add: fresh_ring_def)
  ultimately show ?thesis using o [folded d(1)] d(1) by blast
qed

text \<open>
  C6: Nothing is sent that is not a complete message: whenever a half turn from a well-formed state
  sends bytes, the ring and the read together held exactly the bytes the decoded header announced and, unless in passthrough,
  the walk accepted this message. With result 0 the message was sent whole, the ring is empty and the
  direction back at a header; otherwise the socket failed, a prefix of the message is out, and the
  result -1 ends the connection.
\<close>

theorem relay_sends_whole_vetted_message:
  assumes "dir_ok d" "relay_half isclient ord pass ev d = Returns h" "h_sent h \<noteq> []"
  defines "msg \<equiv> contents (d_ring d) @ h_recv h"
  shows "d_state d = psBody \<and> int (length msg) = d_remain d \<and>
    (\<not> pass \<longrightarrow> (\<exists>rest l. int (length rest) = r_size (d_ring d) - d_remain d \<and>
       smbproto_packet isclient ord (drop 4 msg @ rest) (int (length msg) - 4) = Returns (0, l))) \<and>
    (if h_result h = 0 then h_sent h = msg \<and> h_dir h = start_dir (d_ring (h_dir h)) \<and> fresh_ring (d_ring (h_dir h))
     else prefix (h_sent h) msg \<and> h_result h = -1)"
  unfolding msg_def by (rule relay_half_offers [OF assms(1-3)])

definition sent_sample :: relay_dir where
  "sent_sample =
     \<lparr>d_ring = \<lparr>r_head = 67, r_tail = 0, r_count = 67, r_size = 96,
                r_data = [0, 0, 0, 64] @ smb2_magic @ replicate 88 0\<rparr>,
      d_state = psBody, d_remain = 68\<rparr>"

text \<open>A socket that takes 60 of 68 bytes and then blocks.\<close>

definition short_send :: io_event where
  "short_send = (arrives [0])\<lparr>ev_send := \<lambda>i. if i = 0 then (1, 60) else (0, 0)\<rparr>"

theorem relay_sends_whole_vetted_message_witness:
  "(\<exists>h. relay_half True 0 False (arrives [0]) sent_sample = Returns h \<and> h_result h = 0 \<and>
     h_sent h = [0, 0, 0, 64] @ smb2_magic @ replicate 60 0) \<and>
   (\<exists>h. relay_half True 0 False short_send sent_sample = Returns h \<and> h_result h = -1 \<and>
     prefix (h_sent h) ([0, 0, 0, 64] @ smb2_magic @ replicate 60 0))"
proof -
  have ok: "dir_ok sent_sample"
    by (simp add: dir_ok_def sent_sample_def ring_ok_def int_max_def max_body_def smb2_magic_def)
  have "case relay_half True 0 False (arrives [0]) sent_sample of
      Returns h \<Rightarrow> h_result h = 0 \<and> h_sent h \<noteq> [] \<and>
        contents (d_ring sent_sample) @ h_recv h = [0, 0, 0, 64] @ smb2_magic @ replicate 60 0
    | _ \<Rightarrow> False"
    by code_simp
  then obtain h where h: "relay_half True 0 False (arrives [0]) sent_sample = Returns h" "h_sent h \<noteq> []"
      "h_result h = 0" "contents (d_ring sent_sample) @ h_recv h = [0, 0, 0, 64] @ smb2_magic @ replicate 60 0"
    by (auto split: outcome.splits)
  have "case relay_half True 0 False short_send sent_sample of
      Returns h \<Rightarrow> h_result h = -1 \<and> h_sent h \<noteq> [] \<and>
        contents (d_ring sent_sample) @ h_recv h = [0, 0, 0, 64] @ smb2_magic @ replicate 60 0
    | _ \<Rightarrow> False"
    by code_simp
  then obtain k where k: "relay_half True 0 False short_send sent_sample = Returns k" "h_sent k \<noteq> []"
      "h_result k = -1" "contents (d_ring sent_sample) @ h_recv k = [0, 0, 0, 64] @ smb2_magic @ replicate 60 0"
    by (auto split: outcome.splits)
  show ?thesis
    using relay_sends_whole_vetted_message [OF ok h(1,2)] relay_sends_whole_vetted_message [OF ok k(1,2)] h k by simp
qed

text \<open>
  C23: A length the header check admits but the ring cannot hold ends the connection: the header
  turn succeeds, and every half turn after it fails before reading or sending anything. With the
  buffer of \<open>main\<close> (0x20008 bytes) these are the lengths from 0x20005 to 0x1FFFFF.
\<close>

theorem relay_oversized_message_breaks:
  assumes "dir_ok d" "d_state d = psHeader" "r_count (d_ring d) = 0"
    and "snd (tcp_read (ev_select ev) (ev_recv ev) 4) = [a, b, c, e]"
  defines "len \<equiv> 16777216 * uint a + 65536 * uint b + 256 * uint c + uint e"
  assumes "len \<le> 0x1FFFFF" "r_size (d_ring d) < len + 4"
  shows "\<exists>d'. relay_half isclient ord pass ev d = Returns
      \<lparr>h_result = 0, h_dir = d', h_recv = [a, b, c, e], h_sent = [], h_log = []\<rparr> \<and>
    (\<forall>ev'. relay_half isclient ord pass ev' d' = Returns
      \<lparr>h_result = -1, h_dir = d', h_recv = [], h_sent = [], h_log = []\<rparr>)"
proof -
  have got: "snd (tcp_read (ev_select ev) (ev_recv ev) (4 - r_count (d_ring d))) = [a, b, c, e]"
    using assms(3,4) by simp
  have small: "\<not> 0x1FFFFF < packet_header [a, b, c, e]"
    and len: "uint (packet_header [a, b, c, e]) = len"
    using packet_header_value [of a b c e] assms(6) by (auto simp: len_def word_less_def)
  obtain ring where put: "ring_put [a, b, c, e] (d_ring d) = Some ring"
    and half: "relay_half isclient ord pass ev d = Returns
      \<lparr>h_result = 0, h_dir = \<lparr>d_ring = ring, d_state = psBody, d_remain = len + 4\<rparr>,
       h_recv = [a, b, c, e], h_sent = [], h_log = []\<rparr>"
    using relay_half_header [OF assms(1,2) got [symmetric], of isclient ord pass] assms(3) small len
    by auto
  have d: "ring_ok (d_ring d)" "r_tail (d_ring d) = 0" "8 \<le> r_size (d_ring d)"
    using assms(1) by (auto simp: dir_ok_def)
  then have "int (length [a, b, c, e]) \<le> ring_room (d_ring d)"
    using ring_from_zero(4) [OF d(1,2)] assms(3) by simp
  from ring_put_ok [OF d(1) this] put assms(3) d
  have ring: "ring_ok ring" "r_tail ring = 0" "r_count ring = 4" "r_size ring = r_size (d_ring d)"
    by auto
  then obtain ioptr where "contiguous_write_ptr ring = (ioptr, r_size (d_ring d) - 4)"
    using ring_from_zero(4) [OF ring(1,2)]
    by (cases "contiguous_write_ptr ring") (simp add: ring_room_def)
  then have "relay_half isclient ord pass ev' \<lparr>d_ring = ring, d_state = psBody, d_remain = len + 4\<rparr> =
      Returns \<lparr>h_result = -1, h_dir = \<lparr>d_ring = ring, d_state = psBody, d_remain = len + 4\<rparr>,
               h_recv = [], h_sent = [], h_log = []\<rparr>" for ev'
    using ring(3) assms(7) by (simp add: relay_half_def)
  with half show ?thesis by blast
qed

theorem relay_oversized_message_breaks_witness:
  "\<exists>d'. relay_half True 0 False (arrives [0, 2, 0, 5]) (start_dir (empty_ring (replicate 0x20008 0)))
     = Returns \<lparr>h_result = 0, h_dir = d', h_recv = [0, 2, 0, 5], h_sent = [], h_log = []\<rparr> \<and>
     relay_half True 0 False (arrives [0xFF]) d'
     = Returns \<lparr>h_result = -1, h_dir = d', h_recv = [], h_sent = [], h_log = []\<rparr>"
proof -
  have ok: "dir_ok (start_dir (empty_ring (replicate 0x20008 0)))"
    by (intro start_dir_ok empty_ring_fresh) (simp_all add: int_max_def)
  have "snd (tcp_read (ev_select (arrives [0, 2, 0, 5])) (ev_recv (arrives [0, 2, 0, 5])) 4) = [0, 2, 0, 5]"
    by code_simp
  from relay_oversized_message_breaks [OF ok _ _ this, of True 0 False] show ?thesis
    by (auto simp: start_dir_def empty_ring_def)
qed

text \<open>
  The fate of an empty message (a header with length 0) depends on timing: the turn after the
  header asks for no bytes, so when the socket has something to read \<open>recv\<close> returns 0 and the
  connection is taken for closed; when it has not, passthrough forwards the bare header and the
  checked relay ends the connection.
\<close>

theorem relay_empty_message:
  assumes "dir_ok d" "d_state d = psBody" "d_remain d = 4"
  shows "\<exists>h. relay_half isclient ord pass ev d = Returns h \<and>
    (if ev_select ev < 0 \<or> 0 < ev_select ev \<and> ev_recv ev \<notin> {RecvFailed EWOULDBLOCK, RecvFailed EAGAIN}
     then h_result h < 0 \<and> h_sent h = []
     else if \<not> pass then h_result h = -1 \<and> h_sent h = []
     else h_result h = 0 \<longrightarrow> h_sent h = contents (d_ring d))"
proof -
  let ?ring = "d_ring d"
  have r: "ring_ok ?ring" "r_tail ?ring = 0" "r_count ?ring = 4" "8 \<le> r_size ?ring"
    using assms by (auto simp: dir_ok_def)
  then obtain ioptr room where w: "contiguous_write_ptr ?ring = (ioptr, room)" "0 \<le> room"
    using ring_from_zero(4) [OF r(1,2)] ring_okD [OF r(1)]
    by (cases "contiguous_write_ptr ?ring") (simp add: ring_room_def)
  show ?thesis
  proof (cases "ev_select ev < 0 \<or> 0 < ev_select ev \<and>
      ev_recv ev \<notin> {RecvFailed EWOULDBLOCK, RecvFailed EAGAIN}")
    case True
    then have "tcp_read (ev_select ev) (ev_recv ev) 0 = (-1, [])"
      by (auto simp: tcp_read_def os_recv_def clip_def split: recv_answer.splits)
    then show ?thesis
      using True w r(3) assms(3) by (auto simp: relay_half_def)
  next
    case False
    then have "tcp_read (ev_select ev) (ev_recv ev) 0 = (0, [])"
      by (auto simp: tcp_read_def os_recv_def split: recv_answer.splits)
    then have half: "relay_half isclient ord pass ev d = relay_body isclient ord pass ev d ?ring []"
      using w r(3) assms by (simp add: relay_half_def relay_received_def)
    obtain n out where tw: "tcp_write (ev_send ev) (contents ?ring) = (n, out)"
      by (cases "tcp_write (ev_send ev) (contents ?ring)")
    show ?thesis
      using False half tw tcp_write_cases [OF tw] r relay_body_eq [OF r(1,2)] length_contents [OF r(1)]
      by (auto simp: body_check_def smbproto_packet_def)
  qed
qed

theorem relay_empty_message_witness:
  "\<exists>h. relay_half True 0 True (arrives [7])
     \<lparr>d_ring = \<lparr>r_head = 4, r_tail = 0, r_count = 4, r_size = 16, r_data = replicate 16 0\<rparr>,
      d_state = psBody, d_remain = 4\<rparr> = Returns h \<and> h_result h < 0"
proof -
  let ?d = "\<lparr>d_ring = \<lparr>r_head = 4, r_tail = 0, r_count = 4, r_size = 16, r_data = replicate 16 0\<rparr>,
      d_state = psBody, d_remain = 4\<rparr>"
  have "dir_ok ?d" "d_state ?d = psBody" "d_remain ?d = 4"
    by (simp_all add: dir_ok_def ring_ok_def int_max_def max_body_def)
  from relay_empty_message [OF this, of True 0 True "arrives [7]"] show ?thesis
    by (auto simp: arrives_def)
qed

end
