(* ===== verification/Proxy.thy ===== *)
theory Proxy
  imports Gateway "HOL-Library.Multiset"
begin

text \<open>
  The connection contexts of \<open>smbgw.c\<close> and \<open>smbcontext.h\<close>: \<open>osal_sleep\<close>,
  \<open>smbgw_proxy_init\<close>, which allocates the contexts and their buffers, and
  \<open>smbgw_proxy_start\<close>, which hands a client's socket to a free one. The answers of
  \<open>nanosleep\<close>, \<open>malloc\<close> and \<open>pthread_create\<close> are parameters.
\<close>

section \<open>Sleeping\<close>

record timespec =
  ts_sec :: int
  ts_nsec :: int

function ts_normalize :: "timespec \<Rightarrow> timespec" where
  "ts_normalize ts =
     (if 1000000000 < ts_nsec ts
      then ts_normalize (ts\<lparr>ts_sec := ts_sec ts + 1, ts_nsec := ts_nsec ts - 1000000000\<rparr>)
      else ts)"
  by pat_completeness auto
termination by (relation "measure (\<lambda>ts. nat (ts_nsec ts))") auto

declare ts_normalize.simps [simp del]

definition osal_timespec :: "int \<Rightarrow> int \<Rightarrow> timespec" where
  "osal_timespec secs usecs = ts_normalize \<lparr>ts_sec = secs, ts_nsec = usecs * 1000\<rparr>"

text \<open>
  The calls of \<open>nanosleep\<close>: each answer is its return value, \<open>errno\<close> and the time it stores
  as remaining. The result lists the times asked for; \<open>None\<close> when the answers run out first.
\<close>

fun sleep_loop :: "(int \<times> errno \<times> timespec) list \<Rightarrow> timespec \<Rightarrow> timespec list option" where
  "sleep_loop [] ts = None"
| "sleep_loop ((result, err, rem) # answers) ts =
     (if result = -1 \<and> err = EINTR then map_option ((#) ts) (sleep_loop answers rem) else Some [ts])"

definition osal_sleep :: "(int \<times> errno \<times> timespec) list \<Rightarrow> int \<Rightarrow> int \<Rightarrow> timespec list option" where
  "osal_sleep answers secs usecs = sleep_loop answers (osal_timespec secs usecs)"

definition ts_total :: "timespec \<Rightarrow> int" where
  "ts_total ts = ts_sec ts * 1000000000 + ts_nsec ts"

lemma ts_normalize_post:
  "ts_total (ts_normalize ts) = ts_total ts \<and> ts_nsec (ts_normalize ts) \<le> 1000000000 \<and>
   (0 < ts_nsec ts \<longrightarrow> 0 < ts_nsec (ts_normalize ts)) \<and>
   (ts_nsec ts = 0 \<longrightarrow> ts_nsec (ts_normalize ts) = 0) \<and>
   (ts_nsec (ts_normalize ts) - ts_nsec ts) mod 1000000000 = 0"
proof (induction ts rule: ts_normalize.induct)
  case (1 ts)
  show ?case
  proof (cases "1000000000 < ts_nsec ts")
    case True
    define ts' where "ts' = ts\<lparr>ts_sec := ts_sec ts + 1, ts_nsec := ts_nsec ts - 1000000000\<rparr>"
    have "ts_normalize ts = ts_normalize ts'"
      using True by (simp add: ts_normalize.simps [of ts] ts'_def)
    moreover have "ts_total ts' = ts_total ts" "ts_nsec ts' = ts_nsec ts - 1000000000"
      by (simp_all add: ts'_def ts_total_def)
    moreover have "(n - (ts_nsec ts - 1000000000)) mod 1000000000 = (n - ts_nsec ts) mod 1000000000" for n
      using mod_add_self2 [of "n - ts_nsec ts" 1000000000] by (simp add: algebra_simps)
    ultimately show ?thesis
      using 1 [OF True, folded ts'_def] True by auto
  next
    case False
    then show ?thesis by (simp add: ts_normalize.simps [of ts])
  qed
qed

text \<open>
  \<open>osal_sleep\<close> asks for exactly the time its caller names, but a whole positive number of
  seconds given in microseconds leaves \<open>tv_nsec\<close> at 1000000000, one above what \<open>nanosleep\<close>
  accepts; every other request is in range.
\<close>

theorem osal_timespec_exact:
  assumes "0 \<le> usecs"
  shows "ts_total (osal_timespec secs usecs) = secs * 1000000000 + usecs * 1000 \<and>
    0 \<le> ts_nsec (osal_timespec secs usecs) \<and>
    (ts_nsec (osal_timespec secs usecs) < 1000000000 \<longleftrightarrow> usecs = 0 \<or> usecs mod 1000000 \<noteq> 0)"
proof -
  define ts where "ts = osal_timespec secs usecs"
  have p: "ts_total ts = secs * 1000000000 + usecs * 1000" "ts_nsec ts \<le> 1000000000"
    "0 < usecs \<longrightarrow> 0 < ts_nsec ts" "usecs = 0 \<longrightarrow> ts_nsec ts = 0"
    "(ts_nsec ts - usecs * 1000) mod 1000000000 = 0"
    using ts_normalize_post [of "\<lparr>ts_sec = secs, ts_nsec = usecs * 1000\<rparr>"]
    by (auto simp: ts_def osal_timespec_def ts_total_def)
  have "ts_nsec ts < 1000000000 \<longleftrightarrow> usecs = 0 \<or> usecs mod 1000000 \<noteq> 0"
  proof -
    have "ts_nsec ts mod 1000000000 = usecs * 1000 mod 1000000000"
      using p(5) by (metis mod_eq_dvd_iff mod_0_imp_dvd)
    also have "\<dots> = usecs mod 1000000 * 1000"
      using mod_mult_mult2 [of usecs 1000 1000000] by simp
    finally have m: "ts_nsec ts mod 1000000000 = usecs mod 1000000 * 1000" .
    show ?thesis
    proof (cases "ts_nsec ts = 1000000000")
      case True
      with m p(4) show ?thesis by auto
    next
      case False
      then have "ts_nsec ts < 1000000000" using p(2) by simp
      moreover have "0 \<le> ts_nsec ts" using p(3,4) assms by linarith
      ultimately show ?thesis using m p(3) assms by (cases "usecs = 0") auto
    qed
  qed
  then show ?thesis using p assms by (auto simp flip: ts_def)
qed

theorem osal_timespec_exact_witness:
  "ts_total (osal_timespec 0 2500000) = 2500000000 \<and> ts_nsec (osal_timespec 0 2500000) < 1000000000 \<and>
   \<not> ts_nsec (osal_timespec 1 1000000) < 1000000000"
  using osal_timespec_exact [of 2500000 0] osal_timespec_exact [of 1000000 1] by simp

section \<open>Contexts\<close>

text \<open>
  A connection context. \<open>client_block\<close> and \<open>server_block\<close> name the allocated block a
  ring's \<open>data\<close> points to (\<open>None\<close> for \<open>NULL\<close>), \<open>thread\<close> tells whether the
  context's thread has been created.
\<close>

record smb_ctx =
  client_socket :: int
  server_socket :: int
  client_ring :: ioring
  server_ring :: ioring
  client_block :: "nat option"
  server_block :: "nat option"
  passthrough :: bool
  ordinal :: int
  thread :: bool

text \<open>The static variables of the file.\<close>

record gateway =
  s_server_host :: string
  s_server_port :: u16
  s_ctx :: "smb_ctx list"
  s_ctx_cnt :: int

text \<open>A context after \<open>memset\<close>.\<close>

definition zero_ring :: ioring where
  "zero_ring = \<lparr>r_head = 0, r_tail = 0, r_count = 0, r_size = 0, r_data = []\<rparr>"

definition zero_ctx :: smb_ctx where
  "zero_ctx = \<lparr>client_socket = 0, server_socket = 0, client_ring = zero_ring,
     server_ring = zero_ring, client_block = None, server_block = None, passthrough = False,
     ordinal = 0, thread = False\<rparr>"

text \<open>
  The heap: the \<open>k\<close>-th call of \<open>malloc\<close> returns \<open>NULL\<close> (\<open>None\<close>) or a block
  with arbitrary bytes. A function that allocates takes the number of the next call and returns it
  advanced.
\<close>

type_synonym heap = "nat \<Rightarrow> (nat \<Rightarrow> u8) option"

definition block_bytes :: "(nat \<Rightarrow> u8) \<Rightarrow> int \<Rightarrow> u8 list" where
  "block_bytes garbage n = map garbage [0..<nat n]"

text \<open>One turn of the loop of \<open>smbgw_proxy_init\<close>, with the value of \<open>allset\<close> after it.\<close>

definition init_ctx :: "heap \<Rightarrow> int \<Rightarrow> nat \<Rightarrow> int \<Rightarrow> smb_ctx \<times> bool \<times> nat" where
  "init_ctx heap iobuffer_size k i =
     (let c = zero_ctx\<lparr>ordinal := i, client_socket := INVALID_SOCKET, server_socket := INVALID_SOCKET,
                client_ring := zero_ring\<lparr>r_size := iobuffer_size\<rparr>\<rparr>
      in case heap k of
        None \<Rightarrow> (c, False, k + 1)
      | Some g \<Rightarrow>
          let c = c\<lparr>client_block := Some k,
                client_ring := reset_ring (client_ring c\<lparr>r_data := block_bytes g iobuffer_size\<rparr>),
                server_ring := zero_ring\<lparr>r_size := iobuffer_size\<rparr>\<rparr>
          in case heap (k + 1) of
            None \<Rightarrow> (c, False, k + 2)
          | Some g \<Rightarrow>
              (c\<lparr>server_block := Some (k + 1),
                 server_ring := reset_ring (server_ring c\<lparr>r_data := block_bytes g iobuffer_size\<rparr>)\<rparr>,
               True, k + 2))"

fun init_loop :: "heap \<Rightarrow> int \<Rightarrow> nat \<Rightarrow> int list \<Rightarrow> smb_ctx list \<times> bool \<times> nat" where
  "init_loop heap iobuffer_size k [] = ([], True, k)"
| "init_loop heap iobuffer_size k (i # is) =
     (let (c, allset, k') = init_ctx heap iobuffer_size k i in
      if allset
      then let (cs, allset', k'') = init_loop heap iobuffer_size k' is in (c # cs, allset', k'')
      else (c # map (\<lambda>_. zero_ctx) is, False, k'))"

definition ctx_blocks :: "smb_ctx \<Rightarrow> nat list" where
  "ctx_blocks c =
     (case client_block c of None \<Rightarrow> [] | Some b \<Rightarrow> [b]) @
     (case server_block c of None \<Rightarrow> [] | Some b \<Rightarrow> [b])"

text \<open>
  The result: return value, static variables, the blocks freed and the number of \<open>malloc\<close>
  calls. \<open>strncpy\<close> keeps the first 255 characters of the host.
\<close>

definition smbgw_proxy_init ::
    "heap \<Rightarrow> gateway \<Rightarrow> string option \<Rightarrow> u16 \<Rightarrow> int \<Rightarrow> int \<Rightarrow> int \<times> gateway \<times> nat list \<times> nat" where
  "smbgw_proxy_init heap gw server_host server_port max_connections iobuffer_size =
     (case server_host of
        None \<Rightarrow> (-1, gw, [], 0)
      | Some host \<Rightarrow>
          let gw = gw\<lparr>s_server_host := take 255 host, s_server_port := server_port\<rparr> in
          if heap 0 = None then (-1, gw\<lparr>s_ctx := []\<rparr>, [], 1)
          else let (cs, allset, k) = init_loop heap iobuffer_size 1 [0..max_connections - 1] in
            if allset then (0, gw\<lparr>s_ctx := cs, s_ctx_cnt := max_connections\<rparr>, [], k)
            else (-1, gw\<lparr>s_ctx := [], s_ctx_cnt := 0\<rparr>, concat (map ctx_blocks cs) @ [0], k))"

section \<open>Starting a connection\<close>

text \<open>
  The loop of \<open>smbgw_proxy_start\<close> over the contexts from index \<open>i\<close> on. \<open>create i\<close>
  tells whether \<open>pthread_create\<close> succeeds for context \<open>i\<close>.
\<close>

datatype start_outcome = NoContext | ThreadFailed | Started "smb_ctx list"

fun started_after :: "smb_ctx \<Rightarrow> start_outcome \<Rightarrow> start_outcome" where
  "started_after c (Started cs) = Started (c # cs)"
| "started_after c NoContext = NoContext"
| "started_after c ThreadFailed = ThreadFailed"

definition take_ctx :: "int \<Rightarrow> bool \<Rightarrow> smb_ctx \<Rightarrow> smb_ctx" where
  "take_ctx client pass c =
     c\<lparr>thread := True, client_ring := reset_ring (client_ring c),
       server_ring := reset_ring (server_ring c), client_socket := client, passthrough := pass\<rparr>"

fun start_loop :: "(nat \<Rightarrow> bool) \<Rightarrow> int \<Rightarrow> bool \<Rightarrow> nat \<Rightarrow> smb_ctx list \<Rightarrow> start_outcome" where
  "start_loop create client pass i [] = NoContext"
| "start_loop create client pass i (c # cs) =
     (if client_socket c = INVALID_SOCKET
      then (if \<not> thread c \<and> \<not> create i then ThreadFailed
            else Started (take_ctx client pass c # cs))
      else started_after c (start_loop create client pass (i + 1) cs))"

text \<open>The result: return value, static variables and the sockets closed.\<close>

definition smbgw_proxy_start ::
    "(nat \<Rightarrow> bool) \<Rightarrow> gateway \<Rightarrow> int \<Rightarrow> bool \<Rightarrow> int \<times> gateway \<times> int list" where
  "smbgw_proxy_start create gw client pass =
     (if client = INVALID_SOCKET then (-1, gw, [])
      else case start_loop create client pass 0 (take (nat (s_ctx_cnt gw)) (s_ctx gw)) of
        ThreadFailed \<Rightarrow> (-1, gw, [])
      | NoContext \<Rightarrow> (-1, gw, [client])
      | Started cs \<Rightarrow> (0, gw\<lparr>s_ctx := cs @ drop (nat (s_ctx_cnt gw)) (s_ctx gw)\<rparr>, []))"

definition smbgw_proxy_exit :: int where
  "smbgw_proxy_exit = 0"

section \<open>Initialisation\<close>

text \<open>A context that waits for its first client.\<close>

definition ready_ctx :: "int \<Rightarrow> smb_ctx \<Rightarrow> bool" where
  "ready_ctx i c \<longleftrightarrow> client_socket c = INVALID_SOCKET \<and> server_socket c = INVALID_SOCKET \<and>
     ordinal c = i \<and> \<not> thread c \<and> \<not> passthrough c \<and>
     fresh_ring (client_ring c) \<and> fresh_ring (server_ring c)"

definition ring_sizes :: "smb_ctx \<Rightarrow> int \<times> int" where
  "ring_sizes c = (r_size (client_ring c), r_size (server_ring c))"

definition successes :: "heap \<Rightarrow> nat \<Rightarrow> nat \<Rightarrow> nat list" where
  "successes heap k k' = filter (\<lambda>b. heap b \<noteq> None) [k..<k']"

lemma successes_split:
  "k \<le> m \<Longrightarrow> m \<le> n \<Longrightarrow> successes heap k n = successes heap k m @ successes heap m n"
  using upt_add_eq_append [of k m "n - m"] by (simp add: successes_def)

lemma fresh_block:
  "8 \<le> n \<Longrightarrow> n \<le> int_max \<Longrightarrow>
   fresh_ring (reset_ring (zero_ring\<lparr>r_size := n, r_data := block_bytes g n\<rparr>))"
  by (simp add: fresh_ring_def ring_ok_def reset_ring_def zero_ring_def block_bytes_def)

lemma init_ctx_post:
  assumes "init_ctx heap n k i = (c, ok, k')"
  shows "ctx_blocks c = successes heap k k' \<and> k \<le> k' \<and> (ok \<longrightarrow> k' = k + 2) \<and>
    (ok \<longleftrightarrow> heap k \<noteq> None \<and> heap (k + 1) \<noteq> None) \<and>
    (ok \<longrightarrow> 8 \<le> n \<longrightarrow> n \<le> int_max \<longrightarrow> ready_ctx i c) \<and> (ok \<longrightarrow> ring_sizes c = (n, n))"
proof (cases "heap k")
  case None
  with assms show ?thesis by (auto simp: init_ctx_def ctx_blocks_def successes_def zero_ctx_def)
next
  case k: (Some g)
  show ?thesis
  proof (cases "heap (k + 1)")
    case None
    with assms k show ?thesis by (auto simp: init_ctx_def ctx_blocks_def successes_def zero_ctx_def)
  next
    case (Some g')
    have "8 \<le> n \<longrightarrow> n \<le> int_max \<longrightarrow> ready_ctx i c"
      using assms k Some fresh_block [of n g] fresh_block [of n g']
      by (auto simp: init_ctx_def ready_ctx_def zero_ctx_def)
    with assms k Some show ?thesis
      by (auto simp: init_ctx_def ctx_blocks_def successes_def zero_ctx_def ring_sizes_def reset_ring_def)
  qed
qed

lemma blocks_zero [simp]: "concat (map (ctx_blocks \<circ> (\<lambda>_. zero_ctx)) is) = []"
  by (induction "is") (simp_all add: ctx_blocks_def zero_ctx_def)

lemma init_loop_post:
  "init_loop heap n k is = (cs, ok, k') \<Longrightarrow>
     concat (map ctx_blocks cs) = successes heap k k' \<and> k \<le> k' \<and>
     length cs = length is \<and> (ok \<longrightarrow> k' = k + 2 * length is) \<and>
     ((\<forall>b \<in> {k..<k + 2 * length is}. heap b \<noteq> None) \<longrightarrow> ok) \<and>
     (ok \<longrightarrow> 8 \<le> n \<longrightarrow> n \<le> int_max \<longrightarrow> list_all2 ready_ctx is cs) \<and>
     (ok \<longrightarrow> (\<forall>c \<in> set cs. ring_sizes c = (n, n)))"
proof (induction "is" arbitrary: k cs)
  case Nil
  then show ?case by (simp add: successes_def)
next
  case (Cons i "is")
  obtain c a k1 where c: "init_ctx heap n k i = (c, a, k1)" by (cases "init_ctx heap n k i")
  note p = init_ctx_post [OF c]
  show ?case
  proof (cases a)
    case False
    with Cons.prems c have "cs = c # map (\<lambda>_. zero_ctx) is" "\<not> ok" "k' = k1" by auto
    with p False show ?thesis by auto
  next
    case True
    obtain cs1 a1 k2 where l: "init_loop heap n k1 is = (cs1, a1, k2)"
      by (cases "init_loop heap n k1 is")
    with Cons.prems c True have "cs = c # cs1" "ok = a1" "k' = k2" by auto
    with p True Cons.IH [OF l [folded this(2,3)]] successes_split [of k k1 k2 heap]
    show ?thesis by auto
  qed
qed

lemma smbgw_proxy_init_cases:
  assumes "smbgw_proxy_init heap gw (Some host) port max_conn n = (ret, gw', freed, k)" "heap 0 \<noteq> None"
  obtains cs ok where "init_loop heap n 1 [0..max_conn - 1] = (cs, ok, k)"
    "ret = (if ok then 0 else -1)"
    "gw' = gw\<lparr>s_server_host := take 255 host, s_server_port := port, s_ctx := (if ok then cs else []),
              s_ctx_cnt := (if ok then max_conn else 0)\<rparr>"
    "freed = (if ok then [] else concat (map ctx_blocks cs) @ [0])"
  using assms
  by (cases "init_loop heap n 1 [0..max_conn - 1]")
    (auto simp: smbgw_proxy_init_def Let_def split: if_splits)

text \<open>
  When every allocation succeeds the gateway is ready: one context per connection, numbered
  from 0, without sockets and thread, and with two empty rings of the asked size.
\<close>

theorem proxy_init_ready:
  assumes "\<And>b. b \<le> 2 * nat max_conn \<Longrightarrow> heap b \<noteq> None" "0 \<le> max_conn" "8 \<le> n" "n \<le> int_max"
  shows "\<exists>gw' k. smbgw_proxy_init heap gw (Some host) port max_conn n = (0, gw', [], k) \<and>
    s_ctx_cnt gw' = max_conn \<and> int (length (s_ctx gw')) = max_conn \<and>
    list_all2 ready_ctx [0..max_conn - 1] (s_ctx gw') \<and> (\<forall>c \<in> set (s_ctx gw'). ring_sizes c = (n, n))"
proof -
  obtain ret gw' freed k where r: "smbgw_proxy_init heap gw (Some host) port max_conn n = (ret, gw', freed, k)"
    by (metis prod_cases4)
  from assms(1) have "heap 0 \<noteq> None" by simp
  from r this show ?thesis
  proof (rule smbgw_proxy_init_cases)
    fix cs ok assume l: "init_loop heap n 1 [0..max_conn - 1] = (cs, ok, k)"
      and "ret = (if ok then 0 else -1)"
        "gw' = gw\<lparr>s_server_host := take 255 host, s_server_port := port, s_ctx := (if ok then cs else []),
              s_ctx_cnt := (if ok then max_conn else 0)\<rparr>"
        "freed = (if ok then [] else concat (map ctx_blocks cs) @ [0])"
    moreover have ok
      using init_loop_post [OF l] assms(1,2) by auto
    ultimately show ?thesis
      using init_loop_post [OF l] assms(2-4) r by simp
  qed
qed

theorem proxy_init_ready_witness:
  "\<exists>gw' k. smbgw_proxy_init (\<lambda>_. Some (\<lambda>_. 0xCD)) \<lparr>s_server_host = [], s_server_port = 0, s_ctx = [], s_ctx_cnt = 0\<rparr>
     (Some ''nas'') 445 4 0x20008 = (0, gw', [], k) \<and> length (s_ctx gw') = 4"
  using proxy_init_ready [of 4 "\<lambda>_. Some (\<lambda>_. 0xCD)" "0x20008"
      "\<lparr>s_server_host = [], s_server_port = 0, s_ctx = [], s_ctx_cnt = 0\<rparr>" "''nas''" 445]
  by (auto simp: int_max_def)

text \<open>
  C25: Initialisation neither leaks nor frees twice: whichever allocations fail, the blocks that
  \<open>malloc\<close> returned are exactly the blocks freed and the blocks the contexts (and \<open>s_ctx\<close>
  itself, block 0) keep, each once; after a failure nothing is kept.
\<close>

theorem proxy_init_accounts:
  assumes "smbgw_proxy_init heap gw (Some host) port max_conn n = (ret, gw', freed, k)"
  shows "mset (freed @ (if ret = 0 then 0 # concat (map ctx_blocks (s_ctx gw')) else [])) =
      mset (successes heap 0 k) \<and>
    (ret \<noteq> 0 \<longrightarrow> ret = -1 \<and> s_ctx gw' = [])"
proof (cases "heap 0 = None")
  case True
  then have "successes heap 0 (Suc 0) = []" by (simp add: successes_def)
  with True assms show ?thesis by (auto simp: smbgw_proxy_init_def)
next
  case False
  from assms False show ?thesis
  proof (rule smbgw_proxy_init_cases)
    fix cs ok assume l: "init_loop heap n 1 [0..max_conn - 1] = (cs, ok, k)"
      and r: "ret = (if ok then 0 else -1)"
        "gw' = gw\<lparr>s_server_host := take 255 host, s_server_port := port, s_ctx := (if ok then cs else []),
              s_ctx_cnt := (if ok then max_conn else 0)\<rparr>"
        "freed = (if ok then [] else concat (map ctx_blocks cs) @ [0])"
    have "successes heap 0 1 = [0]" using False by (simp add: successes_def)
    then have "successes heap 0 k = 0 # successes heap 1 k"
      using init_loop_post [OF l] successes_split [of 0 1 k heap] by simp
    with init_loop_post [OF l] r show ?thesis by auto
  qed
qed

theorem proxy_init_accounts_witness:
  "\<exists>gw'. smbgw_proxy_init (\<lambda>k. if k = 4 then None else Some (\<lambda>_. 0))
     \<lparr>s_server_host = [], s_server_port = 0, s_ctx = [], s_ctx_cnt = 0\<rparr> (Some ''nas'') 445 4 16
     = (-1, gw', [1, 2, 3, 0], 5) \<and> mset [1, 2, 3, 0] = mset [0..<4]"
proof -
  let ?h = "\<lambda>k. if k = (4 :: nat) then None else Some (\<lambda>_ :: nat. 0 :: u8)"
  have r: "smbgw_proxy_init ?h
     \<lparr>s_server_host = [], s_server_port = 0, s_ctx = [], s_ctx_cnt = 0\<rparr> (Some ''nas'') 445 4 16
     = (-1, \<lparr>s_server_host = ''nas'', s_server_port = 445, s_ctx = [], s_ctx_cnt = 0\<rparr>, [1, 2, 3, 0], 5)"
    by code_simp
  have "successes ?h 0 5 = [0..<4]" by code_simp
  with proxy_init_accounts [OF r] r show ?thesis by (simp only:) simp
qed

section \<open>Starting\<close>

lemma start_loop_free:
  "client_socket c = INVALID_SOCKET \<Longrightarrow> \<forall>c' \<in> set cs. client_socket c' \<noteq> INVALID_SOCKET \<Longrightarrow>
   start_loop create client pass i (cs @ c # cs') =
     (if thread c \<or> create (i + length cs) then Started (cs @ take_ctx client pass c # cs')
      else ThreadFailed)"
  by (induction cs arbitrary: i) simp_all

lemma start_loop_full:
  "\<forall>c \<in> set cs. client_socket c \<noteq> INVALID_SOCKET \<Longrightarrow> start_loop create client pass i cs = NoContext"
  by (induction cs arbitrary: i) simp_all

text \<open>
  C24: A client goes to the first context without one, whose rings are emptied, and no other context
  changes. When none is free the client's socket is closed and the start fails. When the thread of
  the chosen context cannot be created the start fails too, and the client's socket stays open.
\<close>

theorem proxy_start_first_free:
  assumes "client \<noteq> INVALID_SOCKET" "int (length (s_ctx gw)) = s_ctx_cnt gw"
  shows "((\<forall>c \<in> set (s_ctx gw). client_socket c \<noteq> INVALID_SOCKET) \<and>
       smbgw_proxy_start create gw client pass = (-1, gw, [client])) \<or>
    (\<exists>i < length (s_ctx gw). client_socket (s_ctx gw ! i) = INVALID_SOCKET \<and>
       (\<forall>j < i. client_socket (s_ctx gw ! j) \<noteq> INVALID_SOCKET) \<and>
       smbgw_proxy_start create gw client pass =
         (if thread (s_ctx gw ! i) \<or> create i
          then (0, gw\<lparr>s_ctx := (s_ctx gw)[i := take_ctx client pass (s_ctx gw ! i)]\<rparr>, [])
          else (-1, gw, [])))"
proof (cases "\<forall>c \<in> set (s_ctx gw). client_socket c \<noteq> INVALID_SOCKET")
  case True
  with assms start_loop_full [OF True] show ?thesis
    by (simp add: smbgw_proxy_start_def flip: assms(2))
next
  case False
  then obtain cs c cs' where "s_ctx gw = cs @ c # cs'" "client_socket c = INVALID_SOCKET"
      "\<forall>c' \<in> set cs. client_socket c' \<noteq> INVALID_SOCKET"
    using split_list_first_prop [of "s_ctx gw" "\<lambda>c. client_socket c = INVALID_SOCKET"] by auto
  then show ?thesis
    using assms(1) start_loop_free [of c cs create client pass 0 cs']
    by (intro disjI2 exI [of _ "length cs"])
      (simp add: smbgw_proxy_start_def nth_append flip: assms(2))
qed

theorem proxy_start_first_free_witness:
  "smbgw_proxy_start (\<lambda>_. False) \<lparr>s_server_host = [], s_server_port = 0,
       s_ctx = [zero_ctx\<lparr>client_socket := -1\<rparr>], s_ctx_cnt = 1\<rparr> 7 False =
     (-1, \<lparr>s_server_host = [], s_server_port = 0, s_ctx = [zero_ctx\<lparr>client_socket := -1\<rparr>], s_ctx_cnt = 1\<rparr>, [])"
  using proxy_start_first_free [of 7 "\<lparr>s_server_host = [], s_server_port = 0,
       s_ctx = [zero_ctx\<lparr>client_socket := -1\<rparr>], s_ctx_cnt = 1\<rparr>" "\<lambda>_. False" False]
  by (simp add: zero_ctx_def)

end
