(* ===== verification/Pool.thy ===== *)
theory Pool
  imports Proxy
begin

text \<open>
  The gateway at run time: the accept loop of \<open>main\<close> with \<open>smbgw_proxy_start\<close>, and one
  \<open>smbgw_thread\<close> per context, as a step relation that interleaves them. A step is one access to
  what the threads share, a context's \<open>client_socket\<close> and \<open>passthrough\<close> or the process's
  socket descriptors, with two exceptions, where a step joins several.

  The scan of \<open>smbgw_proxy_start\<close> for a context without a client is one step, though the code
  reads one context after the other. Between two reads only threads act, and they only take clients
  out of contexts: the context the code settles on has no client then and keeps none, but it need
  not be the first of that kind at any one moment, and the code can find the pool full when a context
  it has passed has just come free.

  A turn of the relay loop is one step, because the relaying thread is the only one that touches its
  rings and its server socket. The step reads \<open>passthrough\<close> once, where the code reads it in each
  half of the turn: it leaves out the runs in which main stores the mode between the two halves of
  one turn.
\<close>

section \<open>State\<close>

text \<open>
  Where a context's thread is: not created; in the wait loop; past \<open>closesocket\<close> after a failed
  connect; in the relay loop, with both directions' packet states; caught in a turn of it that never
  ends; and after the relay loop: before and after the close of the client, and before and after the
  close of the server.
\<close>

datatype thread_pc =
    NoThread
  | Waiting
  | ConnectFailed
  | Relaying packet_state int packet_state int
  | Stuck
  | ClosingClient
  | ClientClosed
  | ClosingServer
  | ServerClosed

record slot =
  ctx :: smb_ctx
  pc :: thread_pc

text \<open>
  Where \<open>main\<close> is: in \<open>tcp_accept_connection\<close>; looking for a context; past the resets of
  the rings, before it stores the socket; past that, before it stores the mode; out of the loop.
\<close>

datatype main_pc =
    Accepting
  | Starting int
  | Publishing nat int
  | SettingMode nat
  | Exited

record pool =
  slots :: "slot list"
  main_at :: main_pc
  open_socks :: "int set"

definition upd_slot :: "nat \<Rightarrow> slot \<Rightarrow> pool \<Rightarrow> pool" where
  "upd_slot i sl p = p\<lparr>slots := (slots p)[i := sl]\<rparr>"

text \<open>\<open>closesocket\<close> behind its test for \<open>INVALID_SOCKET\<close>.\<close>

definition close_valid :: "int \<Rightarrow> int set \<Rightarrow> int set" where
  "close_valid s socks = (if s \<noteq> INVALID_SOCKET then socks - {s} else socks)"

definition first_free :: "pool \<Rightarrow> nat \<Rightarrow> bool" where
  "first_free p i \<longleftrightarrow> i < length (slots p) \<and>
     client_socket (ctx (slots p ! i)) = INVALID_SOCKET \<and>
     (\<forall>j < i. client_socket (ctx (slots p ! j)) \<noteq> INVALID_SOCKET)"

text \<open>The relay's connection state, read from a context and the locals of its thread.\<close>

definition slot_conn :: "smb_ctx \<Rightarrow> packet_state \<Rightarrow> int \<Rightarrow> packet_state \<Rightarrow> int \<Rightarrow> relay_conn" where
  "slot_conn c cs cr ss sr =
     \<lparr>c_client = \<lparr>d_ring = client_ring c, d_state = cs, d_remain = cr\<rparr>,
      c_server = \<lparr>d_ring = server_ring c, d_state = ss, d_remain = sr\<rparr>\<rparr>"

definition slot_after :: "smb_ctx \<Rightarrow> int \<Rightarrow> relay_conn \<Rightarrow> slot" where
  "slot_after c r conn =
     \<lparr>ctx = c\<lparr>client_ring := d_ring (c_client conn), server_ring := d_ring (c_server conn)\<rparr>,
      pc = (if r = 0 then Relaying (d_state (c_client conn)) (d_remain (c_client conn))
                                   (d_state (c_server conn)) (d_remain (c_server conn))
            else ClosingClient)\<rparr>"

definition claim_ctx :: "slot \<Rightarrow> slot" where
  "claim_ctx sl =
     \<lparr>ctx = (ctx sl)\<lparr>thread := True, client_ring := reset_ring (client_ring (ctx sl)),
                    server_ring := reset_ring (server_ring (ctx sl))\<rparr>,
      pc = (if pc sl = NoThread then Waiting else pc sl)\<rparr>"

section \<open>Steps\<close>

datatype pool_event =
    Accept int | AcceptNothing | AcceptFails | Claim bool | NoFreeContext | Publish | SetMode
  | Connect nat int | ConnectFails nat | ClearFailed nat | Relay nat io_event io_event
  | Hang nat io_event io_event
  | CloseClient nat | ClearClient nat | CloseServer nat | ClearServer nat

text \<open>
  \<open>mode\<close> is the \<open>passthrough\<close> variable of \<open>main\<close>. A new socket gets a descriptor that is
  not open; \<open>Claim False\<close> is a failing \<open>pthread_create\<close>. A turn of the relay loop that
  reads outside its buffer has no step: what follows it is undefined, and nothing is said of it. In
  a turn that never ends the context keeps its sockets; its rings are those from before the turn,
  which no other thread looks at.
\<close>

inductive pool_step :: "bool \<Rightarrow> pool \<Rightarrow> pool_event \<Rightarrow> pool \<Rightarrow> bool" for mode :: bool where
  accept: "main_at p = Accepting \<Longrightarrow> 0 \<le> s \<Longrightarrow> s \<notin> open_socks p \<Longrightarrow>
    pool_step mode p (Accept s) (p\<lparr>main_at := Starting s, open_socks := insert s (open_socks p)\<rparr>)"
| accept_nothing: "main_at p = Accepting \<Longrightarrow> pool_step mode p AcceptNothing p"
| accept_fails: "main_at p = Accepting \<Longrightarrow> pool_step mode p AcceptFails (p\<lparr>main_at := Exited\<rparr>)"
| claim: "main_at p = Starting s \<Longrightarrow> first_free p i \<Longrightarrow>
    pool_step mode p (Claim True) (upd_slot i (claim_ctx (slots p ! i)) (p\<lparr>main_at := Publishing i s\<rparr>))"
| create_fails: "main_at p = Starting s \<Longrightarrow> first_free p i \<Longrightarrow> \<not> thread (ctx (slots p ! i)) \<Longrightarrow>
    pool_step mode p (Claim False) (p\<lparr>main_at := Exited\<rparr>)"
| no_free_context: "main_at p = Starting s \<Longrightarrow>
    \<forall>sl \<in> set (slots p). client_socket (ctx sl) \<noteq> INVALID_SOCKET \<Longrightarrow>
    pool_step mode p NoFreeContext (p\<lparr>main_at := Exited, open_socks := open_socks p - {s}\<rparr>)"
| publish: "main_at p = Publishing i s \<Longrightarrow> sl = slots p ! i \<Longrightarrow>
    pool_step mode p Publish
      (upd_slot i (sl\<lparr>ctx := (ctx sl)\<lparr>client_socket := s\<rparr>\<rparr>) (p\<lparr>main_at := SettingMode i\<rparr>))"
| set_mode: "main_at p = SettingMode i \<Longrightarrow> sl = slots p ! i \<Longrightarrow>
    pool_step mode p SetMode
      (upd_slot i (sl\<lparr>ctx := (ctx sl)\<lparr>passthrough := mode\<rparr>\<rparr>) (p\<lparr>main_at := Accepting\<rparr>))"
| connect: "i < length (slots p) \<Longrightarrow> sl = slots p ! i \<Longrightarrow> pc sl = Waiting \<Longrightarrow>
    client_socket (ctx sl) \<noteq> INVALID_SOCKET \<Longrightarrow> 0 \<le> s \<Longrightarrow> s \<notin> open_socks p \<Longrightarrow>
    pool_step mode p (Connect i s)
      (upd_slot i \<lparr>ctx = (ctx sl)\<lparr>server_socket := s\<rparr>, pc = Relaying psHeader 4 psHeader 4\<rparr>
        (p\<lparr>open_socks := insert s (open_socks p)\<rparr>))"
| connect_fails: "i < length (slots p) \<Longrightarrow> sl = slots p ! i \<Longrightarrow> pc sl = Waiting \<Longrightarrow>
    client_socket (ctx sl) \<noteq> INVALID_SOCKET \<Longrightarrow>
    pool_step mode p (ConnectFails i)
      (upd_slot i (sl\<lparr>pc := ConnectFailed\<rparr>)
        (p\<lparr>open_socks := open_socks p - {client_socket (ctx sl)}\<rparr>))"
| clear_failed: "i < length (slots p) \<Longrightarrow> sl = slots p ! i \<Longrightarrow> pc sl = ConnectFailed \<Longrightarrow>
    pool_step mode p (ClearFailed i)
      (upd_slot i \<lparr>ctx = (ctx sl)\<lparr>client_socket := INVALID_SOCKET\<rparr>, pc = Waiting\<rparr> p)"
| relay: "i < length (slots p) \<Longrightarrow> sl = slots p ! i \<Longrightarrow> pc sl = Relaying cs cr ss sr \<Longrightarrow>
    relay_loop (ordinal (ctx sl)) (passthrough (ctx sl)) [(ec, es)]
      (slot_conn (ctx sl) cs cr ss sr) no_io = Returns (r, conn, io) \<Longrightarrow>
    pool_step mode p (Relay i ec es) (upd_slot i (slot_after (ctx sl) r conn) p)"
| hang: "i < length (slots p) \<Longrightarrow> sl = slots p ! i \<Longrightarrow> pc sl = Relaying cs cr ss sr \<Longrightarrow>
    relay_loop (ordinal (ctx sl)) (passthrough (ctx sl)) [(ec, es)]
      (slot_conn (ctx sl) cs cr ss sr) no_io = Diverges \<Longrightarrow>
    pool_step mode p (Hang i ec es) (upd_slot i (sl\<lparr>pc := Stuck\<rparr>) p)"
| close_client: "i < length (slots p) \<Longrightarrow> sl = slots p ! i \<Longrightarrow> pc sl = ClosingClient \<Longrightarrow>
    pool_step mode p (CloseClient i)
      (upd_slot i (sl\<lparr>pc := ClientClosed\<rparr>)
        (p\<lparr>open_socks := close_valid (client_socket (ctx sl)) (open_socks p)\<rparr>))"
| clear_client: "i < length (slots p) \<Longrightarrow> sl = slots p ! i \<Longrightarrow> pc sl = ClientClosed \<Longrightarrow>
    pool_step mode p (ClearClient i)
      (upd_slot i \<lparr>ctx = (ctx sl)\<lparr>client_socket := INVALID_SOCKET\<rparr>, pc = ClosingServer\<rparr> p)"
| close_server: "i < length (slots p) \<Longrightarrow> sl = slots p ! i \<Longrightarrow> pc sl = ClosingServer \<Longrightarrow>
    pool_step mode p (CloseServer i)
      (upd_slot i (sl\<lparr>pc := ServerClosed\<rparr>)
        (p\<lparr>open_socks := close_valid (server_socket (ctx sl)) (open_socks p)\<rparr>))"
| clear_server: "i < length (slots p) \<Longrightarrow> sl = slots p ! i \<Longrightarrow> pc sl = ServerClosed \<Longrightarrow>
    pool_step mode p (ClearServer i)
      (upd_slot i \<lparr>ctx = (ctx sl)\<lparr>server_socket := INVALID_SOCKET\<rparr>, pc = Waiting\<rparr> p)"

text \<open>The pool after \<open>smbgw_proxy_init\<close>, and what it can become.\<close>

definition start_pool :: "smb_ctx list \<Rightarrow> pool" where
  "start_pool cs = \<lparr>slots = map (\<lambda>c. \<lparr>ctx = c, pc = NoThread\<rparr>) cs, main_at = Accepting, open_socks = {}\<rparr>"

inductive reach :: "bool \<Rightarrow> smb_ctx list \<Rightarrow> pool \<Rightarrow> bool" for mode :: bool and cs :: "smb_ctx list" where
  start: "reach mode cs (start_pool cs)"
| more: "reach mode cs p \<Longrightarrow> pool_step mode p e p' \<Longrightarrow> reach mode cs p'"

inductive_simps step_accept: "pool_step mode p (Accept s) p'"
inductive_simps step_claim: "pool_step mode p (Claim created) p'"
inductive_simps step_publish: "pool_step mode p Publish p'"
inductive_simps step_set_mode: "pool_step mode p SetMode p'"
inductive_simps step_connect: "pool_step mode p (Connect i s) p'"
inductive_simps step_full: "pool_step mode p NoFreeContext p'"
inductive_simps step_relay: "pool_step mode p (Relay i ec es) p'"
inductive_simps step_hang: "pool_step mode p (Hang i ec es) p'"

lemmas step_simps = step_accept step_claim step_publish step_set_mode step_connect

lemma step_slots: "pool_step mode p e p' \<Longrightarrow> length (slots p') = length (slots p)"
  by (induction rule: pool_step.induct) (simp_all add: upd_slot_def)

section \<open>Sockets\<close>

text \<open>The open sockets a slot and \<open>main\<close> are responsible for.\<close>

definition held :: "slot \<Rightarrow> int multiset" where
  "held sl =
     (if client_socket (ctx sl) = INVALID_SOCKET \<or> pc sl = ConnectFailed \<or> pc sl = ClientClosed
      then {#} else {#client_socket (ctx sl)#}) +
     (case pc sl of
        Relaying _ _ _ _ \<Rightarrow> {#server_socket (ctx sl)#}
      | Stuck \<Rightarrow> {#server_socket (ctx sl)#}
      | ClosingClient \<Rightarrow> {#server_socket (ctx sl)#}
      | ClientClosed \<Rightarrow> {#server_socket (ctx sl)#}
      | ClosingServer \<Rightarrow> {#server_socket (ctx sl)#}
      | _ \<Rightarrow> {#})"

fun held_by_main :: "main_pc \<Rightarrow> int multiset" where
  "held_by_main (Starting s) = {#s#}"
| "held_by_main (Publishing i s) = {#s#}"
| "held_by_main _ = {#}"

definition owned :: "pool \<Rightarrow> int multiset" where
  "owned p = held_by_main (main_at p) + sum_list (map held (slots p))"

definition socks_ok :: "int multiset \<Rightarrow> int set \<Rightarrow> bool \<Rightarrow> bool" where
  "socks_ok own socks leaky \<longleftrightarrow> (\<forall>s. count own s \<le> 1) \<and> set_mset own \<subseteq> socks \<and>
     INVALID_SOCKET \<notin> socks \<and> (\<not> leaky \<longrightarrow> socks = set_mset own)"

lemma socks_ok_open:
  assumes "socks_ok own socks leaky" "s \<notin> socks" "s \<noteq> INVALID_SOCKET"
  shows "socks_ok (add_mset s own) (insert s socks) leaky"
proof -
  have "count own s = 0"
    using assms by (auto simp: socks_ok_def count_eq_zero_iff)
  with assms show ?thesis by (auto simp: socks_ok_def)
qed

lemma socks_ok_close:
  assumes ok: "socks_ok (add_mset s own) socks leaky"
  shows "socks_ok own (socks - {s}) leaky"
proof -
  have c: "count own t \<le> (if s = t then 0 else 1)" for t
    using ok unfolding socks_ok_def by (auto dest!: spec [of _ t])
  have "s \<notin># own" using c [of s] by (simp add: not_in_iff)
  moreover have "count own t \<le> 1" for t
    using c [of t] by (cases "s = t") auto
  ultimately show ?thesis
    using ok unfolding socks_ok_def by auto
qed

lemma socks_ok_leak:
  assumes "socks_ok (own + lost) socks leaky"
  shows "socks_ok own socks True"
proof -
  have "count own s \<le> 1" for s
    using assms unfolding socks_ok_def by (metis add_leD1 count_union)
  with assms show ?thesis unfolding socks_ok_def by auto
qed

text \<open>What updating a slot does to the owned sockets.\<close>

definition others :: "nat \<Rightarrow> slot list \<Rightarrow> int multiset" where
  "others i sls = sum_list (map held (take i sls)) + sum_list (map held (drop (Suc i) sls))"

lemma owned_split:
  assumes "i < length (slots p)"
  shows "owned p = held_by_main (main_at p) + (held (slots p ! i) + others i (slots p))"
proof -
  have "sum_list (map held (slots p)) =
      sum_list (map held (take i (slots p) @ slots p ! i # drop (Suc i) (slots p)))"
    using id_take_nth_drop [OF assms] by simp
  then show ?thesis by (simp add: owned_def others_def)
qed

lemma owned_upd_slot:
  "i < length (slots p) \<Longrightarrow>
   owned (upd_slot i sl p) = held_by_main (main_at p) + (held sl + others i (slots p))"
  by (simp add: owned_def upd_slot_def others_def upd_conv_take_nth_drop)

lemma owned_upd_pool:
  "owned (p\<lparr>open_socks := x\<rparr>) = owned p"
  "owned (p\<lparr>main_at := m\<rparr>) = held_by_main m + sum_list (map held (slots p))"
  by (simp_all add: owned_def)

lemma upd_slot_simps [simp]:
  "main_at (upd_slot i sl p) = main_at p" "open_socks (upd_slot i sl p) = open_socks p"
  "slots (upd_slot i sl p) = (slots p)[i := sl]"
  by (simp_all add: upd_slot_def)

section \<open>The invariant\<close>

text \<open>The buffers keep their size, whatever happens to their contents.\<close>

definition sized :: "ioring \<Rightarrow> bool" where
  "sized ring \<longleftrightarrow> 8 \<le> r_size ring \<and> r_size ring \<le> int_max \<and> int (length (r_data ring)) = r_size ring"

lemma reset_fresh: "sized ring \<Longrightarrow> fresh_ring (reset_ring ring)"
  by (auto simp: sized_def fresh_ring_def ring_ok_def reset_ring_def)

lemma fresh_sized: "fresh_ring ring \<Longrightarrow> sized ring"
  by (auto simp: sized_def fresh_ring_def ring_ok_def)

lemma dir_ok_sized: "dir_ok d \<Longrightarrow> sized (d_ring d)"
  by (auto simp: sized_def dir_ok_def ring_ok_def)

definition both_fresh :: "smb_ctx \<Rightarrow> bool" where
  "both_fresh c \<longleftrightarrow> fresh_ring (client_ring c) \<and> fresh_ring (server_ring c)"

text \<open>A slot's thread and sockets agree, and the relay's invariant holds where it relays.\<close>

definition slot_ok :: "slot \<Rightarrow> bool" where
  "slot_ok sl \<longleftrightarrow> (let c = ctx sl; idle = client_socket c = INVALID_SOCKET in
     sized (client_ring c) \<and> sized (server_ring c) \<and>
     (case pc sl of
        NoThread \<Rightarrow> \<not> thread c \<and> idle \<and> server_socket c = INVALID_SOCKET
      | Waiting \<Rightarrow> thread c \<and> server_socket c = INVALID_SOCKET \<and> (idle \<or> both_fresh c)
      | ConnectFailed \<Rightarrow> thread c \<and> \<not> idle \<and> server_socket c = INVALID_SOCKET
      | Relaying cs cr ss sr \<Rightarrow> thread c \<and> \<not> idle \<and> server_socket c \<noteq> INVALID_SOCKET \<and>
          conn_ok (slot_conn c cs cr ss sr)
      | Stuck \<Rightarrow> thread c \<and> \<not> idle \<and> server_socket c \<noteq> INVALID_SOCKET
      | ClosingClient \<Rightarrow> thread c \<and> \<not> idle \<and> server_socket c \<noteq> INVALID_SOCKET
      | ClientClosed \<Rightarrow> thread c \<and> \<not> idle \<and> server_socket c \<noteq> INVALID_SOCKET
      | ClosingServer \<Rightarrow> thread c \<and> server_socket c \<noteq> INVALID_SOCKET \<and> (idle \<or> both_fresh c)
      | ServerClosed \<Rightarrow> thread c \<and> server_socket c \<noteq> INVALID_SOCKET \<and> (idle \<or> both_fresh c)))"

fun main_ok :: "slot list \<Rightarrow> main_pc \<Rightarrow> bool" where
  "main_ok sls (Starting s) = (s \<noteq> INVALID_SOCKET)"
| "main_ok sls (Publishing i s) = (s \<noteq> INVALID_SOCKET \<and> i < length sls \<and>
     client_socket (ctx (sls ! i)) = INVALID_SOCKET \<and> pc (sls ! i) \<noteq> NoThread \<and> both_fresh (ctx (sls ! i)))"
| "main_ok sls (SettingMode i) = (i < length sls)"
| "main_ok sls _ = True"

definition pool_ok :: "pool \<Rightarrow> bool" where
  "pool_ok p \<longleftrightarrow> (\<forall>sl \<in> set (slots p). slot_ok sl) \<and> main_ok (slots p) (main_at p) \<and>
     socks_ok (owned p) (open_socks p) (main_at p = Exited)"

lemma consumed_sized: "sized ring \<Longrightarrow> sized (ring_consumed n ring)"
  by (simp add: sized_def ring_consumed_def reset_ring_def Let_def)

lemma relay_half_sized:
  assumes "dir_ok d" "relay_half c ord pass ev d = Returns h"
  shows "sized (d_ring (h_dir h))"
proof (rule relay_half_cases [OF assms(1), of c ord pass ev])
  fix n assume "relay_half c ord pass ev d =
      Returns \<lparr>h_result = n, h_dir = d, h_recv = [], h_sent = [], h_log = []\<rparr>"
  with assms(2) have "h_dir h = d" by auto
  with dir_ok_sized [OF assms(1)] show ?thesis by simp
next
  fix ring got assume ok: "received_ok d ring got"
    and r: "relay_half c ord pass ev d = relay_received c ord pass ev d ring (r_head (d_ring d)) got"
  have ring: "ring_ok ring" "r_tail ring = 0" "sized ring"
    using ok by (auto simp: received_ok_def sized_def ring_ok_def)
  have body: "sized (d_ring (h_dir h))"
    if "relay_body c ord pass ev d ring got = Returns h" "0 < r_count ring"
    using that(1) ring(3) consumed_sized [OF ring(3)]
    unfolding relay_body_eq [OF ring(1,2) that(2)]
    by (auto simp: start_dir_def split: outcome.splits if_splits prod.splits)
  show ?thesis
    using assms(2) r ring(3) body received_ok_ring(2) [OF ok] ok
    by (auto simp: relay_received_def relay_header_def received_ok_def split: if_splits option.splits)
qed

lemma relay_turn:
  assumes "conn_ok c" "relay_loop ord pass [(ec, es)] c io = Returns (r, c', io')"
  shows "sized (d_ring (c_client c'))" "sized (d_ring (c_server c'))" "r = 0 \<Longrightarrow> conn_ok c'"
proof -
  obtain h where h: "client_half ord pass ec (c_client c) = Returns h"
    using assms(2) by (auto split: outcome.splits)
  have ch: "sized (d_ring (h_dir h))" "half_post (c_client c) h"
    and cs: "sized (d_ring (c_server c))"
    using assms(1) h relay_half_sized relay_half_post dir_ok_sized
    by (auto simp: client_half_def conn_ok_def)
  have sh: "sized (d_ring (h_dir h')) \<and> half_post (c_server c) h'"
    if "server_half ord pass es (c_server c) = Returns h'" for h'
    using assms(1) that relay_half_sized relay_half_post
    by (auto simp: server_half_def conn_ok_def)
  show "sized (d_ring (c_client c'))" "sized (d_ring (c_server c'))"
    using assms(2) h ch cs sh by (auto simp: Let_def split: outcome.splits if_splits)
  show "conn_ok c'" if "r = 0"
    using that assms(2) h ch cs sh
    by (auto simp: Let_def conn_ok_def half_post_def split: outcome.splits if_splits)
qed

section \<open>Every step keeps the invariant\<close>

lemma main_ok_upd:
  assumes "main_ok sls m" "i < length sls"
    and "client_socket (ctx (sls ! i)) = INVALID_SOCKET \<Longrightarrow> both_fresh (ctx (sls ! i)) \<Longrightarrow>
      client_socket (ctx sl) = INVALID_SOCKET \<and> pc sl \<noteq> NoThread \<and> both_fresh (ctx sl)"
  shows "main_ok (sls[i := sl]) m"
  using assms by (cases m) (auto simp: nth_list_update)

lemma pool_ok_upd:
  assumes ok: "pool_ok p" and i: "i < length (slots p)" and sl: "slot_ok sl"
    and p': "slots p' = (slots p)[i := sl]" "main_ok ((slots p)[i := sl]) (main_at p')"
    and socks: "socks_ok (held_by_main (main_at p') + (held sl + others i (slots p))) (open_socks p')
      (main_at p' = Exited)"
  shows "pool_ok p'"
proof -
  have "owned p' = held_by_main (main_at p') + (held sl + others i (slots p))"
    using owned_upd_slot [OF i, of sl] p'(1) by (simp add: owned_def)
  moreover have "\<forall>x \<in> set ((slots p)[i := sl]). slot_ok x"
    using ok sl set_update_subset_insert [of "slots p" i sl] by (auto simp: pool_ok_def)
  ultimately show ?thesis
    using p' socks by (simp add: pool_ok_def)
qed

lemma pool_ok_slot:
  assumes "pool_ok p" "i < length (slots p)"
  shows "slot_ok (slots p ! i)"
    "socks_ok (held_by_main (main_at p) + (held (slots p ! i) + others i (slots p))) (open_socks p)
      (main_at p = Exited)"
    "main_ok (slots p) (main_at p)"
  using assms owned_split [OF assms(2)] by (auto simp: pool_ok_def)

text \<open>Main's steps that change no slot.\<close>

lemma pool_ok_main:
  assumes "pool_ok p" "slots p' = slots p" "main_ok (slots p) (main_at p')"
    and "socks_ok (held_by_main (main_at p') + sum_list (map held (slots p))) (open_socks p')
      (main_at p' = Exited)"
  shows "pool_ok p'"
  using assms by (simp add: pool_ok_def owned_def)

lemma claim_ok:
  assumes "slot_ok sl" "client_socket (ctx sl) = INVALID_SOCKET"
  shows "slot_ok (claim_ctx sl)" "held (claim_ctx sl) = held sl"
    "client_socket (ctx (claim_ctx sl)) = INVALID_SOCKET" "pc (claim_ctx sl) \<noteq> NoThread"
    "both_fresh (ctx (claim_ctx sl))"
  using assms reset_fresh
  by (auto simp: claim_ctx_def slot_ok_def held_def both_fresh_def Let_def fresh_sized
      split: thread_pc.splits)

lemma set_mode_ok:
  "slot_ok (sl\<lparr>ctx := (ctx sl)\<lparr>passthrough := b\<rparr>\<rparr>) = slot_ok sl"
  "held (sl\<lparr>ctx := (ctx sl)\<lparr>passthrough := b\<rparr>\<rparr>) = held sl"
  by (simp_all add: slot_ok_def held_def both_fresh_def slot_conn_def Let_def split: thread_pc.split)

lemma pool_step_main_ok:
  assumes ok: "pool_ok p" and step: "pool_step mode p e p'"
    and e: "e \<in> {AcceptNothing, AcceptFails, NoFreeContext, Publish, SetMode} \<or>
      (\<exists>s. e = Accept s) \<or> (\<exists>b. e = Claim b)"
  shows "pool_ok p'"
  using step
proof cases
  case (accept s)
  then show ?thesis
    using ok socks_ok_open [of "owned p" "open_socks p" False s]
    by (intro pool_ok_main [OF ok]) (auto simp: pool_ok_def owned_def)
next
  case accept_nothing
  with ok show ?thesis by simp
next
  case accept_fails
  then show ?thesis
    using ok socks_ok_leak [of _ "{#}"]
    by (intro pool_ok_main [OF ok]) (auto simp: pool_ok_def owned_def)
next
  case (claim s i)
  then have i: "i < length (slots p)" "client_socket (ctx (slots p ! i)) = INVALID_SOCKET"
    by (simp_all add: first_free_def)
  note s = pool_ok_slot [OF ok i(1)] and c = claim_ok [OF pool_ok_slot(1) [OF ok i(1)] i(2)]
  show ?thesis
    by (rule pool_ok_upd [OF ok i(1) c(1)]) (use claim i s c in auto)
next
  case (create_fails s i)
  then show ?thesis
    using ok socks_ok_leak [of "sum_list (map held (slots p))" "{#s#}"]
    by (intro pool_ok_main [OF ok]) (auto simp: pool_ok_def owned_def)
next
  case (no_free_context s)
  then show ?thesis
    using ok socks_ok_close [of s] socks_ok_leak [of _ "{#}"]
    by (intro pool_ok_main [OF ok]) (auto simp: pool_ok_def owned_def)
next
  case (publish i s sl)
  then have i: "i < length (slots p)" using ok by (simp add: pool_ok_def)
  note s = pool_ok_slot [OF ok i]
  show ?thesis
    by (rule pool_ok_upd [OF ok i, where sl = "sl\<lparr>ctx := (ctx sl)\<lparr>client_socket := s\<rparr>\<rparr>"])
      (use publish i s in \<open>auto simp: slot_ok_def Let_def held_def both_fresh_def split: thread_pc.splits\<close>)
next
  case (set_mode i sl)
  then have i: "i < length (slots p)" using ok by (simp add: pool_ok_def)
  show ?thesis
    by (rule pool_ok_upd [OF ok i, where sl = "sl\<lparr>ctx := (ctx sl)\<lparr>passthrough := mode\<rparr>\<rparr>"])
      (use set_mode i pool_ok_slot [OF ok i] in \<open>simp_all add: set_mode_ok\<close>)
qed (use e in auto)

text \<open>A thread's step changes its own slot and closes or opens sockets.\<close>

lemma pool_ok_thread:
  assumes ok: "pool_ok p" and i: "i < length (slots p)" and sl: "slot_ok sl"
    and main: "client_socket (ctx (slots p ! i)) = INVALID_SOCKET \<Longrightarrow> both_fresh (ctx (slots p ! i)) \<Longrightarrow>
      client_socket (ctx sl) = INVALID_SOCKET \<and> pc sl \<noteq> NoThread \<and> both_fresh (ctx sl)"
    and socks: "socks_ok (held_by_main (main_at p) + (held sl + others i (slots p))) os (main_at p = Exited)"
  shows "pool_ok (upd_slot i sl (p\<lparr>open_socks := os\<rparr>))"
proof (rule pool_ok_upd [OF ok i sl])
  show "main_ok ((slots p)[i := sl]) (main_at (upd_slot i sl (p\<lparr>open_socks := os\<rparr>)))"
    using main_ok_upd [OF pool_ok_slot(3) [OF ok i] i main] by simp
qed (use socks in simp_all)

lemmas pool_ok_thread_same = pool_ok_thread [where p = p and os = "open_socks p" for p, simplified]

lemma pool_step_connect_ok:
  assumes ok: "pool_ok p" and step: "pool_step mode p e p'"
    and e: "\<exists>i s. e \<in> {Connect i s, ConnectFails i, ClearFailed i}"
  shows "pool_ok p'"
  using step
proof cases
  case (connect i sl s)
  note s = pool_ok_slot [OF ok connect(3)]
  have "socks_ok (add_mset s (held_by_main (main_at p) + (held sl + others i (slots p))))
      (insert s (open_socks p)) (main_at p = Exited)"
    using connect s by (intro socks_ok_open) auto
  moreover have "slot_ok \<lparr>ctx = (ctx sl)\<lparr>server_socket := s\<rparr>, pc = Relaying psHeader 4 psHeader 4\<rparr>"
    using connect s start_conn_ok [of "client_ring (ctx sl)" "server_ring (ctx sl)"]
    by (auto simp: slot_ok_def Let_def slot_conn_def start_conn_def start_dir_def both_fresh_def)
  ultimately show ?thesis
    using connect s(3) unfolding connect(2)
    by (intro pool_ok_thread [OF ok]) (auto simp: held_def add_mset_commute)
next
  case (connect_fails i sl)
  note s = pool_ok_slot [OF ok connect_fails(3)]
  have "socks_ok (held_by_main (main_at p) + others i (slots p))
      (open_socks p - {client_socket (ctx sl)}) (main_at p = Exited)"
    using connect_fails s(2) by (intro socks_ok_close) (simp add: held_def)
  then show ?thesis
    using connect_fails s(1) unfolding connect_fails(2)
    by (intro pool_ok_thread [OF ok]) (auto simp: held_def slot_ok_def Let_def)
next
  case (clear_failed i sl)
  with pool_ok_slot [OF ok clear_failed(3)] show ?thesis unfolding clear_failed(2)
    by (intro pool_ok_thread_same [OF ok]) (auto simp: held_def slot_ok_def Let_def)
qed (use e in auto)

lemma pool_step_turn_ok:
  assumes ok: "pool_ok p" and step: "pool_step mode p e p'"
    and e: "\<exists>i ec es. e \<in> {Relay i ec es, Hang i ec es}"
  shows "pool_ok p'"
  using step
proof cases
  case (relay i sl cs cr ss sr ec es r conn io)
  note s = pool_ok_slot [OF ok relay(3)]
  have c: "conn_ok (slot_conn (ctx sl) cs cr ss sr)" "client_socket (ctx sl) \<noteq> INVALID_SOCKET"
      "server_socket (ctx sl) \<noteq> INVALID_SOCKET" "thread (ctx sl)"
    using s(1) relay by (auto simp: slot_ok_def Let_def)
  note t = relay_turn [OF c(1) relay(6)]
  have "r = 0 \<Longrightarrow> conn_ok (slot_conn (ctx (slot_after (ctx sl) r conn)) (d_state (c_client conn))
      (d_remain (c_client conn)) (d_state (c_server conn)) (d_remain (c_server conn)))"
    using t(3) by (simp add: slot_conn_def slot_after_def conn_ok_def dir_ok_def)
  then have "slot_ok (slot_after (ctx sl) r conn)" "held (slot_after (ctx sl) r conn) = held sl"
    using c t(1,2) relay by (simp_all add: slot_ok_def slot_after_def Let_def held_def)
  then show ?thesis
    using relay(1-5) s(2) c(2) unfolding relay(2) by (intro pool_ok_thread_same [OF ok]) auto
next
  case (hang i sl cs cr ss sr ec es)
  note s = pool_ok_slot [OF ok hang(3)]
  have "client_socket (ctx sl) \<noteq> INVALID_SOCKET" "slot_ok (sl\<lparr>pc := Stuck\<rparr>)" "held (sl\<lparr>pc := Stuck\<rparr>) = held sl"
    using hang(4,5) s(1) by (auto simp: slot_ok_def Let_def held_def)
  then show ?thesis
    using hang(3,4) s(2) unfolding hang(2) by (intro pool_ok_thread_same [OF ok]) auto
qed (use e in auto)

lemma pool_step_close_ok:
  assumes ok: "pool_ok p" and step: "pool_step mode p e p'"
    and e: "\<exists>i. e \<in> {CloseClient i, ClearClient i, CloseServer i, ClearServer i}"
  shows "pool_ok p'"
  using step
proof cases
  case (close_client i sl)
  note s = pool_ok_slot [OF ok close_client(3)]
  have c: "client_socket (ctx sl) \<noteq> INVALID_SOCKET"
    using close_client s(1) by (auto simp: slot_ok_def Let_def)
  then have "socks_ok (held_by_main (main_at p) + (held (sl\<lparr>pc := ClientClosed\<rparr>) + others i (slots p)))
      (open_socks p - {client_socket (ctx sl)}) (main_at p = Exited)"
    using close_client s(2) by (intro socks_ok_close) (simp add: held_def add_mset_commute split: if_splits)
  with c show ?thesis
    using close_client s(1) unfolding close_client(2)
    by (intro pool_ok_thread [OF ok]) (auto simp: slot_ok_def Let_def close_valid_def)
next
  case (clear_client i sl)
  with pool_ok_slot [OF ok clear_client(3)] show ?thesis unfolding clear_client(2)
    by (intro pool_ok_thread_same [OF ok]) (auto simp: held_def slot_ok_def Let_def)
next
  case (close_server i sl)
  note s = pool_ok_slot [OF ok close_server(3)]
  have "socks_ok (held_by_main (main_at p) + (held (sl\<lparr>pc := ServerClosed\<rparr>) + others i (slots p)))
      (open_socks p - {server_socket (ctx sl)}) (main_at p = Exited)"
    using close_server s(2) by (intro socks_ok_close) (simp add: held_def add_mset_commute split: if_splits)
  then show ?thesis
    using close_server s(1) unfolding close_server(2)
    by (intro pool_ok_thread [OF ok]) (auto simp: slot_ok_def Let_def close_valid_def both_fresh_def)
next
  case (clear_server i sl)
  with pool_ok_slot [OF ok clear_server(3)] show ?thesis unfolding clear_server(2)
    by (intro pool_ok_thread_same [OF ok]) (auto simp: held_def slot_ok_def Let_def both_fresh_def)
qed (use e in auto)

interpretation pool_turns: kept_invariant "pool_step mode" pool_ok for mode
proof unfold_locales
  fix p e p' assume "pool_ok p" "pool_step mode p e p'"
  then show "pool_ok p'"
    using pool_step_main_ok [of p mode e p'] pool_step_connect_ok [of p mode e p']
      pool_step_turn_ok [of p mode e p'] pool_step_close_ok [of p mode e p']
    by (cases e) auto
qed

lemma reach_runs: "reach mode cs p \<Longrightarrow> \<exists>es. runs (pool_step mode) (start_pool cs) es p"
proof (induction rule: reach.induct)
  case start
  show ?case by (auto intro: exI [of _ "[]"])
next
  case (more p e p')
  then show ?case by (metis runs_Cons runs_Nil runs_append)
qed

lemma start_pool_ok:
  assumes "list_all2 ready_ctx [0..int (length cs) - 1] cs"
  shows "pool_ok (start_pool cs)"
proof -
  have "ready_ctx i c \<Longrightarrow> slot_ok \<lparr>ctx = c, pc = NoThread\<rparr> \<and> held \<lparr>ctx = c, pc = NoThread\<rparr> = {#}" for i c
    by (simp add: ready_ctx_def slot_ok_def held_def fresh_sized Let_def)
  then have all: "\<forall>c \<in> set cs. slot_ok \<lparr>ctx = c, pc = NoThread\<rparr> \<and> held \<lparr>ctx = c, pc = NoThread\<rparr> = {#}"
    using assms by (metis in_set_conv_nth list_all2_conv_all_nth)
  then have "sum_list (map (held \<circ> (\<lambda>c. \<lparr>ctx = c, pc = NoThread\<rparr>)) cs) = {#}"
    by (induction cs) auto
  with all show ?thesis
    by (auto simp: pool_ok_def start_pool_def owned_def socks_ok_def)
qed

lemma reach_ok:
  assumes "reach mode cs p" "list_all2 ready_ctx [0..int (length cs) - 1] cs"
  shows "pool_ok p"
  using reach_runs [OF assms(1)] start_pool_ok [OF assms(2)] pool_turns.runs_keep by blast

section \<open>Hung threads\<close>

text \<open>A step leaves a stuck context alone, but for the mode that may still be to be stored.\<close>

definition stuck :: "pool \<Rightarrow> nat \<Rightarrow> bool" where
  "stuck p i \<longleftrightarrow> i < length (slots p) \<and> pc (slots p ! i) = Stuck"

definition sockets_of :: "slot \<Rightarrow> int \<times> int" where
  "sockets_of sl = (client_socket (ctx sl), server_socket (ctx sl))"

lemma stuck_holds:
  assumes "pool_ok p" "stuck p i"
  shows "client_socket (ctx (slots p ! i)) \<noteq> INVALID_SOCKET"
    "{client_socket (ctx (slots p ! i)), server_socket (ctx (slots p ! i))} \<subseteq> open_socks p"
proof -
  have i: "i < length (slots p)" "pc (slots p ! i) = Stuck" using assms(2) by (simp_all add: stuck_def)
  note s = pool_ok_slot [OF assms(1) i(1)]
  show "client_socket (ctx (slots p ! i)) \<noteq> INVALID_SOCKET" using s(1) i(2) by (simp add: slot_ok_def Let_def)
  then show "{client_socket (ctx (slots p ! i)), server_socket (ctx (slots p ! i))} \<subseteq> open_socks p"
    using s(2) i(2) by (auto simp: held_def socks_ok_def)
qed

lemma stuck_step:
  assumes "pool_ok p" "stuck p i" "pool_step mode p e p'"
  shows "stuck p' i \<and> sockets_of (slots p' ! i) = sockets_of (slots p ! i)"
proof -
  have i: "i < length (slots p)" "pc (slots p ! i) = Stuck" using assms(2) by (simp_all add: stuck_def)
  have main: "main_ok (slots p) (main_at p)" using assms(1) by (simp add: pool_ok_def)
  note client = stuck_holds(1) [OF assms(1,2)]
  have "\<forall>s. main_at p \<noteq> Publishing i s" using main client by auto
  with assms(3) show ?thesis
    by cases (use i client main in \<open>auto simp: stuck_def sockets_of_def first_free_def nth_list_update\<close>)
qed

lemma stuck_run:
  "runs (pool_step mode) p es p' \<Longrightarrow> pool_ok p \<Longrightarrow> stuck p i \<Longrightarrow>
   stuck p' i \<and> sockets_of (slots p' ! i) = sockets_of (slots p ! i)"
proof (induction rule: runs.induct)
  case (runs_more p e p1 es p')
  with stuck_step [OF runs_more.prems runs_more.hyps(1)] pool_turns.step_keeps show ?case by metis
qed simp

fun accepts :: "pool_event \<Rightarrow> bool" where
  "accepts (Accept s) = True"
| "accepts _ = False"

lemma all_stuck_step:
  assumes "pool_ok p" "\<forall>sl \<in> set (slots p). pc sl = Stuck" "main_at p \<in> {Accepting, Exited} \<union> range Starting"
    and "pool_step mode p e p'"
  shows "slots p' = slots p \<and> main_at p' \<in> {Accepting, Exited} \<union> range Starting \<and>
    (main_at p' = Accepting \<longrightarrow> main_at p = Accepting \<and> \<not> accepts e) \<and> (accepts e \<longrightarrow> main_at p = Accepting)"
proof -
  have busy: "client_socket (ctx sl) \<noteq> INVALID_SOCKET" if "sl \<in> set (slots p)" for sl
    using assms(1,2) that by (force simp: pool_ok_def slot_ok_def Let_def)
  have "\<not> first_free p i" "i < length (slots p) \<Longrightarrow> pc (slots p ! i) = Stuck" for i
    using assms(2) busy by (auto simp: first_free_def)
  from assms(4) this show ?thesis
    by cases (use assms(3) in auto)
qed

lemma all_stuck_run:
  assumes "runs (pool_step mode) p es p'" "pool_ok p" "\<forall>sl \<in> set (slots p). pc sl = Stuck"
    "main_at p \<in> {Accepting, Exited} \<union> range Starting"
  shows "slots p' = slots p \<and> length (filter accepts es) \<le> (if main_at p = Accepting then 1 else 0)"
  using assms
proof (induction rule: runs.induct)
  case (runs_more p e p1 es p')
  note s = all_stuck_step [OF runs_more.prems runs_more.hyps(1)]
  with runs_more.IH runs_more.prems pool_turns.step_keeps [OF runs_more.prems(1) runs_more.hyps(1)]
  have "slots p' = slots p \<and> length (filter accepts es) \<le> (if main_at p1 = Accepting then 1 else 0)"
    by simp
  with s show ?case by (auto split: if_splits)
qed simp

section \<open>What the gateway guarantees\<close>

text \<open>The contexts as \<open>smbgw_proxy_init\<close> leaves them.\<close>

definition gateway_ready :: "smb_ctx list \<Rightarrow> bool" where
  "gateway_ready cs \<longleftrightarrow> list_all2 ready_ctx [0..int (length cs) - 1] cs"

lemmas reach_pool_ok = reach_ok [folded gateway_ready_def]

section \<open>The sizes of the rings\<close>

text \<open>No step changes the size of a ring.\<close>

lemma relay_half_r_size:
  assumes ok: "dir_ok d" and ret: "relay_half c ord pass ev d = Returns h"
  shows "r_size (d_ring (h_dir h)) = r_size (d_ring d)"
proof (rule relay_half_cases [OF ok, of c ord pass ev])
  fix n assume "relay_half c ord pass ev d =
      Returns \<lparr>h_result = n, h_dir = d, h_recv = [], h_sent = [], h_log = []\<rparr>"
  with ret show ?thesis by auto
next
  fix ring got assume rcv: "received_ok d ring got"
    and r: "relay_half c ord pass ev d = relay_received c ord pass ev d ring (r_head (d_ring d)) got"
  have ring: "ring_ok ring" "r_tail ring = 0" "r_size ring = r_size (d_ring d)"
    using rcv by (auto simp: received_ok_def)
  have used: "r_size (ring_consumed n ring) = r_size ring" for n
    by (simp add: ring_consumed_def reset_ring_def Let_def)
  have body: "r_size (d_ring (h_dir h)) = r_size ring"
    if "relay_body c ord pass ev d ring got = Returns h" "0 < r_count ring"
    using that(1) used unfolding relay_body_eq [OF ring(1,2) that(2)]
    by (auto simp: start_dir_def split: outcome.splits if_splits prod.splits)
  show ?thesis
    using ret r ring(3) body received_ok_ring(2) [OF rcv] rcv
    by (auto simp: relay_received_def relay_header_def received_ok_def split: if_splits option.splits)
qed

lemma slot_after_sizes:
  assumes "conn_ok (slot_conn c cs cr ss sr)"
    and "relay_loop ord pass [(ec, es)] (slot_conn c cs cr ss sr) io = Returns (r, conn, io')"
  shows "ring_sizes (ctx (slot_after c r conn)) = ring_sizes c"
proof -
  let ?c = "slot_conn c cs cr ss sr"
  obtain h where h: "client_half ord pass ec (c_client ?c) = Returns h"
    using assms(2) by (auto split: outcome.splits)
  have "r_size (d_ring (h_dir h)) = r_size (client_ring c)"
    using assms(1) h relay_half_r_size [of "c_client ?c"] by (auto simp: client_half_def conn_ok_def slot_conn_def)
  moreover have "r_size (d_ring (h_dir h')) = r_size (server_ring c)"
    if "server_half ord pass es (c_server ?c) = Returns h'" for h'
    using assms(1) that relay_half_r_size [of "c_server ?c"] by (auto simp: server_half_def conn_ok_def slot_conn_def)
  ultimately show ?thesis
    using assms(2) h
    by (auto simp: Let_def ring_sizes_def slot_after_def slot_conn_def split: outcome.splits if_splits)
qed

lemma map_same_update: "i < length xs \<Longrightarrow> f y = f (xs ! i) \<Longrightarrow> map f (xs[i := y]) = map f xs"
  by (metis list_update_id list_update_same_conv map_update nth_map length_map)

lemma step_sizes:
  assumes ok: "pool_ok p" and step: "pool_step mode p e p'"
  shows "map (ring_sizes \<circ> ctx) (slots p') = map (ring_sizes \<circ> ctx) (slots p)"
  using step
proof cases
  case (relay i sl cs cr ss sr ec es r conn io)
  have "conn_ok (slot_conn (ctx sl) cs cr ss sr)"
    using pool_ok_slot(1) [OF ok relay(3)] relay(4,5) by (simp add: slot_ok_def Let_def)
  from slot_after_sizes [OF this relay(6)] relay(2-4) show ?thesis by (simp add: map_same_update)
next
  case (publish i s sl)
  then show ?thesis using ok by (simp add: map_same_update ring_sizes_def pool_ok_def)
next
  case (set_mode i sl)
  then show ?thesis using ok by (simp add: map_same_update ring_sizes_def pool_ok_def)
qed (auto simp: map_same_update ring_sizes_def first_free_def claim_ctx_def reset_ring_def)

interpretation pool_sizes: kept_invariant "pool_step mode" "\<lambda>p. pool_ok p \<and> map (ring_sizes \<circ> ctx) (slots p) = ns" for mode ns
  by unfold_locales (auto simp: step_sizes pool_turns.step_keeps)

lemma reach_sizes:
  assumes "reach mode cs p" "gateway_ready cs"
  shows "map (ring_sizes \<circ> ctx) (slots p) = map ring_sizes cs"
proof -
  obtain es where "runs (pool_step mode) (start_pool cs) es p" using reach_runs [OF assms(1)] by blast
  moreover have "pool_ok (start_pool cs)" using reach_pool_ok [OF reach.start assms(2)] .
  moreover have "map (ring_sizes \<circ> ctx) (slots (start_pool cs)) = map ring_sizes cs" by (simp add: start_pool_def)
  ultimately show ?thesis using pool_sizes.runs_keep by blast
qed

definition sample_ctx :: smb_ctx where
  "sample_ctx = zero_ctx\<lparr>client_socket := INVALID_SOCKET, server_socket := INVALID_SOCKET,
     client_ring := empty_ring (replicate 8 0), server_ring := empty_ring (replicate 8 0)\<rparr>"

lemma sample_ready: "gateway_ready [sample_ctx]"
  using empty_ring_fresh [of "replicate 8 0"]
  by (simp add: gateway_ready_def ready_ctx_def sample_ctx_def zero_ctx_def int_max_def)

text \<open>The run that gives the first client to the first context.\<close>

definition claimed_pool :: "int \<Rightarrow> pool" where
  "claimed_pool s = \<lparr>slots = [\<lparr>ctx = sample_ctx\<lparr>thread := True\<rparr>, pc = Waiting\<rparr>],
     main_at = Publishing 0 s, open_socks = {s}\<rparr>"

definition published_pool :: "int \<Rightarrow> pool" where
  "published_pool s = \<lparr>slots = [\<lparr>ctx = sample_ctx\<lparr>thread := True, client_socket := s\<rparr>, pc = Waiting\<rparr>],
     main_at = SettingMode 0, open_socks = {s}\<rparr>"

definition relaying_pool :: "int \<Rightarrow> int \<Rightarrow> pool" where
  "relaying_pool s t = \<lparr>slots = [\<lparr>ctx = sample_ctx\<lparr>thread := True, client_socket := s, server_socket := t\<rparr>,
       pc = Relaying psHeader 4 psHeader 4\<rparr>],
     main_at = SettingMode 0, open_socks = {t, s}\<rparr>"

lemma reach_claimed:
  assumes "0 \<le> s"
  shows "reach mode [sample_ctx] (claimed_pool s)"
proof -
  let ?p = "start_pool [sample_ctx]" and ?q = "\<lparr>slots = slots (start_pool [sample_ctx]),
    main_at = Starting s, open_socks = {s}\<rparr>"
  have "pool_step mode ?p (Accept s) ?q"
    using assms by (auto simp: step_accept start_pool_def)
  then have "reach mode [sample_ctx] ?q" by (rule reach.more [OF reach.start])
  moreover have "pool_step mode ?q (Claim True) (claimed_pool s)"
    by (auto simp: step_claim first_free_def start_pool_def claimed_pool_def upd_slot_def claim_ctx_def
      sample_ctx_def zero_ctx_def reset_ring_def empty_ring_def)
  ultimately show ?thesis by (rule reach.more)
qed

lemma reach_published:
  assumes "0 \<le> s"
  shows "reach mode [sample_ctx] (published_pool s)"
proof -
  have "pool_step mode (claimed_pool s) Publish (published_pool s)"
    using pool_step.publish [of "claimed_pool s" 0 s "slots (claimed_pool s) ! 0" mode]
    by (simp add: claimed_pool_def published_pool_def upd_slot_def)
  with reach_claimed [OF assms] show ?thesis by (rule reach.more)
qed

lemma reach_relaying:
  assumes "0 \<le> s" "0 \<le> t" "s \<noteq> t"
  shows "reach mode [sample_ctx] (relaying_pool s t)"
proof -
  have "pool_step mode (published_pool s) (Connect 0 t) (relaying_pool s t)"
    using pool_step.connect [of 0 "published_pool s" "slots (published_pool s) ! 0" t mode] assms
    by (simp add: published_pool_def relaying_pool_def upd_slot_def)
  with reach_published [OF assms(1)] show ?thesis by (rule reach.more)
qed

text \<open>
  C8: Sockets are accounted for: in every reachable state of the gateway, whatever the interleaving
  of the accept loop and the threads, no socket has two owners, no socket that a thread or the
  accept loop still uses has been closed, and until the accept loop ends every open socket has an
  owner, so none leaks.
\<close>

theorem pool_sockets_accounted:
  assumes "reach mode cs p" "gateway_ready cs"
  shows "(\<forall>s. count (owned p) s \<le> 1) \<and> set_mset (owned p) \<subseteq> open_socks p \<and>
    (main_at p = Exited \<or> open_socks p = set_mset (owned p))"
  using reach_pool_ok [OF assms] by (auto simp: pool_ok_def socks_ok_def)

theorem pool_sockets_accounted_witness:
  "open_socks (relaying_pool 5 6) = set_mset (owned (relaying_pool 5 6)) \<and> owned (relaying_pool 5 6) = {#5, 6#}"
  using pool_sockets_accounted [OF reach_relaying [of 5 6 False] sample_ready]
  by (simp add: relaying_pool_def owned_def held_def)

lemma in_sum_list: "x \<in> set xs \<Longrightarrow> (x :: 'a multiset) \<subseteq># sum_list xs"
  by (induction xs) (auto intro: subset_mset.add_increasing subset_mset.add_increasing2)

lemma held_others:
  assumes "i < length sls" "j < length sls" "i \<noteq> j"
  shows "held (sls ! j) \<subseteq># others i sls"
proof (cases "j < i")
  case True
  then have "sls ! j \<in> set (take i sls)"
    using assms by (metis in_set_conv_nth length_take min_less_iff_conj nth_take)
  then have "held (sls ! j) \<subseteq># sum_list (map held (take i sls))" by (intro in_sum_list) simp
  then show ?thesis by (simp add: others_def subset_mset.add_increasing2)
next
  case False
  then have "j - Suc i < length (drop (Suc i) sls)" "drop (Suc i) sls ! (j - Suc i) = sls ! j"
    using assms by auto
  then have "sls ! j \<in> set (drop (Suc i) sls)" by (metis nth_mem)
  then have "held (sls ! j) \<subseteq># sum_list (map held (drop (Suc i) sls))" by (intro in_sum_list) simp
  then show ?thesis by (simp add: others_def subset_mset.add_increasing)
qed

fun relaying :: "thread_pc \<Rightarrow> bool" where
  "relaying (Relaying cs cr ss sr) = True"
| "relaying _ = False"

lemma relaying_held:
  "slot_ok sl \<Longrightarrow> relaying (pc sl) \<Longrightarrow> held sl = {#client_socket (ctx sl), server_socket (ctx sl)#}"
  by (cases "pc sl") (simp_all add: slot_ok_def held_def Let_def)

text \<open>
  C19: Connections are isolated: two contexts that relay at the same time use four different, open
  sockets, so no byte of one client can reach another's server connection and none of them can
  have its socket closed by the other.
\<close>

theorem pool_relays_isolated:
  assumes "reach mode cs p" "gateway_ready cs"
    and ij: "i < length (slots p)" "j < length (slots p)" "i \<noteq> j"
    and r: "relaying (pc (slots p ! i))" "relaying (pc (slots p ! j))"
  defines "a \<equiv> ctx (slots p ! i)" and "b \<equiv> ctx (slots p ! j)"
  shows "distinct [client_socket a, server_socket a, client_socket b, server_socket b] \<and>
    {client_socket a, server_socket a, client_socket b, server_socket b} \<subseteq> open_socks p"
proof -
  have ok: "pool_ok p" by (rule reach_pool_ok [OF assms(1,2)])
  have h: "held (slots p ! i) = {#client_socket a, server_socket a#}"
      "held (slots p ! j) = {#client_socket b, server_socket b#}"
    using relaying_held pool_ok_slot(1) [OF ok] ij r by (simp_all add: a_def b_def)
  obtain rest where "others i (slots p) = held (slots p ! j) + rest"
    using held_others [OF ij] by (metis subset_mset.le_iff_add)
  then have o: "owned p = {#client_socket a, server_socket a, client_socket b, server_socket b#} +
      (held_by_main (main_at p) + rest)"
    using owned_split [OF ij(1)] h by simp
  have "count (owned p) s \<le> 1" for s
    using ok by (simp add: pool_ok_def socks_ok_def)
  from this [of "client_socket a"] this [of "server_socket a"] this [of "client_socket b"]
    this [of "server_socket b"]
  have "distinct [client_socket a, server_socket a, client_socket b, server_socket b]"
    unfolding o by (auto split: if_splits)
  moreover have "set_mset (owned p) \<subseteq> open_socks p"
    using ok by (simp add: pool_ok_def socks_ok_def)
  ultimately show ?thesis unfolding o by simp
qed

text \<open>The same run with two contexts.\<close>

definition two_relays :: pool where
  "two_relays = \<lparr>slots = [
       \<lparr>ctx = sample_ctx\<lparr>thread := True, client_socket := 5, server_socket := 6\<rparr>,
        pc = Relaying psHeader 4 psHeader 4\<rparr>,
       \<lparr>ctx = sample_ctx\<lparr>thread := True, ordinal := 1, client_socket := 7, server_socket := 8\<rparr>,
        pc = Relaying psHeader 4 psHeader 4\<rparr>],
     main_at = SettingMode 1, open_socks = {8, 7, 6, 5}\<rparr>"

definition two_slots :: "smb_ctx \<Rightarrow> thread_pc \<Rightarrow> smb_ctx \<Rightarrow> thread_pc \<Rightarrow> main_pc \<Rightarrow> int set \<Rightarrow> pool" where
  "two_slots c0 pc0 c1 pc1 m socks = \<lparr>slots = [\<lparr>ctx = c0, pc = pc0\<rparr>, \<lparr>ctx = c1, pc = pc1\<rparr>],
     main_at = m, open_socks = socks\<rparr>"

lemma reach_two_relays: "reach False [sample_ctx, sample_ctx\<lparr>ordinal := 1\<rparr>] two_relays"
proof -
  let ?c0 = "sample_ctx\<lparr>thread := True\<rparr>" and ?c1 = "sample_ctx\<lparr>thread := True, ordinal := 1\<rparr>"
  let ?d0 = "?c0\<lparr>client_socket := 5\<rparr>" and ?d1 = "?c1\<lparr>client_socket := 7\<rparr>"
  let ?e0 = "?d0\<lparr>server_socket := 6\<rparr>" and ?idle = "sample_ctx\<lparr>ordinal := 1\<rparr>"
  let ?R = "Relaying psHeader 4 psHeader 4"
  note defs = two_slots_def first_free_def upd_slot_def claim_ctx_def sample_ctx_def zero_ctx_def
    reset_ring_def empty_ring_def less_Suc_eq_0_disj All_less_Suc
  have run: "reach False [sample_ctx, ?idle] (start_pool [sample_ctx, ?idle])" by (rule reach.start)
  have "pool_step False (start_pool [sample_ctx, ?idle]) (Accept 5)
      (two_slots sample_ctx NoThread ?idle NoThread (Starting 5) {5})"
    by (simp add: step_simps start_pool_def two_slots_def)
  note run = reach.more [OF run this]
  have "pool_step False (two_slots sample_ctx NoThread ?idle NoThread (Starting 5) {5}) (Claim True)
      (two_slots ?c0 Waiting ?idle NoThread (Publishing 0 5) {5})"
    by (auto simp: step_simps defs)
  note run = reach.more [OF run this]
  have "pool_step False (two_slots ?c0 Waiting ?idle NoThread (Publishing 0 5) {5}) Publish
      (two_slots ?d0 Waiting ?idle NoThread (SettingMode 0) {5})"
    by (simp add: step_simps defs)
  note run = reach.more [OF run this]
  have "pool_step False (two_slots ?d0 Waiting ?idle NoThread (SettingMode 0) {5}) SetMode
      (two_slots ?d0 Waiting ?idle NoThread Accepting {5})"
    by (simp add: step_simps defs)
  note run = reach.more [OF run this]
  have "pool_step False (two_slots ?d0 Waiting ?idle NoThread Accepting {5}) (Connect 0 6)
      (two_slots ?e0 ?R ?idle NoThread Accepting {6, 5})"
    by (simp add: step_simps defs)
  note run = reach.more [OF run this]
  have "pool_step False (two_slots ?e0 ?R ?idle NoThread Accepting {6, 5}) (Accept 7)
      (two_slots ?e0 ?R ?idle NoThread (Starting 7) {7, 6, 5})"
    by (simp add: step_simps defs)
  note run = reach.more [OF run this]
  have "pool_step False (two_slots ?e0 ?R ?idle NoThread (Starting 7) {7, 6, 5}) (Claim True)
      (two_slots ?e0 ?R ?c1 Waiting (Publishing 1 7) {7, 6, 5})"
    unfolding step_claim
    by (intro disjI1 conjI exI [of _ "7 :: int"] exI [of _ "1 :: nat"]) (auto simp: defs)
  note run = reach.more [OF run this]
  have "pool_step False (two_slots ?e0 ?R ?c1 Waiting (Publishing 1 7) {7, 6, 5}) Publish
      (two_slots ?e0 ?R ?d1 Waiting (SettingMode 1) {7, 6, 5})"
    by (simp add: step_simps defs)
  note run = reach.more [OF run this]
  have "pool_step False (two_slots ?e0 ?R ?d1 Waiting (SettingMode 1) {7, 6, 5}) (Connect 1 8) two_relays"
    by (simp add: step_simps defs two_relays_def)
  from reach.more [OF run this] show ?thesis .
qed

lemma two_ready: "gateway_ready [sample_ctx, sample_ctx\<lparr>ordinal := 1\<rparr>]"
  using sample_ready by (simp add: gateway_ready_def ready_ctx_def upto.simps [of 0 1] upto.simps [of 1 1])

theorem pool_relays_isolated_witness:
  "distinct [client_socket (ctx (slots two_relays ! 0)), server_socket (ctx (slots two_relays ! 0)),
     client_socket (ctx (slots two_relays ! 1)), server_socket (ctx (slots two_relays ! 1))]"
  using pool_relays_isolated [OF reach_two_relays two_ready, of 0 1]
  by (simp add: two_relays_def)

text \<open>
  The accept loop never disturbs a relaying thread: the context it has chosen for a new client
  is not relaying, has two empty rings and no client until the new socket is stored; and a thread
  that relays in passthrough mode always completes its turn.
\<close>

theorem pool_claim_undisturbed:
  assumes "reach mode cs p" "gateway_ready cs"
  shows "(\<forall>i s. main_at p = Publishing i s \<longrightarrow> i < length (slots p) \<and> \<not> relaying (pc (slots p ! i)) \<and>
      client_socket (ctx (slots p ! i)) = INVALID_SOCKET \<and>
      contents (client_ring (ctx (slots p ! i))) = [] \<and> contents (server_ring (ctx (slots p ! i))) = []) \<and>
    (\<forall>sl cs cr ss sr. sl \<in> set (slots p) \<longrightarrow> pc sl = Relaying cs cr ss sr \<longrightarrow>
      (\<exists>r conn io. relay_loop (ordinal (ctx sl)) True [(ec, es)] (slot_conn (ctx sl) cs cr ss sr) no_io
         = Returns (r, conn, io)))"
proof (intro conjI allI impI)
  have ok: "pool_ok p" by (rule reach_pool_ok [OF assms])
  fix i s assume m: "main_at p = Publishing i s"
  then have i: "i < length (slots p)" "client_socket (ctx (slots p ! i)) = INVALID_SOCKET"
      "both_fresh (ctx (slots p ! i))"
    using ok by (auto simp: pool_ok_def)
  show "i < length (slots p)" "client_socket (ctx (slots p ! i)) = INVALID_SOCKET" by (fact i)+
  show "contents (client_ring (ctx (slots p ! i))) = []" "contents (server_ring (ctx (slots p ! i))) = []"
    using i(3) by (simp_all add: both_fresh_def fresh_ring_def contents_def)
  show "\<not> relaying (pc (slots p ! i))"
    using pool_ok_slot(1) [OF ok i(1)] i(2)
    by (cases "pc (slots p ! i)") (auto simp: slot_ok_def Let_def)
next
  have ok: "pool_ok p" by (rule reach_pool_ok [OF assms])
  fix sl cs cr ss sr assume sl: "sl \<in> set (slots p)" "pc sl = Relaying cs cr ss sr"
  then have "conn_ok (slot_conn (ctx sl) cs cr ss sr)"
    using ok by (auto simp: pool_ok_def slot_ok_def Let_def dest: bspec)
  then show "\<exists>r conn io. relay_loop (ordinal (ctx sl)) True [(ec, es)] (slot_conn (ctx sl) cs cr ss sr) no_io
         = Returns (r, conn, io)"
    by (rule relay_loop_passthrough)
qed

theorem pool_claim_undisturbed_witness:
  "contents (client_ring (ctx (slots (claimed_pool 5) ! 0))) = []"
  using pool_claim_undisturbed [OF reach_claimed [of 5 False] sample_ready]
  by (simp add: claimed_pool_def)

text \<open>
  One client too many stops the gateway: when every context has a client, the only step of the
  accept loop is to close the new socket and to leave the loop, so no client is accepted any more.
\<close>

theorem pool_overload_exits:
  assumes "main_at p = Starting s" "\<forall>sl \<in> set (slots p). client_socket (ctx sl) \<noteq> INVALID_SOCKET"
    and "pool_step mode p e p'" "main_at p' \<noteq> Starting s"
  shows "e = NoFreeContext \<and> main_at p' = Exited \<and> slots p' = slots p \<and>
    open_socks p' = open_socks p - {s} \<and> (\<forall>e' p''. pool_step mode p' e' p'' \<longrightarrow> main_at p'' = Exited)"
proof -
  have no_free: "\<not> first_free p i" for i
    using assms(2) by (auto simp: first_free_def)
  from assms(3) have p': "e = NoFreeContext \<and> p' = p\<lparr>main_at := Exited, open_socks := open_socks p - {s}\<rparr>"
    by cases (use assms no_free in auto)
  then have m: "main_at p' = Exited" by simp
  have "main_at p'' = Exited" if "pool_step mode p' e' p''" for e' p''
    using that by cases (use m in auto)
  with p' show ?thesis by simp
qed

definition full_pool :: pool where
  "full_pool = (relaying_pool 5 6)\<lparr>main_at := Starting 7, open_socks := {5, 6, 7}\<rparr>"

theorem pool_overload_exits_witness:
  "pool_step False full_pool NoFreeContext (full_pool\<lparr>main_at := Exited, open_socks := {5, 6}\<rparr>) \<and>
   main_at (full_pool\<lparr>main_at := Exited, open_socks := {5, 6}\<rparr>) = Exited"
proof -
  have "main_at full_pool = Starting 7"
    and "\<forall>sl \<in> set (slots full_pool). client_socket (ctx sl) \<noteq> INVALID_SOCKET"
    by (simp_all add: full_pool_def relaying_pool_def)
  moreover have socks: "{5, 6, 7} - {7} = {5, 6 :: int}" by auto
  moreover from calculation have
    step: "pool_step False full_pool NoFreeContext (full_pool\<lparr>main_at := Exited, open_socks := {5, 6}\<rparr>)"
    unfolding step_full by (intro exI [of _ 7] conjI) (simp_all add: full_pool_def socks)
  moreover have "main_at (full_pool\<lparr>main_at := Exited, open_socks := {5, 6}\<rparr>) \<noteq> Starting 7" by simp
  ultimately show ?thesis using pool_overload_exits by blast
qed

section \<open>The end of a connection\<close>

text \<open>
  What a turn finds on a socket whose peer has gone away: \<open>select\<close> fails, or it reports the socket
  readable and \<open>recv\<close> brings no byte or an error.
\<close>

definition broken :: "io_event \<Rightarrow> bool" where
  "broken ev \<longleftrightarrow> ev_select ev < 0 \<or> 0 < ev_select ev \<and>
     (ev_recv ev = Ready [] \<or> (\<exists>e. ev_recv ev = RecvFailed e \<and> e \<notin> {EWOULDBLOCK, EAGAIN}))"

lemma half_broken:
  assumes "broken ev"
  shows "\<exists>n. n \<noteq> 0 \<and> relay_half c ord pass ev d =
    Returns \<lparr>h_result = n, h_dir = d, h_recv = [], h_sent = [], h_log = []\<rparr>"
proof -
  have "\<exists>n < 0. tcp_read (ev_select ev) (ev_recv ev) k = (n, [])" for k
    using assms by (auto simp: broken_def tcp_read_def os_recv_def clip_def)
  then obtain n where "n < 0" "tcp_read (ev_select ev) (ev_recv ev) (d_remain d - r_count (d_ring d)) = (n, [])"
    by blast
  then show ?thesis by (auto simp: relay_half_def Let_def split: prod.split)
qed

text \<open>A turn that finds the client gone, or the server after the client's half has returned.\<close>

definition last_turn :: "slot \<Rightarrow> io_event \<Rightarrow> io_event \<Rightarrow> bool" where
  "last_turn sl ec es \<longleftrightarrow> (\<exists>cs cr ss sr. pc sl = Relaying cs cr ss sr \<and>
     (broken ec \<or> broken es \<and> (\<exists>h. client_half (ordinal (ctx sl)) (passthrough (ctx sl)) ec
        \<lparr>d_ring = client_ring (ctx sl), d_state = cs, d_remain = cr\<rparr> = Returns h)))"

lemma broken_turn:
  assumes "last_turn sl ec es"
  obtains cs cr ss sr r conn io where "pc sl = Relaying cs cr ss sr" "r \<noteq> 0"
    "relay_loop (ordinal (ctx sl)) (passthrough (ctx sl)) [(ec, es)] (slot_conn (ctx sl) cs cr ss sr) no_io =
      Returns (r, conn, io)"
proof -
  let ?o = "ordinal (ctx sl)" and ?p = "passthrough (ctx sl)"
  obtain cs cr ss sr where pc: "pc sl = Relaying cs cr ss sr"
    and b: "broken ec \<or> broken es \<and> (\<exists>h. client_half ?o ?p ec
        \<lparr>d_ring = client_ring (ctx sl), d_state = cs, d_remain = cr\<rparr> = Returns h)"
    using assms by (auto simp: last_turn_def)
  let ?c = "slot_conn (ctx sl) cs cr ss sr"
  obtain h where h: "client_half ?o ?p ec (c_client ?c) = Returns h"
    using b half_broken [of ec True ?o ?p] by (auto simp: client_half_def slot_conn_def)
  have "broken ec \<Longrightarrow> h_result h \<noteq> 0"
    using half_broken [of ec True ?o ?p "c_client ?c"] h by (auto simp: client_half_def)
  moreover have "broken es \<Longrightarrow> \<exists>h'. server_half ?o ?p es (c_server ?c) = Returns h' \<and> h_result h' \<noteq> 0"
    using half_broken [of es False ?o ?p "c_server ?c"] by (auto simp: server_half_def)
  ultimately have "\<exists>r conn io. r \<noteq> 0 \<and> relay_loop ?o ?p [(ec, es)] ?c no_io = Returns (r, conn, io)"
    using b h by (cases "h_result h = 0") (auto simp: Let_def)
  with pc that show thesis by blast
qed

lemma closing_steps:
  assumes "i < length (slots p)" "pc (slots p ! i) = ClosingClient"
    and "client_socket (ctx (slots p ! i)) \<noteq> INVALID_SOCKET" "server_socket (ctx (slots p ! i)) \<noteq> INVALID_SOCKET"
  defines "c \<equiv> ctx (slots p ! i)"
  shows "runs (pool_step mode) p [CloseClient i, ClearClient i, CloseServer i, ClearServer i]
    (upd_slot i \<lparr>ctx = c\<lparr>client_socket := INVALID_SOCKET, server_socket := INVALID_SOCKET\<rparr>, pc = Waiting\<rparr>
      (p\<lparr>open_socks := open_socks p - {client_socket c, server_socket c}\<rparr>))"
proof -
  let ?sl = "slots p ! i" let ?socks = "open_socks p - {client_socket c}"
  let ?c1 = "c\<lparr>client_socket := INVALID_SOCKET\<rparr>"
  let ?p1 = "upd_slot i (?sl\<lparr>pc := ClientClosed\<rparr>) (p\<lparr>open_socks := ?socks\<rparr>)"
  let ?p2 = "upd_slot i \<lparr>ctx = ?c1, pc = ClosingServer\<rparr> ?p1"
  let ?p3 = "upd_slot i \<lparr>ctx = ?c1, pc = ServerClosed\<rparr> (?p2\<lparr>open_socks := ?socks - {server_socket c}\<rparr>)"
  have s1: "pool_step mode p (CloseClient i) ?p1"
    using pool_step.close_client [OF assms(1) refl assms(2), of mode] assms(3) by (simp add: close_valid_def c_def)
  have s2: "pool_step mode ?p1 (ClearClient i) ?p2"
    using pool_step.clear_client [of i ?p1 "slots ?p1 ! i" mode] assms(1) by (simp add: c_def)
  have s3: "pool_step mode ?p2 (CloseServer i) ?p3"
    using pool_step.close_server [of i ?p2 "slots ?p2 ! i" mode] assms(1,4) by (simp add: close_valid_def c_def)
  have s4: "pool_step mode ?p3 (ClearServer i)
      (upd_slot i \<lparr>ctx = ?c1\<lparr>server_socket := INVALID_SOCKET\<rparr>, pc = Waiting\<rparr> ?p3)"
    using pool_step.clear_server [of i ?p3 "slots ?p3 ! i" mode] assms(1) by simp
  have eq: "upd_slot i \<lparr>ctx = ?c1\<lparr>server_socket := INVALID_SOCKET\<rparr>, pc = Waiting\<rparr> ?p3 =
    upd_slot i \<lparr>ctx = c\<lparr>client_socket := INVALID_SOCKET, server_socket := INVALID_SOCKET\<rparr>, pc = Waiting\<rparr>
      (p\<lparr>open_socks := open_socks p - {client_socket c, server_socket c}\<rparr>)"
    by (simp add: upd_slot_def Diff_insert2 [symmetric] insert_commute)
  note more = runs_more [where step = "pool_step mode"]
  from more [OF s1 more [OF s2 more [OF s3 more [OF s4 runs_none]]]] show ?thesis unfolding eq .
qed

text \<open>
  C20: The end of a connection frees its context: from any reachable state, when a turn finds one of
  the peers gone, the thread can close both sockets and return to its wait in five steps of its own,
  with no other context and nothing of the accept loop changed, and the context is then free for
  the next client.
\<close>

theorem pool_context_recycled:
  assumes "reach mode cs p" "gateway_ready cs" "i < length (slots p)" "last_turn (slots p ! i) ec es"
  defines "c \<equiv> ctx (slots p ! i)"
  shows "\<exists>p'. runs (pool_step mode) p [Relay i ec es, CloseClient i, ClearClient i, CloseServer i, ClearServer i] p' \<and>
    pc (slots p' ! i) = Waiting \<and> client_socket (ctx (slots p' ! i)) = INVALID_SOCKET \<and>
    server_socket (ctx (slots p' ! i)) = INVALID_SOCKET \<and>
    open_socks p' = open_socks p - {client_socket c, server_socket c} \<and>
    (\<forall>j. j \<noteq> i \<longrightarrow> slots p' ! j = slots p ! j) \<and> main_at p' = main_at p"
proof (rule broken_turn [OF assms(4)])
  fix cs' cr ss sr r conn io
  assume pc: "pc (slots p ! i) = Relaying cs' cr ss sr" and r: "r \<noteq> 0"
    and turn: "relay_loop (ordinal (ctx (slots p ! i))) (passthrough (ctx (slots p ! i))) [(ec, es)]
      (slot_conn (ctx (slots p ! i)) cs' cr ss sr) no_io = Returns (r, conn, io)"
  let ?p1 = "upd_slot i (slot_after c r conn) p"
  have step: "pool_step mode p (Relay i ec es) ?p1"
    using pool_step.relay [OF assms(3) refl pc turn] by (simp add: c_def)
  have "slot_ok (slots p ! i)" by (rule pool_ok_slot(1) [OF reach_pool_ok [OF assms(1,2)] assms(3)])
  then have "client_socket c \<noteq> INVALID_SOCKET" "server_socket c \<noteq> INVALID_SOCKET"
    using pc by (auto simp: slot_ok_def Let_def c_def)
  then have "runs (pool_step mode) ?p1 [CloseClient i, ClearClient i, CloseServer i, ClearServer i]
    (upd_slot i \<lparr>ctx = (ctx (slots ?p1 ! i))\<lparr>client_socket := INVALID_SOCKET, server_socket := INVALID_SOCKET\<rparr>, pc = Waiting\<rparr>
      (?p1\<lparr>open_socks := open_socks ?p1 - {client_socket (ctx (slots ?p1 ! i)), server_socket (ctx (slots ?p1 ! i))}\<rparr>))"
    using assms(3) r by (intro closing_steps) (simp_all add: slot_after_def)
  from runs_more [OF step this] show ?thesis
    using assms(3) by (intro exI conjI) (assumption, simp_all add: slot_after_def)
qed

theorem pool_context_recycled_witness:
  "\<exists>p'. runs (pool_step False) (relaying_pool 5 6)
      [Relay 0 (arrives []) idle, CloseClient 0, ClearClient 0, CloseServer 0, ClearServer 0] p' \<and>
    pc (slots p' ! 0) = Waiting \<and> open_socks p' = {}"
proof -
  have "reach False [sample_ctx] (relaying_pool 5 6)" by (rule reach_relaying) simp_all
  moreover have "0 < length (slots (relaying_pool 5 6))" by (simp add: relaying_pool_def)
  moreover have "last_turn (slots (relaying_pool 5 6) ! 0) (arrives []) idle"
    by (simp add: last_turn_def relaying_pool_def broken_def arrives_def)
  ultimately obtain p' where "runs (pool_step False) (relaying_pool 5 6)
      [Relay 0 (arrives []) idle, CloseClient 0, ClearClient 0, CloseServer 0, ClearServer 0] p'"
      "pc (slots p' ! 0) = Waiting" "open_socks p' = open_socks (relaying_pool 5 6) -
        {client_socket (ctx (slots (relaying_pool 5 6) ! 0)), server_socket (ctx (slots (relaying_pool 5 6) ! 0))}"
    using pool_context_recycled [OF _ sample_ready] by blast
  then show ?thesis by (auto simp: relaying_pool_def)
qed

end
