(* ===== verification/Framing.thy ===== *)
theory Framing
  imports Gateway
begin

text \<open>
  The relay as a transformer of byte streams. The loop of \<open>smbgw_thread\<close> alternates between
  the two directions; here it is taken apart into them, each direction is related to an abstract
  splitting of a stream into messages with a four-byte length in front, and the checked relay is
  compared with the one in passthrough.
\<close>

section \<open>One direction on its own\<close>

text \<open>
  The half turns of one direction, with the bytes they read and the bytes they wrote.
\<close>

fun dir_run ::
    "bool \<Rightarrow> int \<Rightarrow> bool \<Rightarrow> io_event list \<Rightarrow> relay_dir \<Rightarrow> (int \<times> relay_dir \<times> u8 list \<times> u8 list) outcome" where
  "dir_run isclient ordinal passthrough [] d = Returns (0, d, [], [])"
| "dir_run isclient ordinal passthrough (ev # evs) d =
     (case relay_half isclient ordinal passthrough ev d of
        Faults \<Rightarrow> Faults
      | Diverges \<Rightarrow> Diverges
      | Returns h \<Rightarrow>
          if h_result h \<noteq> 0 then Returns (h_result h, h_dir h, h_recv h, h_sent h)
          else (case dir_run isclient ordinal passthrough evs (h_dir h) of
                  Faults \<Rightarrow> Faults
                | Diverges \<Rightarrow> Diverges
                | Returns (r, d', got, sent) \<Rightarrow> Returns (r, d', h_recv h @ got, h_sent h @ sent)))"

lemma dir_run_Nil_iff [simp]:
  "dir_run c ord pass [] d = Returns (r, d', got, sent) \<longleftrightarrow> r = 0 \<and> d' = d \<and> got = [] \<and> sent = []"
  by auto

lemma dir_run_Cons_0:
  "dir_run c ord pass (ev # evs) d = Returns (0, d', got, sent) \<longleftrightarrow>
   (\<exists>h got' sent'. relay_half c ord pass ev d = Returns h \<and> h_result h = 0 \<and>
      dir_run c ord pass evs (h_dir h) = Returns (0, d', got', sent') \<and>
      got = h_recv h @ got' \<and> sent = h_sent h @ sent')"
  by (auto split: outcome.splits)

declare dir_run.simps(2) [simp del]

lemma dir_run_append_0:
  "dir_run c ord pass (evs @ evs') d = Returns (0, d', got, sent) \<longleftrightarrow>
   (\<exists>d1 g1 s1 g2 s2. dir_run c ord pass evs d = Returns (0, d1, g1, s1) \<and>
      dir_run c ord pass evs' d1 = Returns (0, d', g2, s2) \<and> got = g1 @ g2 \<and> sent = s1 @ s2)"
proof (induction evs arbitrary: d got sent)
  case (Cons ev evs)
  show ?case
    by (simp add: dir_run_Cons_0 Cons.IH ex_simps [symmetric] append_assoc del: ex_simps) blast
qed simp

lemma dir_run_append:
  "dir_run c ord pass (evs @ evs') d =
     (case dir_run c ord pass evs d of
        Returns (r, d1, g, s) \<Rightarrow>
          if r \<noteq> 0 then Returns (r, d1, g, s)
          else map_outcome (\<lambda>(r, d', g', s'). (r, d', g @ g', s @ s')) (dir_run c ord pass evs' d1)
      | x \<Rightarrow> x)"
proof (induction evs arbitrary: d)
  case Nil
  show ?case by (cases "dir_run c ord pass evs' d") auto
next
  case (Cons ev evs)
  show ?case
  proof (cases "relay_half c ord pass ev d")
    case (Returns h)
    show ?thesis
    proof (cases "dir_run c ord pass evs (h_dir h)")
      case (Returns x)
      obtain r d1 g s where "x = (r, d1, g, s)" by (cases x)
      with Returns \<open>relay_half c ord pass ev d = Returns h\<close> show ?thesis
        by (cases "dir_run c ord pass evs' d1") (auto simp: dir_run.simps(2) Cons.IH)
    qed (use Returns in \<open>simp_all add: dir_run.simps(2) Cons.IH\<close>)
  qed (simp_all add: dir_run.simps(2))
qed

text \<open>The interleaved loop runs on exactly when both directions do, and they do not interfere.\<close>

lemma relay_loop_dirs:
  "relay_loop ord pass evs c io = Returns (0, c', io') \<longleftrightarrow>
   (\<exists>g s g' s'. dir_run True ord pass (map fst evs) (c_client c) = Returns (0, c_client c', g, s) \<and>
      dir_run False ord pass (map snd evs) (c_server c) = Returns (0, c_server c', g', s') \<and>
      io' = \<lparr>from_client = from_client io @ g, to_server = to_server io @ s,
             from_server = from_server io @ g', to_client = to_client io @ s'\<rparr>)"
proof (induction evs arbitrary: c io)
  case Nil
  show ?case by (cases io, cases c, cases c') auto
next
  case (Cons ev evs)
  obtain ec es where ev: "ev = (ec, es)" by (cases ev)
  show ?case
  proof (cases "\<exists>h h'. relay_half True ord pass ec (c_client c) = Returns h \<and> h_result h = 0 \<and>
      relay_half False ord pass es (c_server c) = Returns h' \<and> h_result h' = 0")
    case False
    then show ?thesis
      by (auto simp: ev dir_run_Cons_0 client_half_def server_half_def Let_def
          split: outcome.splits)
  next
    case True
    then obtain h h' where h: "relay_half True ord pass ec (c_client c) = Returns h" "h_result h = 0"
        "relay_half False ord pass es (c_server c) = Returns h'" "h_result h' = 0" by blast
    then have "relay_loop ord pass (ev # evs) c io =
        relay_loop ord pass evs (c\<lparr>c_client := h_dir h, c_server := h_dir h'\<rparr>) (server_io h' (client_io h io))"
      by (simp add: ev client_half_def server_half_def Let_def)
    with h show ?thesis
      by (simp add: Cons.IH ev dir_run_Cons_0 client_io_def server_io_def del: relay_loop.simps) blast
  qed
qed

text \<open>
  A half turn as a step, labelled with the event, the bytes read and the bytes written. It keeps the
  state well formed and the size of the ring, and follows a plain pipe: what is written comes off
  the front of what was held and what was read.
\<close>

definition half_step ::
    "bool \<Rightarrow> int \<Rightarrow> bool \<Rightarrow> relay_dir \<Rightarrow> io_event \<times> u8 list \<times> u8 list \<Rightarrow> relay_dir \<Rightarrow> bool" where
  "half_step c ord pass d e d' \<longleftrightarrow>
     (\<exists>h. relay_half c ord pass (fst e) d = Returns h \<and> h_result h = 0 \<and> d' = h_dir h \<and>
        snd e = (h_recv h, h_sent h))"

definition pipe_step :: "u8 list \<Rightarrow> u8 list \<times> u8 list \<Rightarrow> u8 list \<Rightarrow> bool" where
  "pipe_step held e held' \<longleftrightarrow> snd e @ held' = held @ fst e"

definition dir_sized :: "int \<Rightarrow> relay_dir \<Rightarrow> bool" where
  "dir_sized n d \<longleftrightarrow> dir_ok d \<and> r_size (d_ring d) = n"

lemma dir_run_runs:
  "dir_run c ord pass evs d = Returns (0, d', got, sent) \<longleftrightarrow>
   (\<exists>es. map fst es = evs \<and> runs (half_step c ord pass) d es d' \<and>
      got = concat (map (\<lambda>e. fst (snd e)) es) \<and> sent = concat (map (\<lambda>e. snd (snd e)) es))"
proof (induction evs arbitrary: d got sent)
  case (Cons ev evs)
  show ?case (is "?run \<longleftrightarrow> (\<exists>es. ?steps es)")
  proof
    assume ?run
    then obtain h es where h: "relay_half c ord pass ev d = Returns h" "h_result h = 0" "map fst es = evs"
        "runs (half_step c ord pass) (h_dir h) es d'" "got = h_recv h @ concat (map (\<lambda>e. fst (snd e)) es)"
        "sent = h_sent h @ concat (map (\<lambda>e. snd (snd e)) es)"
      unfolding dir_run_Cons_0 Cons.IH by blast
    then have "half_step c ord pass d (ev, h_recv h, h_sent h) (h_dir h)"
      by (simp add: half_step_def)
    with h have "?steps ((ev, h_recv h, h_sent h) # es)" by (auto intro: runs_more)
    then show "\<exists>es. ?steps es" ..
  next
    assume "\<exists>es. ?steps es"
    then obtain e es d1 where e: "fst e = ev" "map fst es = evs" "half_step c ord pass d e d1"
        "runs (half_step c ord pass) d1 es d'" "got = fst (snd e) @ concat (map (\<lambda>e. fst (snd e)) es)"
        "sent = snd (snd e) @ concat (map (\<lambda>e. snd (snd e)) es)"
      by (auto simp: map_eq_Cons_conv runs_Cons)
    then obtain h where "relay_half c ord pass ev d = Returns h" "h_result h = 0" "d1 = h_dir h"
        "snd e = (h_recv h, h_sent h)"
      by (auto simp: half_step_def)
    with e show ?run unfolding dir_run_Cons_0 Cons.IH by fastforce
  qed
qed auto

lemma runs_pipe:
  "runs pipe_step held es held' \<Longrightarrow> concat (map snd es) @ held' = held @ concat (map fst es)"
proof (induction rule: runs.induct)
  case (runs_more s e s1 es s2)
  then have "snd e @ concat (map snd es) @ s2 = (s @ fst e) @ concat (map fst es)"
    by (metis append.assoc pipe_step_def)
  then show ?case by simp
qed simp

interpretation half_turns: follows "half_step c ord pass" "dir_sized n"
    "\<lambda>d. contents (d_ring d)" snd pipe_step for c ord pass n
proof unfold_locales
  fix d e d' assume d: "dir_sized n d" "half_step c ord pass d e d'"
  then obtain h where h: "relay_half c ord pass (fst e) d = Returns h" "h_result h = 0" "d' = h_dir h"
      "snd e = (h_recv h, h_sent h)"
    by (auto simp: half_step_def)
  have "dir_ok d" using d(1) by (simp add: dir_sized_def)
  from relay_half_post [OF this h(1)] h(2-4) d(1) show
      "dir_sized n d'" "pipe_step (contents (d_ring d)) (snd e) (contents (d_ring d'))"
    by (simp_all add: half_post_def dir_sized_def pipe_step_def)
qed

lemma dir_run_sized:
  assumes "dir_run c ord pass evs d = Returns (0, d', got, sent)" "dir_sized n d"
  shows "dir_sized n d'" "sent @ contents (d_ring d') = contents (d_ring d) @ got"
proof -
  obtain es where es: "runs (half_step c ord pass) d es d'" "got = concat (map (\<lambda>e. fst (snd e)) es)"
      "sent = concat (map (\<lambda>e. snd (snd e)) es)"
    using assms(1) by (auto simp: dir_run_runs)
  show "dir_sized n d'" by (rule half_turns.runs_keep [OF es(1) assms(2)])
  show "sent @ contents (d_ring d') = contents (d_ring d) @ got"
    using runs_pipe [OF half_turns.runs_follow [OF es(1) assms(2)]] es(2,3) by (simp add: comp_def)
qed

lemma start_dir_sized: "fresh_ring ring \<Longrightarrow> dir_sized (r_size ring) (start_dir ring)"
  using start_dir_ok [of ring] by (simp add: dir_sized_def start_dir_def)

text \<open>
  The layout of a direction: its ring starts at offset 0, and it waits for a header of which less
  than four bytes are there, or for a message of which at least the header is there.
\<close>

definition laid_out :: "int \<Rightarrow> relay_dir \<Rightarrow> bool" where
  "laid_out n d \<longleftrightarrow>
     (let ring = d_ring d in
      r_size ring = n \<and> int (length (r_data ring)) = n \<and> r_tail ring = 0 \<and>
      0 \<le> r_count ring \<and> r_count ring \<le> n \<and>
      r_head ring = (if r_count ring < n then r_count ring else 0) \<and>
      (case d_state d of
         psHeader \<Rightarrow> d_remain d = 4 \<and> r_count ring < 4
       | psBody \<Rightarrow> 4 \<le> r_count ring \<and> r_count ring \<le> d_remain d \<and> d_remain d \<le> 0x1FFFFF + 4
       | psPacket \<Rightarrow> False))"

lemma dir_sized_laid_out: "dir_sized n d \<Longrightarrow> laid_out n d"
  by (cases "d_state d"; cases "r_count (d_ring d) = r_size (d_ring d)")
    (auto simp: dir_sized_def dir_ok_def laid_out_def ring_ok_def max_body_def Let_def)

text \<open>
  C5: The relay never leaves its state layout: after any number of turns, whatever the sockets
  answered, both directions have their ring of unchanged size lying from offset 0, wait for a
  header with less than four bytes or for a message of at most 0x1FFFFF bytes with its header
  there, and never hold more than they wait for; the third packet state is never entered.
\<close>

theorem relay_keeps_layout:
  assumes "fresh_ring cr" "fresh_ring sr"
    and "relay_loop ord pass evs (start_conn cr sr) no_io = Returns (0, c, io)"
  shows "laid_out (r_size cr) (c_client c) \<and> laid_out (r_size sr) (c_server c)"
proof -
  have "\<exists>g s. dir_run True ord pass (map fst evs) (start_dir cr) = Returns (0, c_client c, g, s)"
      "\<exists>g s. dir_run False ord pass (map snd evs) (start_dir sr) = Returns (0, c_server c, g, s)"
    using assms(3) by (auto simp: relay_loop_dirs start_conn_def)
  then show ?thesis
    using dir_run_sized(1) [OF _ start_dir_sized] assms(1,2) dir_sized_laid_out by metis
qed

theorem relay_keeps_layout_witness:
  "\<exists>c io. relay_loop 0 True [(arrives [0, 0, 0, 9], idle), (arrives [1, 2], idle)]
      (start_conn (empty_ring (replicate 16 0)) (empty_ring (replicate 8 0))) no_io = Returns (0, c, io) \<and>
    laid_out 16 (c_client c) \<and> laid_out 8 (c_server c) \<and> r_count (d_ring (c_client c)) = 6"
proof -
  let ?c = "start_conn (empty_ring (replicate 16 0)) (empty_ring (replicate 8 0))"
    and ?evs = "[(arrives [0, 0, 0, 9], idle), (arrives [1, 2], idle)]"
  have "case relay_loop 0 True ?evs ?c no_io of
      Returns (r, c, io) \<Rightarrow> r = 0 \<and> r_count (d_ring (c_client c)) = 6 | _ \<Rightarrow> False"
    by code_simp
  then obtain c io where run: "relay_loop 0 True ?evs ?c no_io = Returns (0, c, io)"
      "r_count (d_ring (c_client c)) = 6"
    by (auto split: outcome.splits)
  have "fresh_ring (empty_ring (replicate 16 0))" "fresh_ring (empty_ring (replicate 8 0))"
    by (rule empty_ring_fresh; simp add: int_max_def)+
  from relay_keeps_layout [OF this run(1)] run show ?thesis
    by (auto simp: empty_ring_def)
qed

section \<open>Messages in a stream\<close>

text \<open>
  The specification: a message is its four length bytes, big-endian, and as many bytes as they say.
  \<open>split_stream\<close> takes the whole messages off the front of a stream.
\<close>

definition message_bytes :: "u8 list \<Rightarrow> nat" where
  "message_bytes bs = 4 + unat (packet_header (take 4 bs))"

definition is_message :: "u8 list \<Rightarrow> bool" where
  "is_message bs \<longleftrightarrow> 4 \<le> length bs \<and> length bs = message_bytes bs"

function split_stream :: "u8 list \<Rightarrow> u8 list list \<times> u8 list" where
  "split_stream bs =
     (if length bs < 4 \<or> length bs < message_bytes bs then ([], bs)
      else case split_stream (drop (message_bytes bs) bs) of
             (ms, rest) \<Rightarrow> (take (message_bytes bs) bs # ms, rest))"
  by pat_completeness auto
termination
  by (relation "measure length") (auto simp: message_bytes_def)

declare split_stream.simps [simp del]

lemma message_bytes_append: "4 \<le> length bs \<Longrightarrow> message_bytes (bs @ rest) = message_bytes bs"
  by (simp add: message_bytes_def)

lemma split_stream_message:
  assumes "is_message m"
  shows "split_stream (m @ bs) = (m # fst (split_stream bs), snd (split_stream bs))"
  using assms message_bytes_append [of m bs]
  by (subst split_stream.simps) (auto simp: is_message_def split: prod.splits)

lemma split_stream_messages:
  "list_all is_message ms \<Longrightarrow> split_stream (concat ms @ bs) = (ms @ fst (split_stream bs), snd (split_stream bs))"
  by (induction ms) (simp_all add: split_stream_message)

text \<open>Splitting loses nothing, and what is left over is not a whole message.\<close>

lemma split_stream_concat: "concat (fst (split_stream bs)) @ snd (split_stream bs) = bs"
proof (induction bs rule: split_stream.induct)
  case (1 bs)
  then show ?case
    by (subst (1 2) split_stream.simps) (auto split: prod.splits)
qed

text \<open>A payload with its transport header, the length in big-endian order, and the reader of a stream of them.\<close>

definition transport :: "u8 list \<Rightarrow> u8 list" where
  "transport m = rev (le_store 4 (of_nat (length m) :: u32)) @ m"

definition next_message :: "u8 list \<Rightarrow> (u8 list \<times> u8 list) option" where
  "next_message bs =
     (if length bs < 4 \<or> length bs < message_bytes bs then None
      else Some (drop 4 (take (message_bytes bs) bs), drop (message_bytes bs) bs))"

lemma take_transport: "take 4 (transport m) = rev (le_store 4 (of_nat (length m) :: u32))"
  by (simp add: transport_def)

lemma transport_message: "length m < 2 ^ 32 \<Longrightarrow> is_message (transport m)"
  unfolding is_message_def message_bytes_def take_transport packet_header_def
  by (simp add: le_load_store_full unat_of_nat take_bit_nat_eq_self) (simp add: transport_def)

interpretation transport_codec: stream_codec "\<lambda>m. length m < 2 ^ 32" transport next_message
proof unfold_locales
  fix m rest :: "u8 list" assume "length m < 2 ^ 32"
  then have m: "is_message (transport m)" by (rule transport_message)
  then show "next_message (transport m @ rest) = Some (m, rest)"
    using message_bytes_append [of "transport m" rest]
    by (auto simp: next_message_def is_message_def) (simp_all add: transport_def)
  show "transport m \<noteq> []" using m by (auto simp: is_message_def)
qed

section \<open>The relay splits the stream\<close>

text \<open>
  A read in the header stage brings nothing or the whole header. (A header that comes in two pieces
  is misread, and nothing is known of what follows.)
\<close>

fun headers_whole :: "bool \<Rightarrow> int \<Rightarrow> bool \<Rightarrow> io_event list \<Rightarrow> relay_dir \<Rightarrow> bool" where
  "headers_whole c ord pass [] d = True"
| "headers_whole c ord pass (ev # evs) d =
     (case relay_half c ord pass ev d of
        Returns h \<Rightarrow> (d_state d = psHeader \<longrightarrow> length (h_recv h) \<in> {0, 4}) \<and>
                     (h_result h = 0 \<longrightarrow> headers_whole c ord pass evs (h_dir h))
      | _ \<Rightarrow> True)"

declare headers_whole.simps(2) [simp del]

text \<open>What a direction waits for, read off the bytes it holds.\<close>

definition framed :: "relay_dir \<Rightarrow> bool" where
  "framed d \<longleftrightarrow> dir_ok d \<and>
     (if d_state d = psHeader then contents (d_ring d) = []
      else d_remain d = int (message_bytes (contents (d_ring d))) \<and>
           (r_count (d_ring d) = d_remain d \<longrightarrow> d_remain d = 4))"

lemma framed_start: "fresh_ring ring \<Longrightarrow> framed (start_dir ring)"
  using start_dir_ok [of ring]
  by (simp add: framed_def start_dir_def fresh_ring_def contents_def)

definition accepted :: "bool \<Rightarrow> int \<Rightarrow> bool \<Rightarrow> u8 list \<Rightarrow> bool" where
  "accepted c ord pass m \<longleftrightarrow> pass \<or>
     (\<exists>rest l. smbproto_packet c ord (drop 4 m @ rest) (int (length m) - 4) = Returns (0, l))"

lemma relay_half_silent_header:
  assumes ok: "dir_ok d" and st: "d_state d = psHeader" and ret: "relay_half c ord pass ev d = Returns h"
    and r: "h_result h = 0" "h_recv h = []"
  shows "h_dir h = d \<and> h_sent h = []"
proof (rule relay_half_cases [OF ok, of c ord pass ev])
  fix n assume "n \<noteq> 0" "relay_half c ord pass ev d =
      Returns \<lparr>h_result = n, h_dir = d, h_recv = [], h_sent = [], h_log = []\<rparr>"
  with ret r show ?thesis by auto
next
  fix ring got assume rcv: "received_ok d ring got"
    and ring: "ring = d_ring d \<and> got = [] \<or> ring_put got (d_ring d) = Some ring \<and> got \<noteq> []"
    and eq: "relay_half c ord pass ev d = relay_received c ord pass ev d ring (r_head (d_ring d)) got"
  have "got = []"
    using ret r st rcv
    by (auto simp: eq relay_received_def relay_header_def received_ok_def split: if_splits option.splits)
  then have "ring = d_ring d" "r_count ring < 4" "d_remain d = 4"
    using ring ok st by (auto simp: dir_ok_def)
  then show ?thesis
    using ret st by (auto simp: eq relay_received_def)
qed

lemma relay_half_recv:
  assumes ok: "dir_ok d" and ret: "relay_half c ord pass ev d = Returns h" and "h_recv h \<noteq> []"
  shows "h_recv h = snd (tcp_read (ev_select ev) (ev_recv ev) (d_remain d - r_count (d_ring d)))"
proof (rule relay_half_cases [OF ok, of c ord pass ev])
  fix n assume "n \<noteq> 0" "relay_half c ord pass ev d =
      Returns \<lparr>h_result = n, h_dir = d, h_recv = [], h_sent = [], h_log = []\<rparr>"
  with ret assms(3) show ?thesis by auto
next
  fix ring got assume rcv: "received_ok d ring got"
    and got: "got = snd (tcp_read (ev_select ev) (ev_recv ev) (d_remain d - r_count (d_ring d)))"
    and eq: "relay_half c ord pass ev d = relay_received c ord pass ev d ring (r_head (d_ring d)) got"
  from ret have "h_recv h = got"
    by (auto simp: eq relay_received_def relay_header_def relay_body_def Let_def
        split: if_splits option.splits outcome.splits prod.splits)
  with got show ?thesis by simp
qed

lemma relay_half_body_cases:
  assumes ok: "dir_ok d" and st: "d_state d = psBody" and ret: "relay_half c ord pass ev d = Returns h"
    and r: "h_result h = 0"
  shows "h_sent h \<noteq> [] \<or> d_state (h_dir h) = psBody \<and> d_remain (h_dir h) = d_remain d \<and>
    r_count (d_ring (h_dir h)) \<noteq> d_remain d"
proof (rule relay_half_cases [OF ok, of c ord pass ev])
  fix n assume "n \<noteq> 0" "relay_half c ord pass ev d =
      Returns \<lparr>h_result = n, h_dir = d, h_recv = [], h_sent = [], h_log = []\<rparr>"
  with ret r show ?thesis by auto
next
  fix ring got assume rcv: "received_ok d ring got"
    and eq: "relay_half c ord pass ev d = relay_received c ord pass ev d ring (r_head (d_ring d)) got"
  note ring = received_ok_ring(1) [OF rcv] received_ok_ring(2) [OF rcv st]
  obtain n out where w: "tcp_write (ev_send ev) (contents ring) = (n, out)"
    by (cases "tcp_write (ev_send ev) (contents ring)")
  from tcp_write_cases [OF w] ret r st w ring show ?thesis
    by (auto simp: eq relay_received_def relay_body_eq split: if_splits outcome.splits)
qed

lemma framed_header:
  assumes fr: "framed d" and ret: "relay_half c ord pass ev d = Returns h" and r: "h_result h = 0"
    and st: "d_state d = psHeader" and len: "length (h_recv h) = 4"
  shows "framed (h_dir h) \<and> h_sent h = [] \<and> contents (d_ring (h_dir h)) = contents (d_ring d) @ h_recv h"
proof -
  have ok: "dir_ok d" and none: "contents (d_ring d) = []" using fr st by (simp_all add: framed_def)
  have post: "dir_ok (h_dir h)" "h_sent h @ contents (d_ring (h_dir h)) = h_recv h"
    using relay_half_post [OF ok ret] r none by (auto simp: half_post_def)
  have z: "r_count (d_ring d) = 0"
    using ok none length_contents [of "d_ring d"] by (simp add: dir_ok_def)
  have rem: "d_remain d = 4" using ok st by (simp add: dir_ok_def)
  obtain got where got: "got = snd (tcp_read (ev_select ev) (ev_recv ev) (4 - r_count (d_ring d)))" "h_recv h = got"
    using relay_half_recv [OF ok ret] len rem by (cases "h_recv h") auto
  have "r_count (d_ring d) + int (length got) = 4" using z got(2) len by simp
  from relay_half_header [OF ok st got(1) this, of c ord pass] obtain w where
    w: "w = packet_header got" "d_state (h_dir h) = psBody" "d_remain (h_dir h) = uint w + 4" "h_sent h = []"
    using ret r z by (auto split: if_splits)
  then have c: "contents (d_ring (h_dir h)) = got" using post(2) got(2) by simp
  then have "r_count (d_ring (h_dir h)) = 4"
    using post(1) len got(2) length_contents [of "d_ring (h_dir h)"] by (simp add: dir_ok_def)
  moreover have "int (message_bytes got) = uint w + 4"
    using len got(2) w(1) by (simp add: message_bytes_def)
  ultimately show ?thesis
    using w c post(1) got(2) none by (simp add: framed_def)
qed

lemma framed_half:
  assumes fr: "framed d" and ret: "relay_half c ord pass ev d = Returns h" and r: "h_result h = 0"
    and whole: "d_state d = psHeader \<Longrightarrow> length (h_recv h) \<in> {0, 4}"
  shows "framed (h_dir h) \<and>
    (h_sent h = [] \<and> contents (d_ring (h_dir h)) = contents (d_ring d) @ h_recv h \<or>
     is_message (h_sent h) \<and> accepted c ord pass (h_sent h) \<and>
     h_sent h = contents (d_ring d) @ h_recv h \<and> contents (d_ring (h_dir h)) = [])"
proof -
  have ok: "dir_ok d" using fr by (simp add: framed_def)
  have post: "dir_ok (h_dir h)" "h_sent h @ contents (d_ring (h_dir h)) = contents (d_ring d) @ h_recv h"
    using relay_half_post [OF ok ret] r by (auto simp: half_post_def)
  have len: "int (length (contents (d_ring d))) = r_count (d_ring d)"
    using ok length_contents by (auto simp: dir_ok_def)
  consider (silent) "d_state d = psHeader" "h_recv h = []"
    | (header) "d_state d = psHeader" "length (h_recv h) = 4"
    | (body) "d_state d = psBody"
    using ok whole by (cases "d_state d") (auto simp: dir_ok_def)
  then show ?thesis
  proof cases
    case silent
    then show ?thesis
      using relay_half_silent_header [OF ok silent(1) ret r silent(2)] fr by simp
  next
    case header
    from framed_header [OF fr ret r this] show ?thesis by blast
  next
    case body
    have d: "d_remain d = int (message_bytes (contents (d_ring d)))" "4 \<le> length (contents (d_ring d))"
      using fr body ok len by (auto simp: framed_def dir_ok_def)
    show ?thesis
    proof (cases "h_sent h = []")
      case True
      then show ?thesis
        using relay_half_body_cases [OF ok body ret r] post d body
        by (simp add: framed_def message_bytes_append)
    next
      case False
      note snd = relay_half_sends [OF ok ret r False]
      then have "accepted c ord pass (h_sent h)" by (auto simp: accepted_def)
      then show ?thesis
        using snd post d message_bytes_append [OF d(2), of "h_recv h"]
        by (auto simp: framed_def is_message_def)
    qed
  qed
qed

lemma framed_run:
  "framed d \<Longrightarrow> dir_run c ord pass evs d = Returns (0, d', got, sent) \<Longrightarrow> headers_whole c ord pass evs d \<Longrightarrow>
   framed d' \<and> (\<exists>ms. contents (d_ring d) @ got = concat ms @ contents (d_ring d') \<and> sent = concat ms \<and>
     list_all is_message ms \<and> list_all (accepted c ord pass) ms)"
proof (induction evs arbitrary: d got sent)
  case Nil
  then show ?case by (auto intro: exI [of _ "[]"])
next
  case (Cons ev evs)
  from Cons.prems(2) obtain h got' sent' where h: "relay_half c ord pass ev d = Returns h" "h_result h = 0"
      "dir_run c ord pass evs (h_dir h) = Returns (0, d', got', sent')"
      "got = h_recv h @ got'" "sent = h_sent h @ sent'"
    by (auto simp: dir_run_Cons_0)
  have w: "d_state d = psHeader \<Longrightarrow> length (h_recv h) \<in> {0, 4}" "headers_whole c ord pass evs (h_dir h)"
    using Cons.prems(3) h by (auto simp: headers_whole.simps(2))
  from framed_half [OF Cons.prems(1) h(1,2) w(1)]
  have f: "framed (h_dir h)" and s: "h_sent h = [] \<and> contents (d_ring (h_dir h)) = contents (d_ring d) @ h_recv h \<or>
     is_message (h_sent h) \<and> accepted c ord pass (h_sent h) \<and>
     h_sent h = contents (d_ring d) @ h_recv h \<and> contents (d_ring (h_dir h)) = []" by auto
  from Cons.IH [OF f h(3) w(2)] obtain ms where ms: "framed d'"
      "contents (d_ring (h_dir h)) @ got' = concat ms @ contents (d_ring d')" "sent' = concat ms"
      "list_all is_message ms" "list_all (accepted c ord pass) ms" by auto
  from s show ?case
  proof (elim disjE conjE)
    assume "h_sent h = []" "contents (d_ring (h_dir h)) = contents (d_ring d) @ h_recv h"
    with ms h show ?thesis by (auto intro!: exI [of _ ms])
  next
    assume "is_message (h_sent h)" "accepted c ord pass (h_sent h)"
      "h_sent h = contents (d_ring d) @ h_recv h" "contents (d_ring (h_dir h)) = []"
    with ms h show ?thesis by (auto intro!: exI [of _ "h_sent h # ms"])
  qed
qed

lemma framed_split:
  assumes "framed d"
  shows "split_stream (contents (d_ring d)) =
      (if is_message (contents (d_ring d)) then ([contents (d_ring d)], []) else ([], contents (d_ring d)))"
    and "is_message (contents (d_ring d)) \<Longrightarrow> length (contents (d_ring d)) = 4"
proof -
  let ?c = "contents (d_ring d)"
  have len: "int (length ?c) = r_count (d_ring d)"
    using assms length_contents by (simp add: framed_def dir_ok_def)
  have stage: "stage_ok (d_state d) (d_remain d) (r_count (d_ring d))"
    using assms by (simp add: framed_def dir_ok_def)
  have "?c = [] \<or> 4 \<le> length ?c \<and> length ?c \<le> message_bytes ?c \<and>
      (length ?c = message_bytes ?c \<longrightarrow> length ?c = 4)"
    using assms stage len by (cases "d_state d") (auto simp: framed_def)
  moreover have "split_stream ([] :: u8 list) = ([], [])"
    by (simp add: split_stream.simps)
  ultimately show "split_stream ?c = (if is_message ?c then ([?c], []) else ([], ?c))"
    by (subst split_stream.simps) (auto simp: is_message_def)
  show "is_message ?c \<Longrightarrow> length ?c = 4"
    using \<open>?c = [] \<or> _\<close> by (auto simp: is_message_def)
qed

text \<open>
  C7: While headers arrive whole, the relay refines the splitting of its input stream into
  messages: whatever the timing, the bytes it has written are exactly the whole messages of the
  bytes it has read, in order and each accepted by the SMB walk unless in passthrough; the ring
  holds the rest. Only an empty message can be whole and still in the ring.
\<close>

theorem relay_refines_split_stream:
  assumes "fresh_ring ring" "headers_whole isclient ord pass evs (start_dir ring)"
    and "dir_run isclient ord pass evs (start_dir ring) = Returns (0, d, got, sent)"
  defines "rest \<equiv> contents (d_ring d)"
  shows "\<exists>ms. sent = concat ms \<and> list_all (accepted isclient ord pass) ms \<and>
    split_stream got = (if is_message rest then (ms @ [rest], []) else (ms, rest)) \<and>
    (is_message rest \<longrightarrow> length rest = 4)"
proof -
  have "contents (d_ring (start_dir ring)) = []"
    using assms(1) by (simp add: start_dir_def fresh_ring_def contents_def)
  with framed_run [OF framed_start [OF assms(1)] assms(3,2)] obtain ms where
    ms: "framed d" "got = concat ms @ rest" "sent = concat ms" "list_all is_message ms"
      "list_all (accepted isclient ord pass) ms" by (auto simp: rest_def)
  with split_stream_messages [OF ms(4), of rest] framed_split [OF ms(1)] show ?thesis
    by (auto simp: rest_def)
qed

theorem relay_refines_split_stream_witness:
  "\<exists>d. dir_run True 0 True [arrives [0, 0, 0, 2], arrives [7], arrives [8], arrives [0, 0, 0, 9], arrives [1]]
      (start_dir (empty_ring (replicate 16 0))) = Returns (0, d, [0, 0, 0, 2, 7, 8, 0, 0, 0, 9, 1], [0, 0, 0, 2, 7, 8]) \<and>
    (\<exists>ms. concat ms = [0, 0, 0, 2, 7, 8] \<and>
      split_stream [0, 0, 0, 2, 7, 8, 0, 0, 0, 9, 1] = (ms, [0, 0, 0, 9, 1]))"
proof -
  let ?evs = "[arrives [0, 0, 0, 2], arrives [7], arrives [8], arrives [0, 0, 0, 9], arrives [1]]"
    and ?d = "start_dir (empty_ring (replicate 16 0))"
  have "case dir_run True 0 True ?evs ?d of
      Returns (r, d, got, sent) \<Rightarrow> r = 0 \<and> got = [0, 0, 0, 2, 7, 8, 0, 0, 0, 9, 1] \<and>
        sent = [0, 0, 0, 2, 7, 8] \<and> contents (d_ring d) = [0, 0, 0, 9, 1] | _ \<Rightarrow> False"
    by code_simp
  then obtain d where run: "dir_run True 0 True ?evs ?d =
      Returns (0, d, [0, 0, 0, 2, 7, 8, 0, 0, 0, 9, 1], [0, 0, 0, 2, 7, 8])"
      and rest: "contents (d_ring d) = [0, 0, 0, 9, 1]"
    by (auto split: outcome.splits)
  have "fresh_ring (empty_ring (replicate 16 0))"
    by (rule empty_ring_fresh) (simp_all add: int_max_def)
  moreover have "headers_whole True 0 True ?evs ?d" by code_simp
  ultimately show ?thesis
    using relay_refines_split_stream [OF _ _ run, unfolded rest] run by (auto split: if_splits)
qed

section \<open>Delivery\<close>

text \<open>A socket that has some bytes to read, and one that takes a whole message.\<close>

definition brings :: "io_event \<Rightarrow> u8 list \<Rightarrow> bool" where
  "brings ev bs \<longleftrightarrow> 0 < ev_select ev \<and> ev_recv ev = Ready bs \<and> bs \<noteq> []"

definition takes_all :: "io_event \<Rightarrow> u8 list \<Rightarrow> bool" where
  "takes_all ev bs \<longleftrightarrow> tcp_write (ev_send ev) bs = (int (length bs), bs)"

definition offers :: "io_event \<Rightarrow> u8 list \<Rightarrow> bool" where
  "offers ev bs \<longleftrightarrow> brings ev bs \<or> ev_select ev = 0 \<and> bs = []"

lemma relay_half_idle:
  assumes ok: "dir_ok d" and idle: "ev_select ev = 0"
    and room: "r_count (d_ring d) < d_remain d" "d_remain d \<le> r_size (d_ring d)"
  shows "relay_half c ord pass ev d = Returns \<lparr>h_result = 0, h_dir = d, h_recv = [], h_sent = [], h_log = []\<rparr>"
proof -
  have "ring_room (d_ring d) = r_size (d_ring d) - r_count (d_ring d)"
    using ok ring_from_zero(4) by (simp add: dir_ok_def)
  then show ?thesis
    using idle room
    by (auto simp: relay_half_def tcp_read_def relay_received_def ring_room_def contiguous_write_ptr_def)
qed

lemma idle_run:
  "fresh_ring ring \<Longrightarrow> \<forall>ev \<in> set evs. ev_select ev = 0 \<Longrightarrow>
   dir_run c ord pass evs (start_dir ring) = Returns (0, start_dir ring, [], [])"
proof (induction evs)
  case (Cons ev evs)
  then have "relay_half c ord pass ev (start_dir ring) =
      Returns \<lparr>h_result = 0, h_dir = start_dir ring, h_recv = [], h_sent = [], h_log = []\<rparr>"
    by (intro relay_half_idle start_dir_ok) (simp_all add: start_dir_def fresh_ring_def)
  with Cons show ?case by (simp add: dir_run.simps(2))
qed simp

lemma relay_half_brings:
  assumes ok: "dir_ok d" and b: "brings ev bs"
    and fits: "r_count (d_ring d) + int (length bs) \<le> d_remain d" "d_remain d \<le> r_size (d_ring d)"
  obtains ring where "received_ok d ring bs" "r_count ring = r_count (d_ring d) + int (length bs)"
    "relay_half c ord pass ev d = relay_received c ord pass ev d ring (r_head (d_ring d)) bs"
proof -
  let ?ch = "d_remain d - r_count (d_ring d)"
  have clip: "clip ?ch bs = bs" using fits(1) by (simp add: clip_def)
  then have rd: "tcp_read (ev_select ev) (ev_recv ev) ?ch = (int (length bs), bs)"
    using b by (simp add: brings_def tcp_read_def os_recv_def)
  have room: "\<not> ring_room (d_ring d) < ?ch"
    using ok fits ring_from_zero(4) by (simp add: dir_ok_def)
  show thesis
  proof (rule relay_half_cases [OF ok, of c ord pass ev])
    assume "ring_room (d_ring d) < ?ch \<or> fst (tcp_read (ev_select ev) (ev_recv ev) ?ch) < 0"
    with room rd show thesis by simp
  next
    fix ring got assume rcv: "received_ok d ring got"
      and got: "got = snd (tcp_read (ev_select ev) (ev_recv ev) ?ch)"
      and eq: "relay_half c ord pass ev d = relay_received c ord pass ev d ring (r_head (d_ring d)) got"
    have "got = bs" using got rd by simp
    moreover from this have "r_count ring = r_count (d_ring d) + int (length bs)"
      using rcv ok length_contents [of ring] length_contents [of "d_ring d"]
      by (simp add: received_ok_def dir_ok_def)
    ultimately show thesis using rcv eq that by simp
  qed
qed

lemma body_run_gathers:
  "dir_ok d \<Longrightarrow> d_state d = psBody \<Longrightarrow> d_remain d \<le> r_size (d_ring d) \<Longrightarrow>
   list_all2 offers evs ps \<Longrightarrow> ps \<noteq> [] \<Longrightarrow> last ps \<noteq> [] \<Longrightarrow>
   r_count (d_ring d) + int (length (concat ps)) = d_remain d \<Longrightarrow>
   \<exists>d' ring. dir_run c ord pass (butlast evs) d = Returns (0, d', concat (butlast ps), []) \<and>
     received_ok d' ring (last ps) \<and> d_state d' = psBody \<and> contents ring = contents (d_ring d) @ concat ps \<and>
     r_size ring = r_size (d_ring d) \<and>
     relay_half c ord pass (last evs) d' = relay_body c ord pass (last evs) d' ring (last ps)"
proof (induction evs ps arbitrary: d rule: list_induct2')
  case (4 ev evs p ps)
  have b: "offers ev p" "list_all2 offers evs ps" using "4.prems"(4) by auto
  have more: "evs \<noteq> []" "r_count (d_ring d) + int (length p) < d_remain d" if "ps \<noteq> []"
  proof -
    show "evs \<noteq> []" using b(2) that by auto
    have "last ps \<in> set ps" "last ps \<noteq> []" using "4.prems"(6) that by simp_all
    then have "concat ps \<noteq> []" by auto
    then show "r_count (d_ring d) + int (length p) < d_remain d"
      using "4.prems"(7) by (cases "concat ps") auto
  qed
  show ?case
  proof (cases "p = []")
    case True
    then have "ev_select ev = 0" "ps \<noteq> []" using b(1) "4.prems"(6) by (auto simp: offers_def brings_def)
    with more True have "relay_half c ord pass ev d =
        Returns \<lparr>h_result = 0, h_dir = d, h_recv = [], h_sent = [], h_log = []\<rparr>" "evs \<noteq> []"
      using "4.prems"(1,3) relay_half_idle by auto
    with True "4.prems" b(2) \<open>ps \<noteq> []\<close> "4.IH" [of d] show ?thesis
      by (auto simp: dir_run.simps(2))
  next
    case False
    then have br: "brings ev p" using b(1) by (simp add: offers_def)
    have fits: "r_count (d_ring d) + int (length p) \<le> d_remain d" using "4.prems"(7) by simp
    obtain ring where ring: "received_ok d ring p" "r_count ring = r_count (d_ring d) + int (length p)"
      "relay_half c ord pass ev d = relay_received c ord pass ev d ring (r_head (d_ring d)) p"
      by (rule relay_half_brings [OF "4.prems"(1) br fits "4.prems"(3)])
    have c: "contents ring = contents (d_ring d) @ p" "r_size ring = r_size (d_ring d)"
      using ring(1) by (auto simp: received_ok_def)
    show ?thesis
    proof (cases "ps = []")
      case True
      then have "evs = []" "r_count ring = d_remain d"
        using b(2) "4.prems"(7) ring(2) by auto
      then show ?thesis using True ring c "4.prems"(2) by (auto simp: relay_received_def)
    next
      case False
      then have half: "relay_half c ord pass ev d = Returns \<lparr>h_result = 0, h_dir = d\<lparr>d_ring := ring\<rparr>,
          h_recv = p, h_sent = [], h_log = []\<rparr>"
        using ring(2,3) more by (simp add: relay_received_def)
      have ok: "dir_ok (d\<lparr>d_ring := ring\<rparr>)"
        using relay_half_post [OF "4.prems"(1) half] by (simp add: half_post_def)
      from "4.IH" [OF ok] "4.prems" b(2) False c ring(2) more half show ?thesis
        by (auto simp: dir_run.simps(2))
    qed
  qed
qed simp_all

text \<open>
  How a message arrives: after any wait its header in one read, then its bytes in any number of
  reads with waits in between; the other socket takes it when its last byte is there.
\<close>

definition comes_whole :: "io_event list \<Rightarrow> u8 list \<Rightarrow> bool" where
  "comes_whole evs m \<longleftrightarrow>
     (\<exists>wait ev evs' ps. evs = wait @ ev # evs' \<and> (\<forall>w \<in> set wait. ev_select w = 0) \<and>
        brings ev (take 4 m) \<and> list_all2 offers evs' ps \<and> ps \<noteq> [] \<and> last ps \<noteq> [] \<and>
        concat ps = drop 4 m \<and> takes_all (last evs') m)"

definition fits_relay :: "ioring \<Rightarrow> u8 list \<Rightarrow> bool" where
  "fits_relay ring m \<longleftrightarrow> is_message m \<and> int (length m) \<le> r_size ring \<and> length m \<le> 0x1FFFFF + 4"

lemma message_gathered:
  assumes ring: "fresh_ring ring" and fits: "fits_relay ring m" and whole: "comes_whole evs m"
  obtains evs0 ev d ring' g p where "evs = evs0 @ [ev]"
    "dir_run c ord pass evs0 (start_dir ring) = Returns (0, d, g, [])" "g @ p = m"
    "received_ok d ring' p" "d_state d = psBody" "contents ring' = m" "r_size ring' = r_size ring"
    "relay_half c ord pass ev d = relay_body c ord pass ev d ring' p" "takes_all ev m"
proof -
  from whole obtain wait ev evs' ps where evs: "evs = wait @ ev # evs'" "brings ev (take 4 m)"
      "list_all2 offers evs' ps" "ps \<noteq> []" "last ps \<noteq> []" "concat ps = drop 4 m" "takes_all (last evs') m"
      and wait: "\<forall>w \<in> set wait. ev_select w = 0"
    by (auto simp: comes_whole_def)
  have len: "4 \<le> length m" "length m = 4 + unat (packet_header (take 4 m))"
    using fits by (simp_all add: fits_relay_def is_message_def message_bytes_def)
  let ?d = "start_dir ring" and ?w = "packet_header (take 4 m)"
  have ok: "dir_ok ?d" and d: "d_state ?d = psHeader" "r_count (d_ring ?d) = 0" "contents ring = []"
    using start_dir_ok [OF ring] ring by (simp_all add: start_dir_def fresh_ring_def contents_def)
  have "clip 4 (take 4 m) = take 4 m" by (simp add: clip_def)
  then have got: "take 4 m = snd (tcp_read (ev_select ev) (ev_recv ev) (4 - r_count (d_ring ?d)))"
    "r_count (d_ring ?d) + int (length (take 4 m)) = 4"
    using evs(2) len(1) d(2) by (auto simp: brings_def tcp_read_def os_recv_def)
  have small: "\<not> 0x1FFFFF < ?w"
    using len(2) fits by (simp add: word_less_nat_alt fits_relay_def)
  from relay_half_header [OF ok d(1) got, of c ord pass] obtain ring1 where
    h: "relay_half c ord pass ev ?d = Returns \<lparr>h_result = 0,
      h_dir = \<lparr>d_ring = ring1, d_state = psBody, d_remain = uint ?w + 4\<rparr>,
      h_recv = take 4 m, h_sent = [], h_log = []\<rparr>"
    using d(2) small by auto
  let ?d1 = "\<lparr>d_ring = ring1, d_state = psBody, d_remain = uint ?w + 4\<rparr>"
  have post: "dir_ok ?d1" "contents ring1 = take 4 m" "r_size ring1 = r_size ring"
    using relay_half_post [OF ok h] d(3) by (simp_all add: half_post_def start_dir_def)
  then have n: "r_count ring1 = 4"
    using len(1) length_contents [of ring1] by (simp add: dir_ok_def)
  have w: "int (length m) = uint ?w + 4" using len(2) by simp
  have "d_remain ?d1 \<le> r_size (d_ring ?d1)" "r_count (d_ring ?d1) + int (length (concat ps)) = d_remain ?d1"
    using post n w evs(6) fits len(1) by (simp_all add: fits_relay_def)
  from body_run_gathers [OF post(1) _ this(1) evs(3-5) this(2), of c ord pass] obtain d' ring' where
    g: "dir_run c ord pass (butlast evs') ?d1 = Returns (0, d', concat (butlast ps), [])"
      "received_ok d' ring' (last ps)" "d_state d' = psBody" "contents ring' = m" "r_size ring' = r_size ring"
      "relay_half c ord pass (last evs') d' = relay_body c ord pass (last evs') d' ring' (last ps)"
    using post(2,3) evs(6) by auto
  have "dir_run c ord pass (ev # butlast evs') ?d = Returns (0, d', take 4 m @ concat (butlast ps), [])"
    using h g(1) by (simp add: dir_run.simps(2))
  then have run: "dir_run c ord pass (wait @ ev # butlast evs') ?d =
      Returns (0, d', take 4 m @ concat (butlast ps), [])"
    using idle_run [OF ring wait] by (fastforce simp: dir_run_append_0)
  have "concat (butlast ps) @ last ps = drop 4 m"
    using evs(4,6) by (metis append_butlast_last_id concat_append concat.simps append_Nil2)
  then have "(take 4 m @ concat (butlast ps)) @ last ps = m" by simp
  moreover have "evs = (wait @ ev # butlast evs') @ [last evs']"
    using evs(1,3,4) by (cases evs') auto
  ultimately show thesis using that [OF _ run] g evs(7) by blast
qed

text \<open>What the SMB checks see of a message: its bytes, and behind them what the ring held before.\<close>

definition message_check :: "bool \<Rightarrow> int \<Rightarrow> bool \<Rightarrow> u8 list \<Rightarrow> u8 list \<Rightarrow> (int \<times> smb_log) outcome" where
  "message_check c ord pass m rest =
     (if pass then Returns (0, []) else smbproto_packet c ord (drop 4 m @ rest) (int (length m) - 4))"

lemma body_check_message:
  assumes "received_ok d ring got" "d_state d = psBody"
  obtains rest where "int (length rest) = r_size ring - r_count ring"
    "body_check c ord pass ring = message_check c ord pass (contents ring) rest"
proof -
  have r: "ring_ok ring" "r_tail ring = 0" "4 \<le> r_count ring"
    using assms by (auto simp: received_ok_def)
  have len: "int (length (contents ring)) = r_count ring" by (rule length_contents [OF r(1)])
  have "contents ring = take (nat (r_count ring)) (r_data ring)" using r by (simp add: contents_def)
  moreover have "4 \<le> length (contents ring)" using len r(3) by linarith
  ultimately have "drop 4 (r_data ring) = drop 4 (contents ring) @ drop (nat (r_count ring)) (r_data ring)"
    by (metis append_take_drop_id drop_append diff_is_0_eq' drop0)
  moreover have "int (length (drop (nat (r_count ring)) (r_data ring))) = r_size ring - r_count ring"
    using ring_okD [OF r(1)] r(3) by simp
  ultimately show thesis
    using len that [of "drop (nat (r_count ring)) (r_data ring)"]
    by (simp add: body_check_def message_check_def)
qed

lemma relay_body_message:
  assumes rcv: "received_ok d ring got" and st: "d_state d = psBody" and w: "takes_all ev (contents ring)"
  shows "relay_body c ord pass ev d ring got =
    map_outcome (\<lambda>(r, l). \<lparr>h_result = r,
        h_dir = if r = 0 then start_dir (ring_consumed (r_count ring) ring) else d\<lparr>d_ring := ring\<rparr>,
        h_recv = got, h_sent = if r = 0 then contents ring else [], h_log = l\<rparr>)
      (body_check c ord pass ring)"
proof -
  have r: "ring_ok ring" "r_tail ring = 0" "0 < r_count ring"
    using rcv st by (auto simp: received_ok_def)
  have "tcp_write (ev_send ev) (contents ring) = (r_count ring, contents ring)"
    using w length_contents [OF r(1)] by (simp add: takes_all_def)
  with r(3) show ?thesis
    by (cases "body_check c ord pass ring") (auto simp: relay_body_eq [OF r])
qed

fun fate ::
    "ioring \<Rightarrow> u8 list \<Rightarrow> (int \<times> smb_log) outcome \<Rightarrow> (int \<times> relay_dir \<times> u8 list \<times> u8 list) outcome \<Rightarrow> bool" where
  "fate ring m Faults run = (run = Faults)"
| "fate ring m Diverges run = (run = Diverges)"
| "fate ring m (Returns (r, l)) run =
     (if r = 0 then \<exists>ring'. run = Returns (0, start_dir ring', m, m) \<and> fresh_ring ring' \<and> r_size ring' = r_size ring
      else \<exists>d. run = Returns (r, d, m, []))"

lemma message_fate:
  assumes "fresh_ring ring" "fits_relay ring m" "comes_whole evs m"
  shows "\<exists>rest. int (length rest) = r_size ring - int (length m) \<and>
    fate ring m (message_check c ord pass m rest) (dir_run c ord pass evs (start_dir ring))"
proof (rule message_gathered [OF assms, of c ord pass])
  fix evs0 ev d ring' g p
  assume evs: "evs = evs0 @ [ev]" and run: "dir_run c ord pass evs0 (start_dir ring) = Returns (0, d, g, [])"
    and m: "g @ p = m" and rcv: "received_ok d ring' p" "d_state d = psBody" "contents ring' = m"
      "r_size ring' = r_size ring"
    and half: "relay_half c ord pass ev d = relay_body c ord pass ev d ring' p" and w: "takes_all ev m"
  have r: "ring_ok ring'" "r_tail ring' = 0" "8 \<le> r_size ring'" using rcv by (auto simp: received_ok_def)
  note all = consume_all [OF r(1,2)]
  have fresh: "fresh_ring (ring_consumed (r_count ring') ring')" using all r(3) by (simp add: fresh_ring_def)
  have len: "int (length m) = r_count ring'" using length_contents [OF r(1)] rcv(3) by simp
  obtain rest where rest: "int (length rest) = r_size ring' - r_count ring'"
      "body_check c ord pass ring' = message_check c ord pass m rest"
    by (rule body_check_message [OF rcv(1,2), of c ord pass]) (use rcv(3) in simp)
  note body = relay_body_message [OF rcv(1,2), of ev c ord pass, unfolded rcv(3), OF w]
  show ?thesis
  proof (intro exI conjI)
    show "int (length rest) = r_size ring - int (length m)" using rest(1) rcv(4) len by simp
    show "fate ring m (message_check c ord pass m rest) (dir_run c ord pass evs (start_dir ring))"
      using dir_run_append [of c ord pass evs0 "[ev]" "start_dir ring"] run half body rest(2) fresh all(5) rcv(4) m
      by (cases rule: fate.cases [of "(ring, m, message_check c ord pass m rest, dir_run c ord pass evs (start_dir ring))"])
        (auto simp: evs dir_run.simps(2))
  qed
qed

lemma arrives_offers: "brings (arrives (b # bs)) (b # bs)" "offers (arrives (b # bs)) (b # bs)" "offers idle []"
  by (simp_all add: brings_def offers_def arrives_def idle_def)

lemma arrives_takes_all: "m \<noteq> [] \<Longrightarrow> takes_all (arrives bs) m"
  by (simp add: takes_all_def arrives_def tcp_write_def tcp_write_loop_ready)

text \<open>
  The reference: a filter that forwards message after message, as long as their checks, given with
  them, accept them. Its result, what it has read and what it has written.
\<close>

fun forward_checked :: "(u8 list \<times> (int \<times> smb_log) outcome) list \<Rightarrow> (int \<times> u8 list \<times> u8 list) outcome" where
  "forward_checked [] = Returns (0, [], [])"
| "forward_checked ((m, Faults) # ms) = Faults"
| "forward_checked ((m, Diverges) # ms) = Diverges"
| "forward_checked ((m, Returns (r, l)) # ms) =
     (if r \<noteq> 0 then Returns (r, m, [])
      else map_outcome (\<lambda>(r, got, sent). (r, m @ got, m @ sent)) (forward_checked ms))"

definition observed :: "(int \<times> relay_dir \<times> u8 list \<times> u8 list) outcome \<Rightarrow> (int \<times> u8 list \<times> u8 list) outcome" where
  "observed run = map_outcome (\<lambda>(r, d, got, sent). (r, got, sent)) run"

definition ready_again :: "ioring \<Rightarrow> (int \<times> relay_dir \<times> u8 list \<times> u8 list) outcome \<Rightarrow> bool" where
  "ready_again ring run \<longleftrightarrow> (\<forall>d got sent. run = Returns (0, d, got, sent) \<longrightarrow>
     (\<exists>ring'. d = start_dir ring' \<and> fresh_ring ring' \<and> r_size ring' = r_size ring))"

definition behind :: "ioring \<Rightarrow> u8 list \<Rightarrow> u8 list \<Rightarrow> bool" where
  "behind ring m rest \<longleftrightarrow> int (length rest) = r_size ring - int (length m)"

definition checks :: "bool \<Rightarrow> int \<Rightarrow> bool \<Rightarrow> u8 list list \<Rightarrow> u8 list list \<Rightarrow> (u8 list \<times> (int \<times> smb_log) outcome) list" where
  "checks c ord pass ms rests = map2 (\<lambda>m rest. (m, message_check c ord pass m rest)) ms rests"

lemma observed_after:
  "observed (map_outcome (\<lambda>(r, d, g, s). (r, d, m @ g, m @ s)) run) =
    map_outcome (\<lambda>(r, g, s). (r, m @ g, m @ s)) (observed run)"
  "ready_again ring (map_outcome (\<lambda>(r, d, g, s). (r, d, m @ g, m @ s)) run) = ready_again ring run"
  by (cases run; force simp: observed_def ready_again_def)+

lemma messages_filtered:
  "fresh_ring ring \<Longrightarrow> list_all2 comes_whole evss ms \<Longrightarrow> \<forall>m \<in> set ms. fits_relay ring m \<Longrightarrow>
   \<exists>rests. list_all2 (behind ring) ms rests \<and>
     observed (dir_run c ord pass (concat evss) (start_dir ring)) = forward_checked (checks c ord pass ms rests) \<and>
     ready_again ring (dir_run c ord pass (concat evss) (start_dir ring))"
proof (induction evss ms arbitrary: ring rule: list_induct2')
  case 1
  then show ?case by (auto simp: observed_def ready_again_def checks_def intro: exI [of _ "[]"])
next
  case (4 evs evss m ms)
  let ?run = "dir_run c ord pass evs (start_dir ring)"
  obtain rest where rest: "behind ring m rest" "fate ring m (message_check c ord pass m rest) ?run"
    using message_fate [of ring m evs c ord pass] "4.prems" by (auto simp: behind_def)
  note app = dir_run_append [of c ord pass evs "concat evss" "start_dir ring"]
  show ?case
  proof (cases "\<exists>l. message_check c ord pass m rest = Returns (0, l)")
    case True
    then obtain l ring1 where l: "message_check c ord pass m rest = Returns (0, l)"
        "?run = Returns (0, start_dir ring1, m, m)" "fresh_ring ring1" "r_size ring1 = r_size ring"
      using rest(2) by auto
    let ?run1 = "dir_run c ord pass (concat evss) (start_dir ring1)"
    obtain rests where "list_all2 (behind ring) ms rests"
        "observed ?run1 = forward_checked (checks c ord pass ms rests)" "ready_again ring ?run1"
    proof -
      have "behind ring1 = behind ring" "ready_again ring1 = ready_again ring" "fits_relay ring1 = fits_relay ring"
        using l(4) by (simp_all add: behind_def ready_again_def fits_relay_def fun_eq_iff)
      then show thesis using that "4.IH" [OF l(3)] "4.prems"(2,3) by auto
    qed
    with rest(1) l app show ?thesis
      by (intro exI [of _ "rest # rests"]) (simp add: checks_def observed_after)
  next
    case False
    obtain rests where "list_all2 (behind ring) ms rests"
    proof
      show "list_all2 (behind ring) ms (map (\<lambda>m. replicate (nat (r_size ring - int (length m))) 0) ms)"
        using "4.prems"(3) by (auto simp: list_all2_conv_all_nth behind_def fits_relay_def dest: nth_mem)
    qed
    with rest False app show ?thesis
      by (intro exI [of _ "rest # rests"])
        (cases "message_check c ord pass m rest"; fastforce simp: checks_def observed_def ready_again_def split: if_splits)
  qed
qed simp_all

text \<open>
  C10: The relay is a filter of messages. For messages that fit, each with its header in one read
  and finding the other socket ready, a direction does what the reference does that checks a message
  and forwards it: it forwards them whole and in order up to the first one its check does not accept,
  reads that one and does not forward it; it goes on, ends the connection with the check's
  result, faults or hangs exactly when the reference does, and where it goes on it is ready for the
  next message. Each check sees nothing but its message and, behind it, what the buffer held before.
\<close>

theorem relay_filters_messages:
  fixes isclient pass :: bool and ord :: int
  assumes "fresh_ring ring" "list_all2 comes_whole evss ms" "\<forall>m \<in> set ms. fits_relay ring m"
  defines "run \<equiv> dir_run isclient ord pass (concat evss) (start_dir ring)"
  shows "\<exists>rests. list_all2 (behind ring) ms rests \<and>
    observed run = forward_checked (checks isclient ord pass ms rests) \<and> ready_again ring run"
  using messages_filtered [OF assms(1-3)] by (simp add: run_def)

theorem relay_filters_messages_witness:
  "observed (dir_run True 0 False [arrives [0, 0, 0, 3], arrives [0xFF, 0x53, 0x4D]]
      (start_dir (empty_ring (replicate 80 0)))) = Returns (-1, [0, 0, 0, 3, 0xFF, 0x53, 0x4D], [])"
proof -
  let ?m = "[0, 0, 0, 3, 0xFF, 0x53, 0x4D] :: u8 list" and ?r = "empty_ring (replicate 80 0)"
    and ?evs = "[arrives [0, 0, 0, 3], arrives [0xFF, 0x53, 0x4D]]"
  have ring: "fresh_ring ?r" by (rule empty_ring_fresh) (simp_all add: int_max_def)
  have "is_message ?m" by code_simp
  then have fits: "\<forall>m \<in> set [?m]. fits_relay ?r m" by (simp add: fits_relay_def empty_ring_def)
  have "comes_whole ?evs ?m"
    unfolding comes_whole_def
    by (rule exI [of _ "[]"], rule exI [of _ "arrives [0, 0, 0, 3]"], rule exI [of _ "[arrives [0xFF, 0x53, 0x4D]]"],
        rule exI [of _ "[[0xFF, 0x53, 0x4D]]"]) (simp add: arrives_offers arrives_takes_all)
  then have whole: "list_all2 comes_whole [?evs] [?m]" by simp
  have chk: "\<exists>l. message_check True 0 False ?m rest = Returns (-1, l)" for rest
    by (simp add: message_check_def smbproto_packet_def smbproto_v1_packet_def mem_byte_def sizeof_defs)
  from relay_filters_messages [OF ring whole fits, of True 0 False] obtain rests where
    r: "list_all2 (behind ?r) [?m] rests"
      "observed (dir_run True 0 False ?evs (start_dir ?r)) = forward_checked (checks True 0 False [?m] rests)" by auto
  then obtain rest where "rests = [rest]" by (auto simp: list_all2_Cons1)
  moreover obtain l where "message_check True 0 False ?m rest = Returns (-1, l)" using chk by blast
  ultimately show ?thesis using r(2) by (simp add: checks_def)
qed

text \<open>A message in two reads: its header and its body.\<close>

lemma comes_in_two:
  assumes "4 < length m"
  shows "comes_whole [arrives (take 4 m), arrives (drop 4 m)] m"
proof -
  have "brings (arrives (take 4 m)) (take 4 m)" "brings (arrives (drop 4 m)) (drop 4 m)"
    using assms by (auto simp: brings_def arrives_def)
  then show ?thesis
    unfolding comes_whole_def using assms
    by (intro exI [of _ "[]"] exI [of _ "arrives (take 4 m)"] exI [of _ "[arrives (drop 4 m)]"]
        exI [of _ "[drop 4 m]"]) (auto simp: offers_def intro: arrives_takes_all)
qed

text \<open>A message that the checks accept, whatever the ring holds behind it.\<close>

definition vetted :: "ioring \<Rightarrow> bool \<Rightarrow> int \<Rightarrow> bool \<Rightarrow> u8 list \<Rightarrow> bool" where
  "vetted ring c ord pass m \<longleftrightarrow>
     (\<forall>rest. behind ring m rest \<longrightarrow> (\<exists>l. message_check c ord pass m rest = Returns (0, l)))"

lemma forward_vetted:
  "list_all2 (behind ring) ms rests \<Longrightarrow> \<forall>m \<in> set ms. vetted ring c ord pass m \<Longrightarrow>
   forward_checked (checks c ord pass ms rests) = Returns (0, concat ms, concat ms)"
proof (induction ms rests rule: list_all2_induct)
  case (Cons m ms rest rests)
  then have "vetted ring c ord pass m" by simp
  then obtain l where "message_check c ord pass m rest = Returns (0, l)" unfolding vetted_def using Cons.hyps(1) by blast
  with Cons show ?case by (simp add: checks_def)
qed (simp add: checks_def)

lemma messages_delivered:
  assumes "fresh_ring ring" "list_all2 comes_whole evss ms"
    and "\<forall>m \<in> set ms. fits_relay ring m \<and> vetted ring c ord pass m"
  shows "\<exists>ring'. dir_run c ord pass (concat evss) (start_dir ring) = Returns (0, start_dir ring', concat ms, concat ms) \<and>
    fresh_ring ring' \<and> r_size ring' = r_size ring"
proof -
  let ?run = "dir_run c ord pass (concat evss) (start_dir ring)"
  obtain rests where "list_all2 (behind ring) ms rests"
      "observed ?run = forward_checked (checks c ord pass ms rests)" "ready_again ring ?run"
    using messages_filtered [OF assms(1,2)] assms(3) by metis
  with forward_vetted [of ring ms rests c ord pass] assms(3) show ?thesis
    by (cases ?run) (auto simp: observed_def ready_again_def)
qed

text \<open>
  Messages get through: any sequence of non-empty messages that fit the ring and the length
  check, each with its header in one read and its bytes in any number of reads, with any waits, is
  read whole and written whole, provided that the other socket takes them and that the checks, when
  they are on, accept each message; the direction ends as it began.
\<close>

theorem relay_delivers_messages:
  assumes "fresh_ring ring" "list_all2 comes_whole evss ms"
    and "\<forall>m \<in> set ms. fits_relay ring m \<and> vetted ring isclient ord pass m"
  shows "\<exists>ring'. dir_run isclient ord pass (concat evss) (start_dir ring) =
      Returns (0, start_dir ring', concat ms, concat ms) \<and> fresh_ring ring' \<and> r_size ring' = r_size ring"
  using assms by (rule messages_delivered)

theorem relay_delivers_messages_witness:
  "\<exists>ring'. dir_run True 0 True [idle, arrives [0, 0, 0, 3], arrives [5], idle, arrives [6, 7]]
      (start_dir (empty_ring (replicate 16 0))) =
    Returns (0, start_dir ring', [0, 0, 0, 3, 5, 6, 7], [0, 0, 0, 3, 5, 6, 7])"
proof -
  let ?m = "[0, 0, 0, 3, 5, 6, 7] :: u8 list"
  have ring: "fresh_ring (empty_ring (replicate 16 0))"
    by (rule empty_ring_fresh) (simp_all add: int_max_def)
  have "is_message ?m" by code_simp
  then have fits: "\<forall>m \<in> set [?m]. fits_relay (empty_ring (replicate 16 0)) m \<and>
      vetted (empty_ring (replicate 16 0)) True 0 True m"
    by (simp add: fits_relay_def empty_ring_def vetted_def message_check_def)
  have "comes_whole [idle, arrives [0, 0, 0, 3], arrives [5], idle, arrives [6, 7]] ?m"
    unfolding comes_whole_def
    by (rule exI [of _ "[idle]"], rule exI [of _ "arrives [0, 0, 0, 3]"],
        rule exI [of _ "[arrives [5], idle, arrives [6, 7]]"], rule exI [of _ "[[5], [], [6, 7]]"])
      (simp add: arrives_offers arrives_takes_all idle_def [THEN arg_cong [of _ _ ev_select]])
  then have "list_all2 comes_whole [[idle, arrives [0, 0, 0, 3], arrives [5], idle, arrives [6, 7]]] [?m]"
    by simp
  from relay_delivers_messages [OF ring this fits] show ?thesis by auto
qed

section \<open>The checks only stop\<close>

lemma relay_body_unchecked:
  assumes "relay_body c ord False ev d ring got = Returns h" "h_result h = 0"
  shows "relay_body c ord True ev d ring got = Returns (h\<lparr>h_log := []\<rparr>)"
proof (cases "normalize_ring ring None")
  case (Some ring1)
  obtain ioptr chunk where p: "butil_ring_contiguous_read_ptr ring1 = (ioptr, chunk)"
    by (cases "butil_ring_contiguous_read_ptr ring1")
  from assms Some p obtain l where
    "smbproto_packet c ord (drop (nat (ioptr + 4)) (r_data ring1)) (chunk - 4) = Returns (0, l)"
    by (auto simp: relay_body_def split: outcome.splits if_splits)
  with assms(1) Some p show ?thesis
    by (auto simp: relay_body_def split: if_splits option.splits prod.splits)
qed (use assms in \<open>simp add: relay_body_def\<close>)

lemma relay_received_unchecked:
  assumes "relay_received c ord False ev d ring ioptr got = Returns h" "h_result h = 0"
  shows "relay_received c ord True ev d ring ioptr got = Returns (h\<lparr>h_log := []\<rparr>)"
proof -
  have "relay_header d ring ioptr got = Returns h \<Longrightarrow> h\<lparr>h_log := []\<rparr> = h"
    by (auto simp: relay_header_def split: option.splits if_splits)
  with assms show ?thesis
    by (auto simp: relay_received_def relay_body_unchecked split: if_splits)
qed

lemma relay_half_unchecked:
  assumes "relay_half c ord False ev d = Returns h" "h_result h = 0"
  shows "relay_half c ord True ev d = Returns (h\<lparr>h_log := []\<rparr>)"
  using assms
  by (auto simp: relay_half_def Let_def relay_received_unchecked split: prod.splits option.splits if_splits)

lemma dir_run_unchecked:
  "dir_run c ord False evs d = Returns (0, d', got, sent) \<Longrightarrow> dir_run c ord True evs d = Returns (0, d', got, sent)"
proof (induction evs arbitrary: d got sent)
  case (Cons ev evs)
  then show ?case
    by (force simp: dir_run_Cons_0 dest: relay_half_unchecked)
qed simp

text \<open>
  C11: The checks change nothing but whether a connection goes on: a run with the checks on that was
  not broken off reads and writes the same bytes, and ends in the same state, as the run in
  passthrough on the same sockets.
\<close>

theorem relay_checks_transparent:
  assumes "relay_loop ord False evs c io = Returns (0, c', io')"
  shows "relay_loop ord True evs c io = Returns (0, c', io')"
  using assms by (auto simp: relay_loop_dirs dest!: dir_run_unchecked)

theorem relay_checks_transparent_witness:
  "\<exists>c io. relay_loop 0 True [(arrives [0, 0, 0, 64], idle), (arrives (smb2_magic @ replicate 60 0), idle)]
      (start_conn (empty_ring (replicate 80 0)) (empty_ring (replicate 80 0))) no_io = Returns (0, c, io) \<and>
    to_server io = [0, 0, 0, 64] @ smb2_magic @ replicate 60 0"
proof -
  let ?evs = "[(arrives [0, 0, 0, 64], idle), (arrives (smb2_magic @ replicate 60 0), idle)]"
    and ?c = "start_conn (empty_ring (replicate 80 0)) (empty_ring (replicate 80 0))"
  have "case relay_loop 0 False ?evs ?c no_io of
      Returns (r, c, io) \<Rightarrow> r = 0 \<and> to_server io = [0, 0, 0, 64] @ smb2_magic @ replicate 60 0 | _ \<Rightarrow> False"
    by code_simp
  then obtain c io where "relay_loop 0 False ?evs ?c no_io = Returns (0, c, io)"
      "to_server io = [0, 0, 0, 64] @ smb2_magic @ replicate 60 0"
    by (auto split: outcome.splits)
  with relay_checks_transparent [OF this(1)] show ?thesis by blast
qed

end
