(* ===== verification/Sessions.thy ===== *)
theory Sessions
  imports Pool Framing
begin

text \<open>
  One connection inside the running gateway. Between the connect to the server and the close of the
  client, the turns a context's thread takes are those of the relay loop on its own, however the
  accept loop and the other threads are interleaved with them, so that what \<open>Gateway\<close> and
  \<open>Framing\<close> show of the loop holds of every connection of the gateway. The last section is the
  race between main and the thread for the mode of a new connection.
\<close>

section \<open>The relay loop in pieces\<close>

text \<open>What a turn reads and writes is added to what was read and written before.\<close>

definition add_io :: "relay_io \<Rightarrow> relay_io \<Rightarrow> relay_io" where
  "add_io a b = \<lparr>from_client = from_client a @ from_client b, to_server = to_server a @ to_server b,
     from_server = from_server a @ from_server b, to_client = to_client a @ to_client b\<rparr>"

lemma add_io_simps [simp]:
  "add_io (add_io a b) c = add_io a (add_io b c)" "add_io a no_io = a" "add_io no_io a = a"
  by (cases a; cases b; cases c; simp add: add_io_def no_io_def)+

lemma half_io: "client_io h (add_io a b) = add_io a (client_io h b)" "server_io h (add_io a b) = add_io a (server_io h b)"
  by (simp_all add: client_io_def server_io_def add_io_def)

lemma relay_loop_add:
  "relay_loop ord pass evs c (add_io a b) =
   map_outcome (\<lambda>(r, c', io). (r, c', add_io a io)) (relay_loop ord pass evs c b)"
proof (induction evs arbitrary: c b)
  case (Cons e evs)
  obtain ec es where e: "e = (ec, es)" by (cases e)
  show ?case
    by (cases "client_half ord pass ec (c_client c)"; cases "server_half ord pass es (c_server c)")
      (simp_all add: e Let_def half_io Cons.IH)
qed simp

lemma relay_loop_Cons:
  "relay_loop ord pass (e # evs) c no_io =
     (case relay_loop ord pass [e] c no_io of
        Returns (r, c1, io1) \<Rightarrow>
          if r \<noteq> 0 then Returns (r, c1, io1)
          else map_outcome (\<lambda>(r, c', io). (r, c', add_io io1 io)) (relay_loop ord pass evs c1 no_io)
      | x \<Rightarrow> x)"
proof -
  obtain ec es where e: "e = (ec, es)" by (cases e)
  have seq: "relay_loop ord pass evs c1 io1 =
      map_outcome (\<lambda>(r, c', io). (r, c', add_io io1 io)) (relay_loop ord pass evs c1 no_io)" for c1 io1
    using relay_loop_add [of ord pass evs c1 io1 no_io] by simp
  show ?thesis
    by (cases "client_half ord pass ec (c_client c)"; cases "server_half ord pass es (c_server c)")
      (simp_all add: e Let_def seq [symmetric])
qed

lemma relay_loop_Cons_io:
  assumes "relay_loop ord pass [e] c no_io = Returns (r, c', io)"
  shows "r \<noteq> 0 \<Longrightarrow> relay_loop ord pass (e # evs) c no_io = Returns (r, c', io)"
    "r = 0 \<Longrightarrow> relay_loop ord pass evs c' no_io = Returns (r', c'', io') \<Longrightarrow>
      relay_loop ord pass (e # evs) c no_io = Returns (r', c'', add_io io io')"
  using assms by (simp_all add: relay_loop_Cons [of ord pass e evs])

lemma relay_loop_Cons_0:
  assumes "relay_loop ord pass (e # evs) c no_io = Returns (0, c', io)"
  obtains c1 io1 io2 where "relay_loop ord pass [e] c no_io = Returns (0, c1, io1)"
    "relay_loop ord pass evs c1 no_io = Returns (0, c', io2)"
proof (cases "relay_loop ord pass [e] c no_io")
  case (Returns x)
  obtain r c1 io1 where "x = (r, c1, io1)" by (cases x)
  with Returns assms that show thesis
    by (cases "relay_loop ord pass evs c1 no_io")
      (auto simp: relay_loop_Cons [of ord pass e evs] split: if_splits)
qed (use assms in \<open>auto simp: relay_loop_Cons [of ord pass e evs]\<close>)

text \<open>While the server is silent, the loop is the client's direction.\<close>

lemma relay_loop_silent:
  assumes "c_server c = start_dir sr" "fresh_ring sr" "\<forall>e \<in> set evs. ev_select (snd e) = 0"
  shows "relay_loop ord pass evs c io =
    map_outcome (\<lambda>(r, d, g, s). (r, c\<lparr>c_client := d\<rparr>,
        io\<lparr>from_client := from_client io @ g, to_server := to_server io @ s\<rparr>))
      (dir_run True ord pass (map fst evs) (c_client c))"
  using assms(1,3)
proof (induction evs arbitrary: c io)
  case (Cons e evs)
  obtain ec es where e: "e = (ec, es)" by (cases e)
  have srv: "server_half ord pass es (start_dir sr) =
      Returns \<lparr>h_result = 0, h_dir = start_dir sr, h_recv = [], h_sent = [], h_log = []\<rparr>"
    unfolding server_half_def using Cons.prems(2) assms(2) e
    by (intro relay_half_idle start_dir_ok) (simp_all add: start_dir_def fresh_ring_def)
  show ?case
  proof (cases "relay_half True ord pass ec (c_client c)")
    case (Returns h)
    show ?thesis
    proof (cases "h_result h = 0")
      case True
      have same: "c\<lparr>c_client := h_dir h, c_server := start_dir sr, c_client := d\<rparr> = c\<lparr>c_client := d\<rparr>" for d
        using Cons.prems(1) by (cases c) simp
      have "relay_loop ord pass evs (c\<lparr>c_client := h_dir h, c_server := start_dir sr\<rparr>) io' =
          map_outcome (\<lambda>(r, d, g, s). (r, c\<lparr>c_client := d\<rparr>,
              io'\<lparr>from_client := from_client io' @ g, to_server := to_server io' @ s\<rparr>))
            (dir_run True ord pass (map fst evs) (h_dir h))" for io'
        using Cons.IH [of "c\<lparr>c_client := h_dir h, c_server := start_dir sr\<rparr>" io', unfolded same] Cons.prems by simp
      then show ?thesis
        using Returns True srv Cons.prems(1)
        by (cases "dir_run True ord pass (map fst evs) (h_dir h)")
          (auto simp: e client_half_def client_io_def server_io_def dir_run.simps(2) Let_def)
    qed (use Returns in \<open>simp add: e client_half_def client_io_def dir_run.simps(2) Let_def\<close>)
  qed (simp_all add: e client_half_def dir_run.simps(2))
qed simp

section \<open>One context among the others\<close>

text \<open>The turns of a context's thread in a run of the gateway.\<close>

fun relay_events :: "nat \<Rightarrow> pool_event list \<Rightarrow> (io_event \<times> io_event) list" where
  "relay_events i [] = []"
| "relay_events i (e # es) =
     (case e of
        Relay j ec es' \<Rightarrow> if j = i then (ec, es') # relay_events i es else relay_events i es
      | Hang j ec es' \<Rightarrow> if j = i then (ec, es') # relay_events i es else relay_events i es
      | _ \<Rightarrow> relay_events i es)"

definition conn_of :: "slot \<Rightarrow> relay_conn" where
  "conn_of sl =
     (case pc sl of
        Relaying cs cr ss sr \<Rightarrow> slot_conn (ctx sl) cs cr ss sr
      | _ \<Rightarrow> slot_conn (ctx sl) psHeader 4 psHeader 4)"

text \<open>A context that relays and whose mode has been stored.\<close>

definition serving :: "pool \<Rightarrow> nat \<Rightarrow> bool" where
  "serving p i \<longleftrightarrow> i < length (slots p) \<and> relaying (pc (slots p ! i)) \<and> main_at p \<noteq> SettingMode i"

lemma relaying_client:
  "slot_ok sl \<Longrightarrow> relaying (pc sl) \<Longrightarrow> client_socket (ctx sl) \<noteq> INVALID_SOCKET"
  by (cases "pc sl") (simp_all add: slot_ok_def Let_def)

text \<open>No step of main or of another thread touches it.\<close>

lemma serving_undisturbed:
  assumes ok: "pool_ok p" and s: "serving p i" and step: "pool_step mode p e p'"
    and e: "\<forall>ec es. e \<noteq> Relay i ec es \<and> e \<noteq> Hang i ec es"
  shows "serving p' i \<and> slots p' ! i = slots p ! i"
proof -
  have i: "i < length (slots p)" "relaying (pc (slots p ! i))" "main_at p \<noteq> SettingMode i"
    using s by (auto simp: serving_def)
  note client = relaying_client [OF pool_ok_slot(1) [OF ok i(1)] i(2)]
  have main: "main_ok (slots p) (main_at p)" using ok by (simp add: pool_ok_def)
  have "\<forall>s. main_at p \<noteq> Publishing i s"
    using main client by auto
  with step show ?thesis
    by cases (use i client e in \<open>auto simp: serving_def first_free_def nth_list_update\<close>)
qed

lemma serving_turn:
  assumes s: "serving p i" and step: "pool_step mode p (Relay i ec es) p'"
  obtains r conn io where
    "relay_loop (ordinal (ctx (slots p ! i))) (passthrough (ctx (slots p ! i))) [(ec, es)]
       (conn_of (slots p ! i)) no_io = Returns (r, conn, io)"
    "slots p' ! i = slot_after (ctx (slots p ! i)) r conn" "i < length (slots p')" "main_at p' = main_at p"
    "r = 0 \<Longrightarrow> serving p' i"
proof -
  have i: "i < length (slots p)" "main_at p \<noteq> SettingMode i" using s by (auto simp: serving_def)
  from step show thesis
  proof cases
    case (relay sl cs cr ss sr r conn io)
    then show thesis
      using i that [of r conn io] by (simp add: serving_def slot_after_def conn_of_def)
  qed
qed

text \<open>A context that has left the loop waits for the close of its client.\<close>

lemma closing_run:
  assumes "runs (pool_step mode) p es p'" "i < length (slots p)" "pc (slots p ! i) = ClosingClient"
    and "main_at p \<noteq> SettingMode i" "pool_ok p" "CloseClient i \<notin> set es"
  shows "relay_events i es = [] \<and> slots p' ! i = slots p ! i"
  using assms
proof (induction rule: runs.induct)
  case (runs_more p e p1 es p')
  have slot: "slot_ok (slots p ! i)" by (rule pool_ok_slot(1) [OF runs_more.prems(4,1)])
  then have client: "client_socket (ctx (slots p ! i)) \<noteq> INVALID_SOCKET"
    using runs_more.prems(2) by (simp add: slot_ok_def Let_def)
  have main: "main_ok (slots p) (main_at p)" using runs_more.prems(4) by (simp add: pool_ok_def)
  have "\<forall>s. main_at p \<noteq> Publishing i s" using main client by auto
  with runs_more.hyps(1) have "length (slots p1) = length (slots p) \<and> slots p1 ! i = slots p ! i \<and>
      main_at p1 \<noteq> SettingMode i \<and> relay_events i (e # es) = relay_events i es"
    by cases (use runs_more.prems client in \<open>auto simp: first_free_def nth_list_update\<close>)
  with runs_more.IH runs_more.prems pool_turns.step_keeps [OF runs_more.prems(4) runs_more.hyps(1)]
  show ?case by simp
qed simp

lemma slot_after_again:
  "slot_after (ctx (slot_after c r conn)) r' conn' = slot_after c r' conn'"
  "ordinal (ctx (slot_after c r conn)) = ordinal c" "passthrough (ctx (slot_after c r conn)) = passthrough c"
  "conn_of (slot_after c 0 conn) = conn"
  by (cases conn; cases "c_client conn"; cases "c_server conn"; simp add: slot_after_def slot_conn_def conn_of_def)+

lemma slot_after_self: "relaying (pc sl) \<Longrightarrow> slot_after (ctx sl) 0 (conn_of sl) = sl"
  by (cases sl; cases "pc sl") (auto simp: slot_after_def slot_conn_def conn_of_def)

text \<open>How a context ends up when its thread has taken the turns of a loop with the given outcome.\<close>

fun session_end :: "slot \<Rightarrow> (int \<times> relay_conn \<times> relay_io) outcome \<Rightarrow> slot \<Rightarrow> bool" where
  "session_end sl Faults sl' = False"
| "session_end sl Diverges sl' = (pc sl' = Stuck \<and> sockets_of sl' = sockets_of sl)"
| "session_end sl (Returns (r, conn, io)) sl' = (sl' = slot_after (ctx sl) r conn)"

lemma session_end_after:
  "session_end (slot_after (ctx sl) r conn) out sl' = session_end sl out sl'"
  "session_end sl (map_outcome (\<lambda>(r, conn, io). (r, conn, f io)) out) sl' = session_end sl out sl'"
  by (cases "(sl, out, sl')" rule: session_end.cases;
      simp add: slot_after_again sockets_of_def slot_after_def)+

lemma stuck_events:
  "runs (pool_step mode) p es p' \<Longrightarrow> pool_ok p \<Longrightarrow> stuck p i \<Longrightarrow> relay_events i es = []"
proof (induction rule: runs.induct)
  case (runs_more p e p1 es p')
  note s = stuck_step [OF runs_more.prems runs_more.hyps(1)] pool_turns.step_keeps [OF runs_more.prems(1) runs_more.hyps(1)]
  from runs_more.hyps(1) have "relay_events i (e # es) = relay_events i es"
    by cases (use runs_more.prems(2) in \<open>auto simp: stuck_def\<close>)
  with s runs_more.IH show ?case by simp
qed simp

lemma serving_hang:
  assumes "serving p i" "pool_step mode p (Hang i ec es) p'"
  shows "relay_loop (ordinal (ctx (slots p ! i))) (passthrough (ctx (slots p ! i))) [(ec, es)]
      (conn_of (slots p ! i)) no_io = Diverges"
    "stuck p' i" "sockets_of (slots p' ! i) = sockets_of (slots p ! i)"
  using assms(2) by (cases; simp add: conn_of_def stuck_def sockets_of_def)+

lemma serving_run:
  assumes "runs (pool_step mode) p es p'" "serving p i" "pool_ok p" "CloseClient i \<notin> set es"
  shows "session_end (slots p ! i) (relay_loop (ordinal (ctx (slots p ! i))) (passthrough (ctx (slots p ! i)))
      (relay_events i es) (conn_of (slots p ! i)) no_io) (slots p' ! i)"
  using assms
proof (induction rule: runs.induct)
  case (runs_none p)
  then show ?case using slot_after_self [of "slots p ! i"] by (simp add: serving_def)
next
  case (runs_more p e p1 es p')
  let ?c = "ctx (slots p ! i)"
  note ok = pool_turns.step_keeps [OF runs_more.prems(2) runs_more.hyps(1)]
  consider (turn) ec es' where "e = Relay i ec es'" | (hang) ec es' where "e = Hang i ec es'"
    | (other) "\<forall>ec es. e \<noteq> Relay i ec es \<and> e \<noteq> Hang i ec es" by blast
  then show ?case
  proof cases
    case other
    then have "relay_events i (e # es) = relay_events i es" by (cases e) auto
    with other serving_undisturbed [OF runs_more.prems(2,1) runs_more.hyps(1)] runs_more.IH [OF _ ok]
      runs_more.prems(3) show ?thesis by auto
  next
    case hang
    note h = serving_hang [OF runs_more.prems(1) runs_more.hyps(1) [unfolded hang]]
    have "relay_events i es = []" "stuck p' i" "sockets_of (slots p' ! i) = sockets_of (slots p ! i)"
      using stuck_events [OF runs_more.hyps(2) ok h(2)] stuck_run [OF runs_more.hyps(2) ok h(2)] h(3) by auto
    with h(1) show ?thesis by (simp add: hang stuck_def del: relay_loop.simps)
  next
    case turn
    obtain r conn io where t: "relay_loop (ordinal ?c) (passthrough ?c) [(ec, es')] (conn_of (slots p ! i)) no_io =
          Returns (r, conn, io)" "slots p1 ! i = slot_after ?c r conn" "i < length (slots p1)"
        "main_at p1 = main_at p" "r = 0 \<Longrightarrow> serving p1 i"
      using serving_turn [OF runs_more.prems(1) runs_more.hyps(1) [unfolded turn]] by metis
    note Cons = relay_loop_Cons [of "ordinal ?c" "passthrough ?c" "(ec, es')" "relay_events i es"
        "conn_of (slots p ! i)", unfolded t(1)]
    show ?thesis
    proof (cases "r = 0")
      case True
      then have "session_end (slots p ! i) (relay_loop (ordinal ?c) (passthrough ?c) (relay_events i es) conn no_io)
          (slots p' ! i)"
        using runs_more.IH [OF t(5) ok] runs_more.prems(3) t(2) by (simp add: slot_after_again session_end_after(1))
      with True Cons show ?thesis by (simp add: turn session_end_after(2) del: relay_loop.simps)
    next
      case False
      then have "pc (slots p1 ! i) = ClosingClient" "main_at p1 \<noteq> SettingMode i"
        using t(2,4) runs_more.prems(1) by (simp_all add: slot_after_def serving_def)
      with closing_run [OF runs_more.hyps(2) t(3) _ _ ok] runs_more.prems(3)
      have "relay_events i es = []" "slots p' ! i = slots p1 ! i" by auto
      with Cons t(1,2) False show ?thesis by (simp add: turn del: relay_loop.simps)
    qed
  qed
qed

text \<open>Conversely, the thread can take the turns of every run of the loop, one after the other.\<close>

lemma serving_can_turn:
  assumes "serving p i"
  shows "relay_loop (ordinal (ctx (slots p ! i))) (passthrough (ctx (slots p ! i))) [(ec, es)]
      (conn_of (slots p ! i)) no_io = Returns (0, conn, io) \<Longrightarrow>
    \<exists>p1. pool_step mode p (Relay i ec es) p1 \<and> serving p1 i \<and>
      slots p1 ! i = slot_after (ctx (slots p ! i)) 0 conn \<and> main_at p1 = main_at p"
    "relay_loop (ordinal (ctx (slots p ! i))) (passthrough (ctx (slots p ! i))) [(ec, es)]
      (conn_of (slots p ! i)) no_io = Diverges \<Longrightarrow>
    \<exists>p1. pool_step mode p (Hang i ec es) p1 \<and> stuck p1 i \<and> main_at p1 = main_at p"
proof -
  let ?c = "ctx (slots p ! i)"
  let ?turn = "relay_loop (ordinal ?c) (passthrough ?c) [(ec, es)] (conn_of (slots p ! i)) no_io"
  obtain cs cr ss sr where pc: "pc (slots p ! i) = Relaying cs cr ss sr" and i: "i < length (slots p)"
    using assms(1) by (cases "pc (slots p ! i)") (auto simp: serving_def)
  show "\<exists>p1. pool_step mode p (Relay i ec es) p1 \<and> serving p1 i \<and> slots p1 ! i = slot_after ?c 0 conn \<and>
      main_at p1 = main_at p"
    if "?turn = Returns (0, conn, io)"
  proof (intro exI conjI)
    show "pool_step mode p (Relay i ec es) (upd_slot i (slot_after ?c 0 conn) p)"
      using that pc
      by (intro pool_step.relay [OF i refl pc]) (simp add: conn_of_def del: relay_loop.simps)
  qed (use assms(1) i in \<open>simp_all add: serving_def slot_after_def\<close>)
  show "\<exists>p1. pool_step mode p (Hang i ec es) p1 \<and> stuck p1 i \<and> main_at p1 = main_at p" if "?turn = Diverges"
  proof (intro exI conjI)
    show "pool_step mode p (Hang i ec es) (upd_slot i ((slots p ! i)\<lparr>pc := Stuck\<rparr>) p)"
      using that pc
      by (intro pool_step.hang [OF i refl pc]) (simp add: conn_of_def del: relay_loop.simps)
  qed (use i in \<open>simp_all add: stuck_def\<close>)
qed

lemma serving_can_run:
  assumes "serving p i"
    and "relay_loop (ordinal (ctx (slots p ! i))) (passthrough (ctx (slots p ! i))) evs (conn_of (slots p ! i)) no_io =
      Returns (0, conn, io)"
  shows "\<exists>p'. runs (pool_step mode) p (map (\<lambda>(ec, es). Relay i ec es) evs) p'"
  using assms
proof (induction evs arbitrary: p io)
  case (Cons e evs)
  let ?c = "ctx (slots p ! i)"
  obtain ec es where e: "e = (ec, es)" by (cases e)
  obtain c1 io1 io2 where t: "relay_loop (ordinal ?c) (passthrough ?c) [e] (conn_of (slots p ! i)) no_io = Returns (0, c1, io1)"
      "relay_loop (ordinal ?c) (passthrough ?c) evs c1 no_io = Returns (0, conn, io2)"
    using relay_loop_Cons_0 [OF Cons.prems(2)] by metis
  obtain p1 where p1: "pool_step mode p (Relay i ec es) p1" "serving p1 i" "slots p1 ! i = slot_after ?c 0 c1"
    using serving_can_turn(1) [OF Cons.prems(1) t(1) [unfolded e]] by blast
  from Cons.IH [OF p1(2), of io2] t(2) obtain p' where
      "runs (pool_step mode) p1 (map (\<lambda>(ec, es). Relay i ec es) evs) p'"
    by (auto simp: p1(3) slot_after_again)
  with p1(1) show ?case by (auto simp: e intro: runs_more)
qed auto

lemma serving_can_hang:
  assumes "serving p i"
    and "relay_loop (ordinal (ctx (slots p ! i))) (passthrough (ctx (slots p ! i))) evs (conn_of (slots p ! i)) no_io =
      Diverges"
  shows "\<exists>es n p'. runs (pool_step mode) p es p' \<and> relay_events i es = take n evs \<and> stuck p' i \<and>
    main_at p' = main_at p"
  using assms
proof (induction evs arbitrary: p)
  case (Cons e evs)
  let ?c = "ctx (slots p ! i)"
  obtain ec es where e: "e = (ec, es)" by (cases e)
  show ?case
  proof (cases "relay_loop (ordinal ?c) (passthrough ?c) [e] (conn_of (slots p ! i)) no_io")
    case Diverges
    then obtain p1 where "pool_step mode p (Hang i ec es) p1" "stuck p1 i" "main_at p1 = main_at p"
      using serving_can_turn(2) [OF Cons.prems(1)] e by blast
    then show ?thesis by (intro exI [of _ "[Hang i ec es]"] exI [of _ 1]) (auto simp: runs_Cons e)
  next
    case (Returns x)
    then obtain c1 io1 where t: "x = (0, c1, io1)"
        "relay_loop (ordinal ?c) (passthrough ?c) evs c1 no_io = Diverges"
      using Cons.prems(2) unfolding relay_loop_Cons [of _ _ e evs]
      by (cases x; cases "relay_loop (ordinal ?c) (passthrough ?c) evs (fst (snd x)) no_io") (auto split: if_splits)
    obtain p1 where p1: "pool_step mode p (Relay i ec es) p1" "serving p1 i" "slots p1 ! i = slot_after ?c 0 c1"
        "main_at p1 = main_at p"
      using serving_can_turn(1) [OF Cons.prems(1) Returns [unfolded e t(1)]] by blast
    from Cons.IH [OF p1(2)] t(2) obtain es' n p' where
        "runs (pool_step mode) p1 es' p'" "relay_events i es' = take n evs" "stuck p' i"
        "main_at p' = main_at p1"
      by (auto simp: p1(3) slot_after_again)
    with p1(1,4) show ?thesis
      by (intro exI [of _ "Relay i ec es # es'"] exI [of _ "Suc n"] exI [of _ p']) (auto simp: e intro: runs_more)
  qed (use Cons.prems(2) relay_loop_Cons [of _ _ e evs] in auto)
qed simp

text \<open>A turn that stays inside its buffers is a step, to its end or for ever.\<close>

lemma turn_possible:
  assumes "i < length (slots p)" "relaying (pc (slots p ! i))"
    and "relay_loop (ordinal (ctx (slots p ! i))) (passthrough (ctx (slots p ! i))) [(ec, es)]
      (conn_of (slots p ! i)) no_io \<noteq> Faults"
  shows "\<exists>p'. pool_step mode p (Relay i ec es) p' \<or> pool_step mode p (Hang i ec es) p'"
proof -
  let ?c = "ctx (slots p ! i)"
  obtain cs cr ss sr where pc: "pc (slots p ! i) = Relaying cs cr ss sr"
    using assms(2) by (cases "pc (slots p ! i)") auto
  then have conn: "conn_of (slots p ! i) = slot_conn ?c cs cr ss sr" by (simp add: conn_of_def)
  show ?thesis
  proof (cases "relay_loop (ordinal ?c) (passthrough ?c) [(ec, es)] (conn_of (slots p ! i)) no_io")
    case (Returns x)
    then obtain r conn' io where "relay_loop (ordinal ?c) (passthrough ?c) [(ec, es)] (slot_conn ?c cs cr ss sr) no_io =
        Returns (r, conn', io)"
      by (cases x) (simp only: conn)
    from pool_step.relay [OF assms(1) refl pc this, of mode] show ?thesis by blast
  next
    case Diverges
    then have "relay_loop (ordinal ?c) (passthrough ?c) [(ec, es)] (slot_conn ?c cs cr ss sr) no_io = Diverges"
      by (simp only: conn)
    from pool_step.hang [OF assms(1) refl pc this, of mode] show ?thesis by blast
  qed (use assms(3) in simp)
qed

text \<open>A thread that has connected to the server starts to relay with empty rings.\<close>

lemma connected_serving:
  assumes "pool_ok q" "pool_step mode q (Connect i s) p" "main_at q \<noteq> SettingMode i"
  defines "c \<equiv> ctx (slots p ! i)"
  shows "serving p i" "conn_of (slots p ! i) = start_conn (client_ring c) (server_ring c)"
    "fresh_ring (client_ring c)" "fresh_ring (server_ring c)"
proof -
  have q: "i < length (slots q)" "pc (slots q ! i) = Waiting" "client_socket (ctx (slots q ! i)) \<noteq> INVALID_SOCKET"
    "slots p ! i = \<lparr>ctx = (ctx (slots q ! i))\<lparr>server_socket := s\<rparr>, pc = Relaying psHeader 4 psHeader 4\<rparr>"
    "length (slots p) = length (slots q)" "main_at p = main_at q"
    using assms(2) by (auto simp: step_connect)
  then have "both_fresh (ctx (slots q ! i))"
    using pool_ok_slot(1) [OF assms(1) q(1)] by (auto simp: slot_ok_def Let_def)
  then show "fresh_ring (client_ring c)" "fresh_ring (server_ring c)"
    by (simp_all add: c_def q(4) both_fresh_def)
  show "serving p i" using q assms(3) by (simp add: serving_def)
  show "conn_of (slots p ! i) = start_conn (client_ring c) (server_ring c)"
    by (simp add: c_def q(4) conn_of_def slot_conn_def start_conn_def start_dir_def)
qed

lemma reach_runs_on: "runs (pool_step mode) p es p' \<Longrightarrow> reach mode cs p \<Longrightarrow> reach mode cs p'"
  by (induction rule: runs.induct) (auto intro: reach.more)

text \<open>
  C3: A connection inside the gateway is the relay loop and nothing else: from any reachable state in
  which a context relays and its mode is stored, whatever main and the other threads do in between,
  the turns of its thread up to the close of its client are those of the loop on its own:
  they leave the context in the state the loop returns, or stuck, with its sockets, exactly when the
  loop never returns; and every run of the loop that goes on is possible there, as is every endless
  turn.
\<close>

theorem pool_session_is_relay:
  assumes "reach mode cs p" "gateway_ready cs" "serving p i"
    and "runs (pool_step mode) p es p'" "CloseClient i \<notin> set es"
  defines "loop \<equiv> \<lambda>evs. relay_loop (ordinal (ctx (slots p ! i))) (passthrough (ctx (slots p ! i)))
    evs (conn_of (slots p ! i)) no_io"
  shows "session_end (slots p ! i) (loop (relay_events i es)) (slots p' ! i) \<and>
    (\<forall>evs conn io. loop evs = Returns (0, conn, io) \<longrightarrow>
      (\<exists>p''. runs (pool_step mode) p (map (\<lambda>(ec, es). Relay i ec es) evs) p'')) \<and>
    (\<forall>evs. loop evs = Diverges \<longrightarrow>
      (\<exists>es n p''. runs (pool_step mode) p es p'' \<and> relay_events i es = take n evs \<and> stuck p'' i))"
  using serving_run [OF assms(4,3) reach_pool_ok [OF assms(1,2)] assms(5)] serving_can_run [OF assms(3)]
    serving_can_hang [OF assms(3)]
  unfolding loop_def by blast

theorem pool_session_is_relay_witness:
  "\<exists>p'. runs (pool_step False) (two_relays\<lparr>main_at := Accepting\<rparr>) [Relay 1 (arrives [0, 0, 0, 2]) idle] p'"
proof -
  let ?p = "two_relays\<lparr>main_at := Accepting\<rparr>" and ?evs = "[(arrives [0, 0, 0, 2], idle)]"
  have "pool_step False two_relays SetMode ?p"
    by (simp add: step_simps two_relays_def upd_slot_def sample_ctx_def zero_ctx_def)
  then have r: "reach False [sample_ctx, sample_ctx\<lparr>ordinal := 1\<rparr>] ?p"
    by (rule reach.more [OF reach_two_relays])
  have s: "serving ?p 1" and none: "CloseClient 1 \<notin> set []"
    by (simp_all add: serving_def two_relays_def)
  have "case relay_loop (ordinal (ctx (slots ?p ! 1))) (passthrough (ctx (slots ?p ! 1))) ?evs
      (conn_of (slots ?p ! 1)) no_io of Returns (r, x) \<Rightarrow> r = 0 | _ \<Rightarrow> False"
    by code_simp
  then obtain conn io where "relay_loop (ordinal (ctx (slots ?p ! 1))) (passthrough (ctx (slots ?p ! 1))) ?evs
      (conn_of (slots ?p ! 1)) no_io = Returns (0, conn, io)"
    by (auto split: outcome.splits)
  from conjunct1 [OF conjunct2 [OF pool_session_is_relay [OF r two_ready s runs_none none]], rule_format, OF this]
  show ?thesis by simp
qed

text \<open>A gateway of one context that has accepted and connected a client.\<close>

definition idle_ctx :: "nat \<Rightarrow> smb_ctx" where
  "idle_ctx n = sample_ctx\<lparr>client_ring := empty_ring (replicate n 0), server_ring := empty_ring (replicate n 0)\<rparr>"

definition accepted_pool :: "nat \<Rightarrow> pool" where
  "accepted_pool n = \<lparr>slots = [\<lparr>ctx = (idle_ctx n)\<lparr>thread := True, client_socket := 5\<rparr>, pc = Waiting\<rparr>],
     main_at = Accepting, open_socks = {5}\<rparr>"

definition connected_pool :: "nat \<Rightarrow> pool" where
  "connected_pool n = \<lparr>slots = [\<lparr>ctx = (idle_ctx n)\<lparr>thread := True, client_socket := 5, server_socket := 6\<rparr>,
       pc = Relaying psHeader 4 psHeader 4\<rparr>], main_at = Accepting, open_socks = {6, 5}\<rparr>"

lemma idle_ready: "8 \<le> n \<Longrightarrow> int n \<le> int_max \<Longrightarrow> gateway_ready [idle_ctx n]"
  using empty_ring_fresh [of "replicate n 0"]
  by (simp add: gateway_ready_def ready_ctx_def idle_ctx_def sample_ctx_def zero_ctx_def int_max_def)

definition published_pool :: "nat \<Rightarrow> pool" where
  "published_pool n = \<lparr>slots = [\<lparr>ctx = (idle_ctx n)\<lparr>thread := True\<rparr>, pc = Waiting\<rparr>],
     main_at = Publishing 0 5, open_socks = {5}\<rparr>"

lemma idle_published: "reach mode [idle_ctx n] (published_pool n)"
proof -
  note defs = step_simps first_free_def upd_slot_def claim_ctx_def idle_ctx_def sample_ctx_def zero_ctx_def
    reset_ring_def empty_ring_def start_pool_def published_pool_def
  note run = reach.start [of mode "[idle_ctx n]"]
  have "pool_step mode (start_pool [idle_ctx n]) (Accept 5)
      \<lparr>slots = [\<lparr>ctx = idle_ctx n, pc = NoThread\<rparr>], main_at = Starting 5, open_socks = {5}\<rparr>"
    by (simp add: step_accept start_pool_def)
  note run = reach.more [OF run this]
  have "pool_step mode \<lparr>slots = [\<lparr>ctx = idle_ctx n, pc = NoThread\<rparr>], main_at = Starting 5, open_socks = {5}\<rparr>
      (Claim True) (published_pool n)"
    by (auto simp: defs)
  from reach.more [OF run this] show ?thesis .
qed

lemma reach_accepted: "reach False [idle_ctx n] (accepted_pool n)"
proof -
  note defs = step_simps upd_slot_def idle_ctx_def sample_ctx_def zero_ctx_def accepted_pool_def
  let ?c = "(idle_ctx n)\<lparr>thread := True, client_socket := 5\<rparr>"
  note run = idle_published [of False n]
  have "pool_step False (published_pool n) Publish
      \<lparr>slots = [\<lparr>ctx = ?c, pc = Waiting\<rparr>], main_at = SettingMode 0, open_socks = {5}\<rparr>"
    by (simp add: step_publish upd_slot_def published_pool_def)
  note run = reach.more [OF run this]
  have "pool_step False \<lparr>slots = [\<lparr>ctx = ?c, pc = Waiting\<rparr>], main_at = SettingMode 0, open_socks = {5}\<rparr>
      SetMode (accepted_pool n)"
    by (simp add: defs)
  from reach.more [OF run this] show ?thesis .
qed

lemma connected_step: "pool_step False (accepted_pool n) (Connect 0 6) (connected_pool n)"
  by (simp add: step_connect accepted_pool_def connected_pool_def upd_slot_def idle_ctx_def sample_ctx_def zero_ctx_def)

lemma connected_ctx:
  "\<not> passthrough (ctx (slots (connected_pool n) ! 0))" "length (slots (connected_pool n)) = 1"
  "ring_sizes (ctx (slots (connected_pool n) ! 0)) = (int n, int n)" "main_at (accepted_pool n) \<noteq> SettingMode 0"
  "pc (slots (connected_pool n) ! 0) = Relaying psHeader 4 psHeader 4"
  by (simp_all add: connected_pool_def accepted_pool_def idle_ctx_def sample_ctx_def zero_ctx_def empty_ring_def
      ring_sizes_def)

lemma idle_ready80: "gateway_ready [idle_ctx 80]"
  by (rule idle_ready) (simp_all add: int_max_def)

section \<open>The mode of a connection\<close>

text \<open>The turns of a thread that ends its relay loop in the last of them.\<close>

abbreviation relay_turns :: "nat \<Rightarrow> (io_event \<times> io_event) list \<Rightarrow> pool_event list" where
  "relay_turns i evs \<equiv> map (\<lambda>(ec, es). Relay i ec es) evs"

lemma serving_can_end:
  assumes "serving p i"
    and "relay_loop (ordinal (ctx (slots p ! i))) (passthrough (ctx (slots p ! i))) evs (conn_of (slots p ! i)) no_io =
      Returns (0, conn0, io0)"
    and "relay_loop (ordinal (ctx (slots p ! i))) (passthrough (ctx (slots p ! i))) (evs @ [e])
      (conn_of (slots p ! i)) no_io = Returns (r, conn, io)" "r \<noteq> 0"
  shows "\<exists>p'. runs (pool_step mode) p (relay_turns i (evs @ [e])) p' \<and> pc (slots p' ! i) = ClosingClient \<and>
    length (slots p') = length (slots p)"
  using assms
proof (induction evs arbitrary: p io0 io)
  case Nil
  obtain ec es where e: "e = (ec, es)" by (cases e)
  obtain cs cr ss sr where i: "i < length (slots p)" and pc: "pc (slots p ! i) = Relaying cs cr ss sr"
    using Nil.prems(1) by (cases "pc (slots p ! i)") (auto simp: serving_def)
  have "pool_step mode p (Relay i ec es) (upd_slot i (slot_after (ctx (slots p ! i)) r conn) p)"
    using Nil.prems(3) pc
    by (intro pool_step.relay [OF i refl pc]) (simp add: conn_of_def e del: relay_loop.simps)
  with Nil.prems(4) i show ?case
    by (intro exI [of _ "upd_slot i (slot_after (ctx (slots p ! i)) r conn) p"])
      (auto simp: e runs_Cons upd_slot_def slot_after_def)
next
  case (Cons e1 evs)
  let ?c = "ctx (slots p ! i)"
  obtain ec es where e1: "e1 = (ec, es)" by (cases e1)
  obtain c1 io1 io2 where t: "relay_loop (ordinal ?c) (passthrough ?c) [e1] (conn_of (slots p ! i)) no_io = Returns (0, c1, io1)"
      "relay_loop (ordinal ?c) (passthrough ?c) evs c1 no_io = Returns (0, conn0, io2)"
    using relay_loop_Cons_0 [OF Cons.prems(2)] by metis
  obtain io3 where t3: "relay_loop (ordinal ?c) (passthrough ?c) (evs @ [e]) c1 no_io = Returns (r, conn, io3)"
    using Cons.prems(3) t(1)
    by (cases "relay_loop (ordinal ?c) (passthrough ?c) (evs @ [e]) c1 no_io")
      (auto simp: relay_loop_Cons [of _ _ e1 "evs @ [e]"] simp del: relay_loop.simps)
  obtain p1 where p1: "pool_step mode p (Relay i ec es) p1" "serving p1 i" "slots p1 ! i = slot_after ?c 0 c1"
    using serving_can_turn(1) [OF Cons.prems(1) t(1) [unfolded e1]] by blast
  have "length (slots p1) = length (slots p)" by (rule step_slots [OF p1(1)])
  moreover from Cons.IH [OF p1(2), of io2 io3] t(2) t3 Cons.prems(4) obtain p' where
      "runs (pool_step mode) p1 (relay_turns i (evs @ [e])) p'" "pc (slots p' ! i) = ClosingClient"
      "length (slots p') = length (slots p1)"
    by (auto simp: p1(3) slot_after_again)
  ultimately show ?case using p1(1) by (auto simp: e1 runs_Cons)
qed

text \<open>The turns of a thread do not depend on where main is.\<close>

lemma relay_turns_main:
  "runs (pool_step mode) p (relay_turns i evs) p' \<Longrightarrow>
   runs (pool_step mode) (p\<lparr>main_at := m\<rparr>) (relay_turns i evs) (p'\<lparr>main_at := m\<rparr>)"
proof (induction evs arbitrary: p)
  case (Cons e evs)
  obtain ec es where e: "e = (ec, es)" by (cases e)
  obtain p1 where p1: "pool_step mode p (Relay i ec es) p1" "runs (pool_step mode) p1 (relay_turns i evs) p'"
    using Cons.prems by (auto simp: e runs_Cons)
  have "pool_step mode (p\<lparr>main_at := m\<rparr>) (Relay i ec es) (p1\<lparr>main_at := m\<rparr>)"
    using p1(1)
  proof cases
    case (relay sl cs cr ss sr r conn io)
    then show ?thesis
      using pool_step.relay [of i "p\<lparr>main_at := m\<rparr>" sl cs cr ss sr ec es r conn io mode]
      by (cases p) (simp add: upd_slot_def del: relay_loop.simps)
  qed
  with Cons.IH [OF p1(2)] show ?case by (auto simp: e runs_Cons)
qed simp

text \<open>A message that the checks of the client's direction refuse, whatever the ring holds behind it.\<close>

definition refused :: "ioring \<Rightarrow> int \<Rightarrow> u8 list \<Rightarrow> bool" where
  "refused ring ord m \<longleftrightarrow>
     (\<forall>rest. behind ring m rest \<longrightarrow> (\<exists>r l. message_check True ord False m rest = Returns (r, l) \<and> r \<noteq> 0))"


lemma refused_run:
  assumes "fresh_ring ring" "fits_relay ring m" "refused ring ord m" "comes_whole evs m"
  obtains evs0 ev d0 g0 r d where "evs = evs0 @ [ev]"
    "dir_run True ord False evs0 (start_dir ring) = Returns (0, d0, g0, [])"
    "dir_run True ord False evs (start_dir ring) = Returns (r, d, m, [])" "r \<noteq> 0"
proof -
  obtain evs0 ev d0 g0 where e: "evs = evs0 @ [ev]"
      "dir_run True ord False evs0 (start_dir ring) = Returns (0, d0, g0, [])"
    by (rule message_gathered [OF assms(1,2,4), of True ord False]) blast
  obtain rest where rest: "behind ring m rest"
      "fate ring m (message_check True ord False m rest) (dir_run True ord False evs (start_dir ring))"
    using message_fate [OF assms(1,2,4), of True ord False] by (auto simp: behind_def)
  then obtain r l where "message_check True ord False m rest = Returns (r, l)" "r \<noteq> 0"
    using assms(3) unfolding refused_def by blast
  with rest(2) e that show thesis by auto
qed

text \<open>A thread that has just connected, with the checks on and with the checks off.\<close>

definition opened :: "pool \<Rightarrow> nat \<Rightarrow> smb_ctx \<Rightarrow> bool" where
  "opened p i c \<longleftrightarrow> i < length (slots p) \<and> slots p ! i = \<lparr>ctx = c, pc = Relaying psHeader 4 psHeader 4\<rparr> \<and>
     fresh_ring (client_ring c) \<and> fresh_ring (server_ring c)"

lemma opened_serving:
  assumes "opened p i c"
  shows "serving (p\<lparr>main_at := Accepting\<rparr>) i" "ctx (slots p ! i) = c"
    "conn_of (slots p ! i) = start_conn (client_ring c) (server_ring c)"
  using assms by (simp_all add: opened_def serving_def conn_of_def slot_conn_def start_conn_def start_dir_def)

lemma opened_silent:
  assumes "opened p i c" "\<forall>e \<in> set evs. ev_select (snd e) = 0"
  shows "relay_loop ord pass evs (start_conn (client_ring c) (server_ring c)) no_io =
    map_outcome (\<lambda>(r, d, g, u). (r, \<lparr>c_client = d, c_server = start_dir (server_ring c)\<rparr>,
        \<lparr>from_client = g, to_server = u, from_server = [], to_client = []\<rparr>))
      (dir_run True ord pass (map fst evs) (start_dir (client_ring c)))"
  using assms relay_loop_silent [of "start_conn (client_ring c) (server_ring c)" "server_ring c" evs ord pass no_io]
  by (simp add: opened_def start_conn_def no_io_def)

lemma turns_back:
  assumes "runs (pool_step mode) (p\<lparr>main_at := Accepting\<rparr>) (relay_turns i evs) p'"
  shows "runs (pool_step mode) p (relay_turns i evs) (p'\<lparr>main_at := main_at p\<rparr>)"
  using relay_turns_main [OF assms, of "main_at p"] by simp

lemma opened_ends:
  assumes open': "opened p i c" "\<not> passthrough c"
    and msg: "fits_relay (client_ring c) m" "refused (client_ring c) (ordinal c) m"
    and evs: "comes_whole (map fst evs) m" "\<forall>e \<in> set evs. ev_select (snd e) = 0"
  shows "\<exists>p' r conn io. runs (pool_step mode) p (relay_turns i evs) p' \<and> pc (slots p' ! i) = ClosingClient \<and>
    length (slots p') = length (slots p) \<and> main_at p' = main_at p \<and>
    relay_loop (ordinal c) False evs (start_conn (client_ring c) (server_ring c)) no_io = Returns (r, conn, io) \<and>
    r \<noteq> 0 \<and> from_client io = m \<and> to_server io = []"
proof -
  have "fresh_ring (client_ring c)" using open'(1) by (simp add: opened_def)
  from refused_run [OF this msg evs(1)] obtain evs0 ev d0 g0 r d where
    run: "map fst evs = evs0 @ [ev]" "dir_run True (ordinal c) False evs0 (start_dir (client_ring c)) = Returns (0, d0, g0, [])"
      "dir_run True (ordinal c) False (map fst evs) (start_dir (client_ring c)) = Returns (r, d, m, [])" "r \<noteq> 0" .
  then obtain es e where es: "evs = es @ [e]" "map fst es = evs0" by (auto simp: map_eq_append_conv)
  then have q: "\<forall>e \<in> set es. ev_select (snd e) = 0" using evs(2) by simp
  note loops = opened_silent [OF open'(1) q, of "ordinal c" False] opened_silent [OF open'(1) evs(2), of "ordinal c" False]
  obtain conn0 io0 where l0: "relay_loop (ordinal c) False es (start_conn (client_ring c) (server_ring c)) no_io =
      Returns (0, conn0, io0)"
    using loops(1) run(2) es(2) by simp
  obtain conn io where l: "relay_loop (ordinal c) False evs (start_conn (client_ring c) (server_ring c)) no_io =
      Returns (r, conn, io)" "from_client io = m" "to_server io = []"
    using loops(2) run(3) by simp
  have "\<exists>p'. runs (pool_step mode) (p\<lparr>main_at := Accepting\<rparr>) (relay_turns i (es @ [e])) p' \<and>
      pc (slots p' ! i) = ClosingClient \<and> length (slots p') = length (slots (p\<lparr>main_at := Accepting\<rparr>))"
    using serving_can_end [OF opened_serving(1) [OF open'(1)], of es conn0 io0 e r conn io mode]
      l0 l(1) run(4) open'(2) opened_serving(2,3) [OF open'(1)] by (simp add: es(1) del: relay_loop.simps)
  then obtain p' where p': "runs (pool_step mode) (p\<lparr>main_at := Accepting\<rparr>) (relay_turns i evs) p'"
      "pc (slots p' ! i) = ClosingClient" "length (slots p') = length (slots p)"
    by (auto simp: es(1))
  show ?thesis
    using turns_back [OF p'(1)] p'(2,3) l run(4)
    by (intro exI [of _ "p'\<lparr>main_at := main_at p\<rparr>"]) auto
qed

lemma opened_passes:
  assumes open': "opened p i c" "passthrough c" "pool_ok (p\<lparr>main_at := Accepting\<rparr>)"
    and msg: "fits_relay (client_ring c) m"
    and evs: "comes_whole (map fst evs) m" "\<forall>e \<in> set evs. ev_select (snd e) = 0"
  shows "\<exists>p' conn io. runs (pool_step mode) p (relay_turns i evs) p' \<and>
    pc (slots p' ! i) = Relaying psHeader 4 psHeader 4 \<and>
    relay_loop (ordinal c) True evs (start_conn (client_ring c) (server_ring c)) no_io = Returns (0, conn, io) \<and>
    from_client io = m \<and> to_server io = m"
proof -
  have ring: "fresh_ring (client_ring c)" using open'(1) by (simp add: opened_def)
  have "vetted (client_ring c) True (ordinal c) True m" by (simp add: vetted_def message_check_def)
  with messages_delivered [OF ring, of "[map fst evs]" "[m]" True "ordinal c" True] evs(1) msg obtain ring' where
    "dir_run True (ordinal c) True (map fst evs) (start_dir (client_ring c)) = Returns (0, start_dir ring', m, m)" by auto
  then obtain conn io where l: "relay_loop (ordinal c) True evs (start_conn (client_ring c) (server_ring c)) no_io =
      Returns (0, conn, io)" "conn = start_conn ring' (server_ring c)" "from_client io = m" "to_server io = m"
    using opened_silent [OF open'(1) evs(2), of "ordinal c" True] by (simp add: start_conn_def)
  note s = opened_serving [OF open'(1)]
  have loop: "relay_loop (ordinal (ctx (slots (p\<lparr>main_at := Accepting\<rparr>) ! i)))
      (passthrough (ctx (slots (p\<lparr>main_at := Accepting\<rparr>) ! i))) evs (conn_of (slots (p\<lparr>main_at := Accepting\<rparr>) ! i)) no_io =
      Returns (0, conn, io)"
    using l(1) s(2,3) open'(2) by simp
  from serving_can_run [OF s(1) loop] obtain p' where
    p': "runs (pool_step mode) (p\<lparr>main_at := Accepting\<rparr>) (relay_turns i evs) p'" by blast
  have "relay_events i (relay_turns i evs) = evs" by (induction evs) auto
  moreover have "CloseClient i \<notin> set (relay_turns i evs)" by auto
  ultimately have "slots p' ! i = slot_after c 0 conn"
    using serving_run [OF p'(1) s(1) open'(3)] loop s(2) by simp
  then have "pc (slots p' ! i) = Relaying psHeader 4 psHeader 4"
    by (simp add: slot_after_def l(2) start_conn_def start_dir_def)
  with turns_back [OF p'(1)] l show ?thesis
    by (intro exI [of _ "p'\<lparr>main_at := main_at p\<rparr>"]) auto
qed

text \<open>Main and the thread take their steps in either order: first the thread, first main.\<close>

lemma published_step:
  assumes "pool_ok q" "main_at q = Publishing i s" "pc (slots q ! i) = Waiting"
  defines "c \<equiv> ctx (slots q ! i)"
  defines "q1 \<equiv> upd_slot i \<lparr>ctx = c\<lparr>client_socket := s\<rparr>, pc = Waiting\<rparr> (q\<lparr>main_at := SettingMode i\<rparr>)"
  shows "pool_step mode q Publish q1" "i < length (slots q)" "s \<noteq> INVALID_SOCKET"
    "fresh_ring (client_ring c)" "fresh_ring (server_ring c)"
proof -
  have "(slots q ! i)\<lparr>ctx := c\<lparr>client_socket := s\<rparr>\<rparr> = \<lparr>ctx = c\<lparr>client_socket := s\<rparr>, pc = Waiting\<rparr>"
    using assms(3) by (cases "slots q ! i") simp
  with pool_step.publish [OF assms(2) refl, of mode] show "pool_step mode q Publish q1"
    by (simp add: q1_def c_def)
  show "i < length (slots q)" "s \<noteq> INVALID_SOCKET" "fresh_ring (client_ring c)" "fresh_ring (server_ring c)"
    using assms(1,2) by (auto simp: pool_ok_def c_def both_fresh_def)
qed

lemma thread_first:
  assumes q: "pool_ok q" "main_at q = Publishing i s" "pc (slots q ! i) = Waiting" "0 \<le> t" "t \<notin> open_socks q"
  defines "c \<equiv> ctx (slots q ! i)"
  shows "\<exists>p. runs (pool_step mode) q [Publish, Connect i t] p \<and> main_at p = SettingMode i \<and>
    opened p i (c\<lparr>client_socket := s, server_socket := t\<rparr>)"
proof -
  note pub = published_step [OF q(1-3), folded c_def]
  let ?c = "c\<lparr>client_socket := s, server_socket := t\<rparr>"
  define q1 where "q1 = upd_slot i \<lparr>ctx = c\<lparr>client_socket := s\<rparr>, pc = Waiting\<rparr> (q\<lparr>main_at := SettingMode i\<rparr>)"
  define q2 where "q2 = upd_slot i \<lparr>ctx = ?c, pc = Relaying psHeader 4 psHeader 4\<rparr> (q1\<lparr>open_socks := insert t (open_socks q1)\<rparr>)"
  have "pool_step mode q1 (Connect i t) q2"
    using pub(2,3) q(4,5) by (simp add: step_connect q1_def q2_def)
  moreover have "opened q2 i ?c" "main_at q2 = SettingMode i"
    using pub(2,4,5) by (simp_all add: opened_def q1_def q2_def)
  ultimately show ?thesis
    using pub(1) [of mode, folded q1_def] by (auto simp: runs_Cons)
qed

lemma main_first:
  assumes q: "pool_ok q" "main_at q = Publishing i s" "pc (slots q ! i) = Waiting" "0 \<le> t" "t \<notin> open_socks q"
  defines "c \<equiv> ctx (slots q ! i)"
  shows "\<exists>p. runs (pool_step mode) q [Publish, SetMode, Connect i t] p \<and> pool_ok (p\<lparr>main_at := Accepting\<rparr>) \<and>
    opened p i (c\<lparr>client_socket := s, passthrough := mode, server_socket := t\<rparr>)"
proof -
  note pub = published_step [OF q(1-3), folded c_def]
  let ?c = "c\<lparr>client_socket := s, passthrough := mode, server_socket := t\<rparr>"
  define q1 where "q1 = upd_slot i \<lparr>ctx = c\<lparr>client_socket := s\<rparr>, pc = Waiting\<rparr> (q\<lparr>main_at := SettingMode i\<rparr>)"
  define q2 where "q2 = upd_slot i \<lparr>ctx = c\<lparr>client_socket := s, passthrough := mode\<rparr>, pc = Waiting\<rparr> (q1\<lparr>main_at := Accepting\<rparr>)"
  define q3 where "q3 = upd_slot i \<lparr>ctx = ?c, pc = Relaying psHeader 4 psHeader 4\<rparr> (q2\<lparr>open_socks := insert t (open_socks q2)\<rparr>)"
  have "pool_step mode q1 SetMode q2" "pool_step mode q2 (Connect i t) q3"
    using pub(2,3) q(4,5) by (simp_all add: step_set_mode step_connect q1_def q2_def q3_def)
  then have run: "runs (pool_step mode) q [Publish, SetMode, Connect i t] q3"
    using pub(1) [of mode, folded q1_def] by (auto simp: runs_Cons)
  have "main_at q3 = Accepting" by (simp add: q1_def q2_def q3_def)
  with pool_turns.runs_keep [OF run q(1)] have "pool_ok (q3\<lparr>main_at := Accepting\<rparr>)" by (cases q3) simp
  moreover have "opened q3 i ?c"
    using pub(2,4,5) by (simp add: opened_def q1_def q2_def q3_def)
  ultimately show ?thesis using run by blast
qed



end
