(* ===== verification/Text.thy ===== *)
theory Text
  imports Interfaces
begin

text \<open>
  The text helpers of \<open>butil.c\<close>: the log filter, the character classes, and the UTF-8
  encoder and decoder. Sizes are \<open>size_t\<close> words.
\<close>

section \<open>Log level\<close>

text \<open>The static variable is the state; a call prints its message or nothing.\<close>

definition butil_set_log_level :: "u32 \<Rightarrow> u32 \<Rightarrow> u32" where
  "butil_set_log_level newlevel s_log_level = newlevel"

definition butil_get_log_level :: "u32 \<Rightarrow> u32" where
  "butil_get_log_level s_log_level = s_log_level"

definition butil_log :: "u32 \<Rightarrow> u32 \<Rightarrow> 'm \<Rightarrow> 'm list" where
  "butil_log s_log_level level msg = (if s_log_level < level then [] else [msg])"

section \<open>Characters\<close>

definition butil_hextou :: "char \<Rightarrow> int \<times> u8 option" where
  "butil_hextou digit =
     (if in_range CHR ''a'' CHR ''f'' digit then (0, Some (of_int (c_char digit - c_char CHR ''a'' + 10)))
      else if in_range CHR ''A'' CHR ''F'' digit
      then (0, Some (of_int (c_char digit - c_char CHR ''A'' + 10)))
      else if in_range CHR ''0'' CHR ''9'' digit then (0, Some (of_int (c_char digit - c_char CHR ''0'')))
      else (-1, None))"

definition butil_is_white :: "char \<Rightarrow> bool" where
  "butil_is_white ch \<longleftrightarrow> ch = CHR '' '' \<or> ch = CHR 0x09 \<or> ch = CHR 0x0D \<or> ch = CHR 0x0A"

definition butil_is_number :: "char \<Rightarrow> bool" where
  "butil_is_number ch = in_range CHR ''0'' CHR ''9'' ch"

section \<open>UTF-8\<close>

text \<open>The bytes before the NUL; their number is the return value.\<close>

definition butil_utf8_encode :: "u32 \<Rightarrow> u8 list" where
  "butil_utf8_encode unicode =
     (if unicode < 0x80 then [ucast (unicode AND 0xFF)]
      else if unicode < 0x800
      then [ucast (0xC0 OR drop_bit 6 unicode), ucast (0x80 OR (unicode AND 0x3F))]
      else if unicode < 0x10000
      then [ucast (0xE0 OR drop_bit 12 unicode), ucast (0x80 OR (drop_bit 6 unicode AND 0x3F)),
            ucast (0x80 OR (unicode AND 0x3F))]
      else if unicode < 0x200000
      then [ucast (0xF0 OR drop_bit 18 unicode), ucast (0x80 OR (drop_bit 12 unicode AND 0x3F)),
            ucast (0x80 OR (drop_bit 6 unicode AND 0x3F)), ucast (0x80 OR (unicode AND 0x3F))]
      else [])"

text \<open>
  One continuation byte: with no byte left the decoder returns \<open>err\<close>, else the byte's low six
  bits are added at \<open>shift\<close>. The state is \<open>b\<close>, \<open>i\<close> and \<open>nutf\<close>.
\<close>

definition utf8_more ::
    "u8 list \<Rightarrow> u64 \<Rightarrow> nat \<Rightarrow> u32 \<times> int \<times> u64 \<Rightarrow> (u64 + u32 \<times> int \<times> u64) option" where
  "utf8_more mem err shift s =
     (case s of (b, i, nutf) \<Rightarrow>
        if nutf < 1 then Some (Inl err)
        else map_option (\<lambda>c. Inr (b OR push_bit shift (ucast c AND 0x3F), i + 1, nutf - 1))
               (mem_byte mem i))"

fun utf8_rest ::
    "u8 list \<Rightarrow> u64 \<Rightarrow> nat list \<Rightarrow> u32 \<times> int \<times> u64 \<Rightarrow> (u64 + u32 \<times> int \<times> u64) option" where
  "utf8_rest mem err [] s = Some (Inr s)"
| "utf8_rest mem err (shift # shifts) s =
     (case utf8_more mem err shift s of
        None \<Rightarrow> None
      | Some (Inl e) \<Rightarrow> Some (Inl e)
      | Some (Inr s') \<Rightarrow> utf8_rest mem err shifts s')"

text \<open>
  The return value and what is stored through \<open>unicode\<close>; \<open>None\<close> when a byte outside the
  block is read.
\<close>

definition butil_utf8_decode :: "u8 list \<Rightarrow> u64 \<Rightarrow> (u64 \<times> u32 option) option" where
  "butil_utf8_decode mem nutf =
     (case mem_byte mem 0 of
        None \<Rightarrow> None
      | Some b0 \<Rightarrow>
          let b = ucast b0 :: u32; nutf = nutf - 1 in
          case (if b AND 0x80 \<noteq> 0
                then (if b AND 0x20 \<noteq> 0
                      then (if b AND 0x10 \<noteq> 0
                            then utf8_rest mem 0 [12, 6, 0] (push_bit 18 (b AND 0x7), 1, nutf)
                            else utf8_rest mem 0 [6, 0] (push_bit 12 (b AND 0xF), 1, nutf))
                      else utf8_rest mem (-1) [0] (push_bit 6 (b AND 0x1F), 1, nutf))
                else Some (Inr (b, 1, nutf))) of
            None \<Rightarrow> None
          | Some (Inl e) \<Rightarrow> Some (e, None)
          | Some (Inr (b, i, nutf)) \<Rightarrow> Some (of_int i, Some b))"

section \<open>Round trip\<close>

lemma word_enum:
  assumes "\<forall>n \<in> set [0..<k]. P (of_nat n :: u32)" "w < of_nat k" "k < 256"
  shows "P w"
proof -
  have "unat w < k" using assms(2,3) by (simp add: word_less_nat_alt unat_of_nat)
  then show ?thesis using bspec [OF assms(1), of "unat w"] by simp
qed

lemma lead2: "w < 32 \<Longrightarrow> let b = ucast (ucast (0xC0 OR w :: u32) :: u8) :: u32 in
    b AND 0x80 \<noteq> 0 \<and> b AND 0x20 = 0 \<and> b AND 0x1F = w"
  by (rule word_enum [of 32]) (code_simp, simp_all)

lemma lead3: "w < 16 \<Longrightarrow> let b = ucast (ucast (0xE0 OR w :: u32) :: u8) :: u32 in
    b AND 0x80 \<noteq> 0 \<and> b AND 0x20 \<noteq> 0 \<and> b AND 0x10 = 0 \<and> b AND 0xF = w"
  by (rule word_enum [of 16]) (code_simp, simp_all)

lemma lead4: "w < 8 \<Longrightarrow> let b = ucast (ucast (0xF0 OR w :: u32) :: u8) :: u32 in
    b AND 0x80 \<noteq> 0 \<and> b AND 0x20 \<noteq> 0 \<and> b AND 0x10 \<noteq> 0 \<and> b AND 0x7 = w"
  by (rule word_enum [of 8]) (code_simp, simp_all)

lemma trail_less: "w < 64 \<Longrightarrow> ucast (ucast (0x80 OR w :: u32) :: u8) AND 0x3F = w"
  by (rule word_enum [of 64]) (code_simp, simp_all)

lemma trail: "ucast (ucast (0x80 OR (w AND 0x3F) :: u32) :: u8) AND 0x3F = w AND 0x3F"
proof (rule trail_less)
  have "w AND 0x3F = take_bit 6 w" by (simp add: take_bit_eq_mask mask_eq_exp_minus_1)
  then show "w AND 0x3F < 64"
    using take_bit_int_less_exp [of 6 "uint w"] by (simp add: word_less_def unsigned_take_bit_eq)
qed

lemma lead1: "w < 128 \<Longrightarrow> let b = ucast (ucast (w AND 0xFF :: u32) :: u8) :: u32 in
    b AND 0x80 = 0 \<and> b = w"
  by (rule word_enum [of 128]) (code_simp, simp_all)

lemma join:
  fixes u :: u32
  shows "push_bit 6 (drop_bit 6 u) OR push_bit 0 (u AND 0x3F) = u"
    "push_bit 12 (drop_bit 12 u) OR push_bit 6 (drop_bit 6 u AND 0x3F) OR push_bit 0 (u AND 0x3F) = u"
    "push_bit 18 (drop_bit 18 u) OR push_bit 12 (drop_bit 12 u AND 0x3F) OR
       push_bit 6 (drop_bit 6 u AND 0x3F) OR push_bit 0 (u AND 0x3F) = u"
proof -
  have m: "w AND 0x3F = take_bit 6 w" for w :: u32
    by (simp add: take_bit_eq_mask mask_eq_exp_minus_1)
  show "push_bit 6 (drop_bit 6 u) OR push_bit 0 (u AND 0x3F) = u" unfolding m
    by (rule bit_word_eqI) (auto simp: bit_simps)
  show "push_bit 12 (drop_bit 12 u) OR push_bit 6 (drop_bit 6 u AND 0x3F) OR push_bit 0 (u AND 0x3F) = u" unfolding m
    by (rule bit_word_eqI, rename_tac n, case_tac "n < 6"; case_tac "n < 12") (auto simp: bit_simps)
  show "push_bit 18 (drop_bit 18 u) OR push_bit 12 (drop_bit 12 u AND 0x3F) OR
       push_bit 6 (drop_bit 6 u AND 0x3F) OR push_bit 0 (u AND 0x3F) = u" unfolding m
    by (rule bit_word_eqI, rename_tac n, case_tac "n < 6"; case_tac "n < 12"; case_tac "n < 18") (auto simp: bit_simps)
qed

lemma drop_less: "unat (w :: u32) < m * 2 ^ k \<Longrightarrow> unat (drop_bit k w) < m"
  by (subst unat_drop_bit_eq, subst drop_bit_eq_div, rule less_mult_imp_div_less)

lemma decode_leads:
  fixes b :: u32
  assumes "b = ucast b0"
  shows "b AND 0x80 = 0 \<Longrightarrow> butil_utf8_decode (b0 # mem) 1 = Some (1, Some b)"
    "b AND 0x80 \<noteq> 0 \<Longrightarrow> b AND 0x20 = 0 \<Longrightarrow> butil_utf8_decode (b0 # c1 # mem) 2 =
       Some (2, Some (push_bit 6 (b AND 0x1F) OR push_bit 0 (ucast c1 AND 0x3F)))"
    "b AND 0x80 \<noteq> 0 \<Longrightarrow> b AND 0x20 \<noteq> 0 \<Longrightarrow> b AND 0x10 = 0 \<Longrightarrow>
       butil_utf8_decode (b0 # c1 # c2 # mem) 3 =
       Some (3, Some (push_bit 12 (b AND 0xF) OR push_bit 6 (ucast c1 AND 0x3F) OR
         push_bit 0 (ucast c2 AND 0x3F)))"
    "b AND 0x80 \<noteq> 0 \<Longrightarrow> b AND 0x20 \<noteq> 0 \<Longrightarrow> b AND 0x10 \<noteq> 0 \<Longrightarrow>
       butil_utf8_decode (b0 # c1 # c2 # c3 # mem) 4 =
       Some (4, Some (push_bit 18 (b AND 0x7) OR push_bit 12 (ucast c1 AND 0x3F) OR
         push_bit 6 (ucast c2 AND 0x3F) OR push_bit 0 (ucast c3 AND 0x3F)))"
  by (simp_all add: butil_utf8_decode_def mem_byte_def Let_def utf8_more_def or.assoc flip: assms)

lemma utf8_decode_encode:
  assumes "u < 0x200000"
  shows "butil_utf8_decode (butil_utf8_encode u @ rest) (of_nat (length (butil_utf8_encode u))) =
    Some (of_nat (length (butil_utf8_encode u)), Some u)"
proof -
  consider "u < 0x80" | "\<not> u < 0x80" "u < 0x800" | "\<not> u < 0x80" "\<not> u < 0x800" "u < 0x10000"
    | "\<not> u < 0x80" "\<not> u < 0x800" "\<not> u < 0x10000"
    by blast
  then show ?thesis
  proof cases
    case 1
    have enc: "butil_utf8_encode u = [ucast (u AND 0xFF)]" using 1 by (simp add: butil_utf8_encode_def)
    have "u < 128" using 1 by simp
    note l = lead1 [OF this, unfolded Let_def]
    show ?thesis
      unfolding enc using decode_leads(1) [OF refl conjunct1 [OF l]] conjunct2 [OF l] by simp
  next
    case 2
    have enc: "butil_utf8_encode u = [ucast (0xC0 OR drop_bit 6 u), ucast (0x80 OR (u AND 0x3F))]"
      using 2 unfolding butil_utf8_encode_def by (simp only: if_True if_False)
    have "drop_bit 6 u < 32" using 2(2) drop_less [of u 32 6] by (simp add: word_less_nat_alt)
    note l = lead2 [OF this, unfolded Let_def]
    note d = decode_leads(2) [OF refl conjunct1 [OF l] conjunct1 [OF conjunct2 [OF l]],
        unfolded conjunct2 [OF conjunct2 [OF l]]]
    from d [of "ucast (0x80 OR (u AND 0x3F))" rest, unfolded trail join] show ?thesis
      by (simp add: enc)
  next
    case 3
    have enc: "butil_utf8_encode u = [ucast (0xE0 OR drop_bit 12 u),
        ucast (0x80 OR (drop_bit 6 u AND 0x3F)), ucast (0x80 OR (u AND 0x3F))]"
      using 3 unfolding butil_utf8_encode_def by (simp only: if_True if_False)
    have "drop_bit 12 u < 16" using 3(3) drop_less [of u 16 12] by (simp add: word_less_nat_alt)
    note l = lead3 [OF this, unfolded Let_def]
    note d = decode_leads(3) [OF refl conjunct1 [OF l] conjunct1 [OF conjunct2 [OF l]]
          conjunct1 [OF conjunct2 [OF conjunct2 [OF l]]],
        unfolded conjunct2 [OF conjunct2 [OF conjunct2 [OF l]]]]
    from d [of "ucast (0x80 OR (drop_bit 6 u AND 0x3F))" "ucast (0x80 OR (u AND 0x3F))" rest,
        unfolded trail join] show ?thesis
      by (simp add: enc)
  next
    case 4
    have enc: "butil_utf8_encode u = [ucast (0xF0 OR drop_bit 18 u),
        ucast (0x80 OR (drop_bit 12 u AND 0x3F)), ucast (0x80 OR (drop_bit 6 u AND 0x3F)),
        ucast (0x80 OR (u AND 0x3F))]"
      using 4 assms unfolding butil_utf8_encode_def by (simp only: if_True if_False)
    have "drop_bit 18 u < 8" using assms drop_less [of u 8 18] by (simp add: word_less_nat_alt)
    note l = lead4 [OF this, unfolded Let_def]
    note d = decode_leads(4) [OF refl conjunct1 [OF l] conjunct1 [OF conjunct2 [OF l]]
          conjunct1 [OF conjunct2 [OF conjunct2 [OF l]]],
        unfolded conjunct2 [OF conjunct2 [OF conjunct2 [OF l]]]]
    from d [of "ucast (0x80 OR (drop_bit 12 u AND 0x3F))" "ucast (0x80 OR (drop_bit 6 u AND 0x3F))" "ucast (0x80 OR (u AND 0x3F))" rest,
        unfolded trail join] show ?thesis
      by (simp add: enc)
  qed
qed

text \<open>More bytes after a whole sequence make no difference.\<close>

lemma utf8_rest_more:
  "utf8_rest mem err shifts (b, i, n) = Some (Inr (b', i', n')) \<Longrightarrow> n \<le> m \<Longrightarrow>
   \<exists>m'. utf8_rest mem err shifts (b, i, m) = Some (Inr (b', i', m'))"
proof (induction shifts arbitrary: b i n m)
  case (Cons shift shifts)
  have "\<not> n < 1" using Cons.prems(1) by (auto simp: utf8_more_def)
  then have "\<not> m < 1" "n - 1 \<le> m - 1"
    using Cons.prems(2) by (auto simp: word_less_nat_alt word_le_nat_alt unat_sub)
  with \<open>\<not> n < 1\<close> Cons.prems(1) Cons.IH show ?case
    by (cases "mem_byte mem i") (auto simp: utf8_more_def)
qed simp

lemma utf8_result_more:
  assumes "(case utf8_rest mem err shifts (b, i, n) of
      None \<Rightarrow> None
    | Some (Inl e) \<Rightarrow> Some (e, None)
    | Some (Inr (b, i, nutf)) \<Rightarrow> Some (of_int i :: u64, Some b)) = Some (k, Some u)"
    and "n \<le> m"
  shows "(case utf8_rest mem err shifts (b, i, m) of
      None \<Rightarrow> None
    | Some (Inl e) \<Rightarrow> Some (e, None)
    | Some (Inr (b, i, nutf)) \<Rightarrow> Some (of_int i :: u64, Some b)) = Some (k, Some u)"
proof -
  obtain b' i' n' where "utf8_rest mem err shifts (b, i, n) = Some (Inr (b', i', n'))"
      "k = of_int i'" "u = b'"
    using assms(1) by (auto split: option.splits sum.splits)
  with utf8_rest_more [OF this(1) assms(2)] show ?thesis by auto
qed

lemma utf8_decode_more:
  assumes dec: "butil_utf8_decode mem n = Some (k, Some u)" and "1 \<le> n" "n \<le> m"
  shows "butil_utf8_decode mem m = Some (k, Some u)"
proof -
  have le: "n - 1 \<le> m - 1"
    using assms(2,3) by (auto simp: word_le_nat_alt unat_sub)
  obtain b0 where b0: "mem_byte mem 0 = Some b0"
    using dec by (cases "mem_byte mem 0") (simp_all add: butil_utf8_decode_def)
  define b where "b = (ucast b0 :: u32)"
  note d = dec [unfolded butil_utf8_decode_def b0 option.case Let_def, folded b_def]
  consider "b AND 0x80 = 0" | "b AND 0x80 \<noteq> 0" "b AND 0x20 = 0"
    | "b AND 0x80 \<noteq> 0" "b AND 0x20 \<noteq> 0" "b AND 0x10 = 0"
    | "b AND 0x80 \<noteq> 0" "b AND 0x20 \<noteq> 0" "b AND 0x10 \<noteq> 0"
    by blast
  then show ?thesis
    unfolding butil_utf8_decode_def b0 option.case Let_def b_def [symmetric]
    by cases (use d in \<open>simp_all only: if_True if_False not_True_eq_False not_False_eq_True option.case sum.case prod.case
        simp_thms\<close>; erule utf8_result_more [OF _ le])+
qed

text \<open>A caller who reads a text code by code, offering up to four of the bytes that remain.\<close>

definition utf8_next :: "u8 list \<Rightarrow> (u32 \<times> u8 list) option" where
  "utf8_next bs =
     (case butil_utf8_decode bs (of_nat (min 4 (length bs))) of
        Some (n, Some u) \<Rightarrow> Some (u, drop (unat n) bs)
      | _ \<Rightarrow> None)"

lemma length_utf8_encode:
  "u < 0x200000 \<Longrightarrow> 1 \<le> length (butil_utf8_encode u)" "length (butil_utf8_encode u) \<le> 4"
  by (simp_all add: butil_utf8_encode_def)

interpretation utf8: stream_codec "\<lambda>u. u < 0x200000" butil_utf8_encode utf8_next
proof unfold_locales
  fix u :: u32 and rest :: "u8 list" assume u: "u < 0x200000"
  let ?e = "butil_utf8_encode u" and ?m = "min 4 (length (butil_utf8_encode u @ rest))"
  have n: "unat (of_nat (length ?e) :: u64) = length ?e" "unat (of_nat ?m :: u64) = ?m"
    using length_utf8_encode(2) [of u] by (simp_all add: unat_of_nat take_bit_nat_eq_self)
  have "butil_utf8_decode (?e @ rest) (of_nat ?m) = Some (of_nat (length ?e), Some u)"
    using length_utf8_encode [of u] n u
    by (intro utf8_decode_more [OF utf8_decode_encode [OF u]]) (simp_all add: word_le_nat_alt)
  then show "utf8_next (?e @ rest) = Some (u, rest)"
    using n(1) by (simp add: utf8_next_def)
  show "?e \<noteq> []" using length_utf8_encode(1) [OF u] by auto
qed

text \<open>
  C31: Round trip of UTF-8: every code up to 0x1FFFFF is written in one to four bytes, decoding
  those bytes, whatever follows them, gives the code back and their number, and a text of such
  codes is read back code by code.
\<close>

theorem utf8_roundtrip:
  assumes "list_all (\<lambda>u. u < 0x200000) us"
  shows "decode_times (length us) utf8_next (concat (map butil_utf8_encode us) @ rest) = Some (us, rest) \<and>
    (\<forall>u \<in> set us. length (butil_utf8_encode u) \<in> {1..4} \<and>
       butil_utf8_decode (butil_utf8_encode u @ rest) (of_nat (length (butil_utf8_encode u))) =
         Some (of_nat (length (butil_utf8_encode u)), Some u))"
  using utf8.decode_times_concat [OF assms, of rest] assms length_utf8_encode
  by (auto simp: list_all_iff utf8_decode_encode)

theorem utf8_roundtrip_witness:
  "decode_times 3 utf8_next [0x41, 0xF0, 0x9F, 0x98, 0x80, 0xC3, 0xA9] = Some ([0x41, 0x1F600, 0xE9], []) \<and>
   butil_utf8_decode [0xF0, 0x9F, 0x98, 0x80] 4 = Some (4, Some 0x1F600)"
proof -
  have "butil_utf8_encode 0x1F600 = [0xF0, 0x9F, 0x98, 0x80]" "butil_utf8_encode 0x41 = [0x41]"
      "butil_utf8_encode 0xE9 = [0xC3, 0xA9]"
    by code_simp+
  with utf8_roundtrip [of "[0x41, 0x1F600, 0xE9]" "[]"] show ?thesis
    by (simp add: numeral_3_eq_3 del: decode_times.simps)
qed

section \<open>Damaged input\<close>

lemma utf8_rest_safe:
  "0 \<le> i \<Longrightarrow> int (unat nutf) \<le> int (length mem) - i \<Longrightarrow>
   (if unat nutf < length shifts then utf8_rest mem err shifts (b, i, nutf) = Some (Inl err)
    else \<exists>b'. utf8_rest mem err shifts (b, i, nutf) =
      Some (Inr (b', i + int (length shifts), nutf - of_nat (length shifts))))"
proof (induction shifts arbitrary: b i nutf)
  case Nil
  then show ?case by simp
next
  case (Cons shift shifts)
  show ?case
  proof (cases "nutf < 1")
    case True
    then have "nutf = 0" by (simp add: word_less_nat_alt unat_eq_0)
    then show ?thesis by (simp add: utf8_more_def)
  next
    case False
    then have pos: "1 \<le> unat nutf" by (simp add: word_less_nat_alt not_less)
    then have dec: "unat (nutf - 1) = unat nutf - 1"
      by (simp add: unat_sub word_le_nat_alt)
    have "i < int (length mem)" using Cons.prems pos by linarith
    then have "mem_byte mem i = Some (mem ! nat i)"
      using Cons.prems(1) by (simp add: mem_byte_def)
    with False show ?thesis
      using Cons.IH [of "i + 1" "nutf - 1" "b OR push_bit shift (ucast (mem ! nat i) AND 0x3F)"]
        Cons.prems dec pos
      by (auto simp: utf8_more_def less_diff_conv algebra_simps split: if_splits)
  qed
qed

text \<open>The bytes a sequence needs, by its first byte as the decoder reads it.\<close>

definition utf8_needs :: "u8 \<Rightarrow> nat" where
  "utf8_needs b0 =
     (let b = ucast b0 :: u32 in
      if b AND 0x80 = 0 then 1 else if b AND 0x20 = 0 then 2 else if b AND 0x10 = 0 then 3 else 4)"

lemma utf8_rest_reads:
  "0 \<le> i \<Longrightarrow> length shifts \<le> unat nutf \<Longrightarrow>
   (if i + int (length shifts) \<le> int (length mem)
    then \<exists>b'. utf8_rest mem err shifts (b, i, nutf) =
      Some (Inr (b', i + int (length shifts), nutf - of_nat (length shifts)))
    else shifts \<noteq> [] \<longrightarrow> utf8_rest mem err shifts (b, i, nutf) = None)"
proof (induction shifts arbitrary: b i nutf)
  case Nil
  then show ?case by simp
next
  case (Cons shift shifts)
  then have pos: "\<not> nutf < 1" "1 \<le> unat nutf" by (auto simp: word_less_nat_alt)
  then have "unat (nutf - 1) = unat nutf - 1" by (simp add: unat_sub word_le_nat_alt)
  then have IH: "if i + 1 + int (length shifts) \<le> int (length mem)
      then \<exists>b'. utf8_rest mem err shifts (b, i + 1, nutf - 1) =
        Some (Inr (b', i + 1 + int (length shifts), nutf - 1 - of_nat (length shifts)))
      else shifts \<noteq> [] \<longrightarrow> utf8_rest mem err shifts (b, i + 1, nutf - 1) = None" for b
    using Cons by auto
  show ?case
  proof (cases "i < int (length mem)")
    case True
    with Cons.prems(1) have "mem_byte mem i = Some (mem ! nat i)" by (simp add: mem_byte_def)
    with pos IH [of "b OR push_bit shift (ucast (mem ! nat i) AND 0x3F)"] True show ?thesis
      by (cases shifts) (auto simp: utf8_more_def algebra_simps split: if_splits)
  next
    case False
    with pos show ?thesis by (simp add: utf8_more_def mem_byte_def)
  qed
qed

lemma utf8_decode_counted:
  assumes "1 \<le> nutf" "unat nutf \<le> length mem"
  shows "if unat nutf < utf8_needs (mem ! 0)
    then butil_utf8_decode mem nutf = Some (if utf8_needs (mem ! 0) = 2 then -1 else 0, None)
    else \<exists>u. butil_utf8_decode mem nutf = Some (of_nat (utf8_needs (mem ! 0)), Some u)"
proof -
  have n: "unat (nutf - 1) = unat nutf - 1" "1 \<le> unat nutf"
    using assms(1) by (simp_all add: unat_sub word_le_nat_alt)
  then have "0 < length mem" using assms(2) by linarith
  then have "mem_byte mem 0 = Some (mem ! 0)" by (simp add: mem_byte_def)
  moreover have "int (unat (nutf - 1)) \<le> int (length mem) - 1"
    using n assms(2) by linarith
  note rest = utf8_rest_safe [OF _ this, simplified n(1)]
  ultimately show ?thesis
    using n rest [of "[0]" "-1" "push_bit 6 (ucast (mem ! 0) AND 0x1F)"]
      rest [of "[6, 0]" 0 "push_bit 12 (ucast (mem ! 0) AND 0xF)"]
      rest [of "[12, 6, 0]" 0 "push_bit 18 (ucast (mem ! 0) AND 0x7)"]
    by (auto simp: butil_utf8_decode_def utf8_needs_def Let_def simp del: utf8_rest.simps split: if_splits)
qed

text \<open>A count of 0 wraps around: the decoder takes what the first byte announces.\<close>

lemma utf8_decode_uncounted:
  "if mem \<noteq> [] \<and> utf8_needs (mem ! 0) \<le> length mem
   then \<exists>u. butil_utf8_decode mem 0 = Some (of_nat (utf8_needs (mem ! 0)), Some u)
   else butil_utf8_decode mem 0 = None"
proof (cases "mem = []")
  case True
  then show ?thesis by (simp add: butil_utf8_decode_def mem_byte_def)
next
  case False
  then have "mem_byte mem 0 = Some (mem ! 0)" "1 \<le> int (length mem)" by (auto simp: mem_byte_def Suc_le_eq)
  moreover have "length shifts \<le> unat (-1 :: u64)" if "length shifts \<le> 3" for shifts :: "nat list"
    using that by (simp add: unsigned_minus_1_eq_mask mask_eq_exp_minus_1)
  note rest = utf8_rest_reads [of 1 _ "-1", OF _ this, of _ mem]
  ultimately show ?thesis
    using False rest [of "[0]" "-1" "push_bit 6 (ucast (mem ! 0) AND 0x1F)"]
      rest [of "[6, 0]" 0 "push_bit 12 (ucast (mem ! 0) AND 0xF)"]
      rest [of "[12, 6, 0]" 0 "push_bit 18 (ucast (mem ! 0) AND 0x7)"]
    by (auto simp: butil_utf8_decode_def utf8_needs_def Let_def simp del: utf8_rest.simps split: if_splits)
qed

text \<open>
  C35: With a count of at least 1, the decoder reads no byte beyond the count and consumes exactly what
  the first byte announces; a sequence that is cut off stores nothing, and is reported as 0 if it is
  of three or four bytes, as the largest \<open>size_t\<close> if it is of two. With a count of 0 there is no
  bound: the decoder reads and consumes the whole sequence, and leaves a block that ends before.
\<close>

theorem utf8_decode_safe:
  "(1 \<le> nutf \<and> unat nutf \<le> length mem \<longrightarrow>
      (if unat nutf < utf8_needs (mem ! 0)
       then butil_utf8_decode mem nutf = Some (if utf8_needs (mem ! 0) = 2 then -1 else 0, None)
       else \<exists>u. butil_utf8_decode mem nutf = Some (of_nat (utf8_needs (mem ! 0)), Some u))) \<and>
   (if mem \<noteq> [] \<and> utf8_needs (mem ! 0) \<le> length mem
    then \<exists>u. butil_utf8_decode mem 0 = Some (of_nat (utf8_needs (mem ! 0)), Some u)
    else butil_utf8_decode mem 0 = None)"
  using utf8_decode_counted utf8_decode_uncounted by blast

theorem utf8_decode_safe_witness:
  "butil_utf8_decode [0xE2, 0x82] 2 = Some (0, None) \<and> butil_utf8_decode [0xC3] 1 = Some (-1, None) \<and>
   butil_utf8_decode [0xC3] 0 = None \<and> (\<exists>u. butil_utf8_decode [0xC3, 0xA9] 0 = Some (2, Some u))"
proof -
  have "utf8_needs 0xE2 = 3" "utf8_needs 0xC3 = 2" by code_simp+
  with utf8_decode_safe [of 2 "[0xE2, 0x82]"] utf8_decode_safe [of 1 "[0xC3]"] utf8_decode_safe [of 1 "[0xC3, 0xA9]"]
  show ?thesis by simp
qed

end
