(* ===== verification/Clib.thy ===== *)
theory Clib
  imports Prelude "HOL-Library.Sublist"
begin

text \<open>
  The functions of the C standard library that the text code of the program calls, as far as it
  uses them: \<open>strcasecmp\<close>, \<open>strstr\<close>, \<open>isspace\<close>, \<open>strtoul\<close>, and the
  number conversions of \<open>printf\<close>. Strings are the characters before the NUL.
\<close>

section \<open>Strings\<close>

definition c_tolower :: "char \<Rightarrow> char" where
  "c_tolower c = (if in_range CHR ''A'' CHR ''Z'' c then char_of (of_char c + (32 :: nat)) else c)"

definition same_nocase :: "string \<Rightarrow> string \<Rightarrow> bool" where
  "same_nocase a b \<longleftrightarrow> map c_tolower a = map c_tolower b"

text \<open>\<open>! strncasecmp (a, b, strlen (b))\<close>\<close>

definition prefix_nocase :: "string \<Rightarrow> string \<Rightarrow> bool" where
  "prefix_nocase a b \<longleftrightarrow> map c_tolower (take (length b) a) = map c_tolower b"

fun c_strstr :: "string \<Rightarrow> string \<Rightarrow> nat option" where
  "c_strstr [] needle = (if needle = [] then Some 0 else None)"
| "c_strstr (c # s) needle =
     (if prefix needle (c # s) then Some 0 else map_option Suc (c_strstr s needle))"

definition c_isspace :: "char \<Rightarrow> bool" where
  "c_isspace c \<longleftrightarrow> c = CHR '' '' \<or> in_range CHR 0x09 CHR 0x0D c"

definition digits_value :: "string \<Rightarrow> nat" where
  "digits_value ds = foldl (\<lambda>v d. 10 * v + nat (c_char d - c_char CHR ''0'')) 0 ds"

text \<open>The value as \<open>unsigned long\<close> and the number of characters up to the end pointer.\<close>

definition c_strtoul10 :: "string \<Rightarrow> u64 \<times> nat" where
  "c_strtoul10 s =
     (let ws = length (takeWhile c_isspace s); s1 = drop ws s;
          neg = (s1 \<noteq> [] \<and> hd s1 = CHR ''-''); signed = (neg \<or> s1 \<noteq> [] \<and> hd s1 = CHR ''+'');
          s2 = (if signed then tl s1 else s1); ds = takeWhile is_digit s2;
          v = digits_value ds
      in if ds = [] then (0, 0)
         else (if 2 ^ 64 \<le> v then -1 else if neg then - of_nat v else of_nat v,
               ws + (if signed then 1 else 0) + length ds))"

definition digit_char :: "nat \<Rightarrow> char" where
  "digit_char d = char_of (48 + d)"

fun print_unsigned :: "nat \<Rightarrow> string" where
  "print_unsigned n =
     (if n < 10 then [digit_char n] else print_unsigned (n div 10) @ [digit_char (n mod 10)])"

declare print_unsigned.simps [simp del]

section \<open>Numbers in any base\<close>

definition digit_value :: "char \<Rightarrow> nat option" where
  "digit_value c =
     (if in_range CHR ''0'' CHR ''9'' c then Some (nat (c_char c - c_char CHR ''0''))
      else if in_range CHR ''a'' CHR ''z'' c then Some (nat (c_char c - c_char CHR ''a'') + 10)
      else if in_range CHR ''A'' CHR ''Z'' c then Some (nat (c_char c - c_char CHR ''A'') + 10)
      else None)"

definition base_digit :: "nat \<Rightarrow> char \<Rightarrow> bool" where
  "base_digit base c = (case digit_value c of None \<Rightarrow> False | Some d \<Rightarrow> d < base)"

text \<open>\<open>strtoul\<close> with base 0: the value and the number of characters up to the end pointer.\<close>

definition c_strtoul0 :: "string \<Rightarrow> u64 \<times> nat" where
  "c_strtoul0 s =
     (let ws = length (takeWhile c_isspace s); s1 = drop ws s;
          neg = (s1 \<noteq> [] \<and> hd s1 = CHR ''-''); signed = (neg \<or> s1 \<noteq> [] \<and> hd s1 = CHR ''+'');
          s2 = (if signed then tl s1 else s1);
          hex = (2 < length s2 \<and> s2 ! 0 = CHR ''0'' \<and> (s2 ! 1 = CHR ''x'' \<or> s2 ! 1 = CHR ''X'') \<and>
                 base_digit 16 (s2 ! 2));
          base = (if hex then 16 else if s2 \<noteq> [] \<and> hd s2 = CHR ''0'' then 8 else 10);
          s3 = (if hex then drop 2 s2 else s2);
          ds = takeWhile (base_digit base) s3;
          v = foldl (\<lambda>v d. base * v + (case digit_value d of Some k \<Rightarrow> k | None \<Rightarrow> 0)) 0 ds
      in if ds = [] then (0, 0)
         else (if 2 ^ 64 \<le> v then -1 else if neg then - of_nat v else of_nat v,
               ws + (if signed then 1 else 0) + (if hex then 2 else 0) + length ds))"

section \<open>Formatted output\<close>

definition print_int :: "int \<Rightarrow> string" where
  "print_int n = (if n < 0 then CHR ''-'' # print_unsigned (nat (- n)) else print_unsigned (nat n))"

text \<open>Two decimal digits, as \<open>strftime\<close> prints day, hour, minute and second.\<close>

definition print_2d :: "int \<Rightarrow> string" where
  "print_2d n = [digit_char (nat (n div 10)), digit_char (nat (n mod 10))]"

text \<open>The conversion \<open>%04x\<close> of a 16-bit number.\<close>

definition hex_char :: "nat \<Rightarrow> char" where
  "hex_char d = (if d < 10 then digit_char d else char_of (87 + d))"

definition print_04x :: "u16 \<Rightarrow> string" where
  "print_04x w = map (\<lambda>i. hex_char (unat (drop_bit i w AND 0xF))) [12, 8, 4, 0]"

text \<open>What \<open>snprintf\<close> leaves in a block of \<open>n\<close> bytes: nothing if it has none.\<close>

definition c_snprintf :: "nat \<Rightarrow> string \<Rightarrow> string option" where
  "c_snprintf n text = (if n = 0 then None else Some (take (n - 1) text))"

section \<open>Formatted input\<close>

text \<open>
  The value as \<open>long\<close>, clamped to its range, and the number of characters used; 0 of them when
  there is no digit.
\<close>

definition c_strtol10 :: "string \<Rightarrow> int \<times> nat" where
  "c_strtol10 s =
     (let ws = length (takeWhile c_isspace s); s1 = drop ws s;
          neg = (s1 \<noteq> [] \<and> hd s1 = CHR ''-''); signed = (neg \<or> s1 \<noteq> [] \<and> hd s1 = CHR ''+'');
          s2 = (if signed then tl s1 else s1); ds = takeWhile is_digit s2;
          v = (if neg then - int (digits_value ds) else int (digits_value ds))
      in if ds = [] then (0, 0)
         else (max (- (2 ^ 63)) (min (2 ^ 63 - 1) v), ws + (if signed then 1 else 0) + length ds))"

text \<open>
  The directives of \<open>sscanf\<close>: a word of bounded length, a decimal \<open>int\<close>, a character and
  white space. Scanning stops at the first one that does not match; the values stored are the
  result. A number is stored as the low half of the \<open>long\<close>.
\<close>

datatype directive = ScanWord nat | ScanInt | ScanChar char | ScanSpace

datatype scanned = Word string | Number int

fun c_scan :: "directive list \<Rightarrow> string \<Rightarrow> scanned list" where
  "c_scan [] s = []"
| "c_scan (ScanWord n # ds) s =
     (let s1 = dropWhile c_isspace s; w = takeWhile (\<lambda>c. \<not> c_isspace c) (take n s1)
      in if w = [] then [] else Word w # c_scan ds (drop (length w) s1))"
| "c_scan (ScanInt # ds) s =
     (let (v, n) = c_strtol10 s
      in if n = 0 then [] else Number (sint (word_of_int v :: u32)) # c_scan ds (drop n s))"
| "c_scan (ScanChar c # ds) s = (if s \<noteq> [] \<and> hd s = c then c_scan ds (tl s) else [])"
| "c_scan (ScanSpace # ds) s = c_scan ds (dropWhile c_isspace s)"

section \<open>Facts about numbers\<close>

lemma digit_char_props:
  assumes "d < 10"
  shows "is_digit (digit_char d)" "nat (c_char (digit_char d) - c_char CHR ''0'') = d"
    "\<not> c_isspace (digit_char d)" "digit_char d \<noteq> CHR ''-''" "digit_char d \<noteq> CHR ''+''"
    "digit_char d \<noteq> CHR '':''" "digit_char d \<noteq> CHR ''/''"
proof -
  have "\<forall>d \<in> set [0..<10]. is_digit (digit_char d) \<and> nat (c_char (digit_char d) - c_char CHR ''0'') = d \<and>
      \<not> c_isspace (digit_char d) \<and> digit_char d \<noteq> CHR ''-'' \<and> digit_char d \<noteq> CHR ''+'' \<and>
      digit_char d \<noteq> CHR '':'' \<and> digit_char d \<noteq> CHR ''/''"
    by code_simp
  moreover have "d \<in> set [0..<10]" using assms by simp
  ultimately show "is_digit (digit_char d)" "nat (c_char (digit_char d) - c_char CHR ''0'') = d"
    "\<not> c_isspace (digit_char d)" "digit_char d \<noteq> CHR ''-''" "digit_char d \<noteq> CHR ''+''"
    "digit_char d \<noteq> CHR '':''" "digit_char d \<noteq> CHR ''/''"
    by blast+
qed

lemma print_unsigned_step:
  "10 \<le> n \<Longrightarrow> print_unsigned n = print_unsigned (n div 10) @ [digit_char (n mod 10)]"
  by (subst print_unsigned.simps) simp

lemma print_unsigned_digits: "d \<in> set (print_unsigned n) \<Longrightarrow> \<exists>k < 10. d = digit_char k"
proof (induction n rule: print_unsigned.induct)
  case (1 n)
  show ?case
  proof (cases "n < 10")
    case True
    with 1 show ?thesis by (auto simp: print_unsigned.simps [of n])
  next
    case False
    then have "d \<in> set (print_unsigned (n div 10)) \<or> d = digit_char (n mod 10)"
      using 1(2) by (auto simp: print_unsigned_step)
    moreover have "n mod 10 < 10" by simp
    ultimately show ?thesis using 1(1) [OF False] by blast
  qed
qed

lemma print_unsigned_nonempty: "print_unsigned n \<noteq> []"
  by (subst print_unsigned.simps) simp

lemma digits_value_print: "digits_value (print_unsigned n) = n"
proof (induction n rule: print_unsigned.induct)
  case (1 n)
  show ?case
  proof (cases "n < 10")
    case True
    then show ?thesis
      by (subst print_unsigned.simps) (simp add: digits_value_def digit_char_props)
  next
    case False
    then have "print_unsigned n = print_unsigned (n div 10) @ [digit_char (n mod 10)]"
      by (subst print_unsigned.simps) simp
    with 1 [OF False] show ?thesis
      by (simp add: digits_value_def digit_char_props)
  qed
qed

lemma length_print_unsigned: "n < 10 ^ Suc k \<Longrightarrow> length (print_unsigned n) \<le> Suc k"
proof (induction k arbitrary: n)
  case 0
  then show ?case by (subst print_unsigned.simps) simp
next
  case (Suc k)
  show ?case
  proof (cases "n < 10")
    case False
    have "n div 10 < 10 ^ Suc k" using Suc.prems by (simp add: less_mult_imp_div_less)
    from Suc.IH [OF this] False show ?thesis by (subst print_unsigned.simps) simp
  qed (subst print_unsigned.simps, simp)
qed

lemma strtoul_print:
  assumes "n < 2 ^ 64" "rest = [] \<or> \<not> is_digit (hd rest)"
  shows "c_strtoul10 (print_unsigned n @ rest) = (of_nat n, length (print_unsigned n))"
proof -
  obtain d ds where p: "print_unsigned n = d # ds"
    using print_unsigned_nonempty [of n] by (cases "print_unsigned n") auto
  have "\<exists>k < 10. d = digit_char k" using print_unsigned_digits [of d n] p by simp
  then have d: "\<not> c_isspace d" "d \<noteq> CHR ''-''" "d \<noteq> CHR ''+''"
    using digit_char_props by auto
  have "takeWhile is_digit (print_unsigned n @ rest) = print_unsigned n @ takeWhile is_digit rest"
    by (rule takeWhile_append2) (use print_unsigned_digits digit_char_props(1) in blast)
  moreover have "takeWhile is_digit rest = []"
    using assms(2) by (cases rest) auto
  ultimately have t: "takeWhile is_digit (d # ds @ rest) = d # ds" using p by simp
  have "digits_value (d # ds) = n" using digits_value_print [of n] p by simp
  then show ?thesis
    using assms(1) d t by (simp add: c_strtoul10_def Let_def p)
qed

lemma digits_value_snoc: "d < 10 \<Longrightarrow> digits_value (ds @ [digit_char d]) = 10 * digits_value ds + d"
  by (simp add: digits_value_def digit_char_props)

lemma strtol_digits:
  assumes "ds \<noteq> []" "\<And>d. d \<in> set ds \<Longrightarrow> \<exists>k < 10. d = digit_char k" "digits_value ds = v"
    and "rest = [] \<or> \<not> is_digit (hd rest)" "v < 2 ^ 63"
  shows "c_strtol10 (ds @ rest) = (int v, length ds)"
proof -
  obtain d ds' where p: "ds = d # ds'" using assms(1) by (cases ds) auto
  have "\<exists>k < 10. d = digit_char k" using assms(2) p by simp
  then have d: "\<not> c_isspace d" "d \<noteq> CHR ''-''" "d \<noteq> CHR ''+''"
    using digit_char_props by auto
  have "takeWhile is_digit (ds @ rest) = ds @ takeWhile is_digit rest"
    by (rule takeWhile_append2) (use assms(2) digit_char_props(1) in blast)
  moreover have "takeWhile is_digit rest = []" using assms(4) by (cases rest) auto
  ultimately have "takeWhile is_digit (d # ds' @ rest) = d # ds'" using p by simp
  moreover have "int v \<le> 2 ^ 63 - 1" using assms(5) by simp
  moreover have "digits_value (d # ds') = v" using assms(3) p by simp
  ultimately show ?thesis
    using d by (simp add: c_strtol10_def Let_def p)
qed

lemma sint_small: "0 \<le> v \<Longrightarrow> v \<le> int_max \<Longrightarrow> sint (word_of_int v :: u32) = v"
  by (rule sint_u32_word_of_int) (simp_all add: int_max_def)

lemma scan_unsigned:
  assumes "int v \<le> int_max" "rest = [] \<or> \<not> is_digit (hd rest)"
  shows "c_scan (ScanInt # dirs) (print_unsigned v @ rest) = Number (int v) # c_scan dirs rest"
proof -
  have "v < 2 ^ 63" using assms(1) by (simp add: int_max_def)
  then have "c_strtol10 (print_unsigned v @ rest) = (int v, length (print_unsigned v))"
    using print_unsigned_nonempty print_unsigned_digits digits_value_print assms(2) by (intro strtol_digits)
  then show ?thesis
    using sint_small [of "int v"] assms(1) print_unsigned_nonempty [of v] by simp
qed

lemma scan_2d:
  assumes "0 \<le> v" "v < 100" "rest = [] \<or> \<not> is_digit (hd rest)"
  shows "c_scan (ScanInt # dirs) (print_2d v @ rest) = Number v # c_scan dirs rest"
proof -
  have d: "nat (v div 10) < 10" "nat (v mod 10) < 10" using assms by auto
  have "digits_value [digit_char (nat (v div 10)), digit_char (nat (v mod 10))] = nat v"
    using digits_value_snoc [OF d(2), of "[digit_char (nat (v div 10))]"]
      digits_value_snoc [OF d(1), of "[]"] assms(1)
    by (simp add: digits_value_def nat_div_distrib nat_mod_distrib)
  moreover have "\<exists>k < 10. c = digit_char k" if "c \<in> set (print_2d v)" for c
  proof -
    from that have "c = digit_char (nat (v div 10)) \<or> c = digit_char (nat (v mod 10))"
      by (simp add: print_2d_def)
    with d show ?thesis by blast
  qed
  ultimately have "c_strtol10 (print_2d v @ rest) = (int (nat v), length (print_2d v))"
    using assms by (intro strtol_digits) (auto simp: print_2d_def nat_less_iff)
  moreover have "length (print_2d v) = 2" by (simp add: print_2d_def)
  ultimately show ?thesis
    using sint_small [of v] assms(1,2) by (simp add: int_max_def)
qed

lemma scan_word:
  assumes "length w = n" "w \<noteq> []" "\<And>c. c \<in> set w \<Longrightarrow> \<not> c_isspace c"
  shows "c_scan (ScanWord n # dirs) (w @ rest) = Word w # c_scan dirs rest"
proof -
  have "dropWhile c_isspace (w @ rest) = w @ rest" using assms(2,3) by (cases w) auto
  moreover have "\<forall>c \<in> set w. \<not> c_isspace c" using assms(3) by blast
  ultimately show ?thesis
    using assms(1,2) by (simp add: Let_def takeWhile_eq_all_conv [THEN iffD2])
qed

end
