(* ===== verification/Url.thy ===== *)
theory Url
  imports Text Clib
begin

text \<open>
  The URL functions of \<open>butil.c\<close>: the scheme table, \<open>butil_parse_url\<close> and
  \<open>butil_paste_url\<close>.
\<close>

section \<open>Schemes\<close>

datatype butil_url_scheme =
    schemeFILE | schemeFTP | schemeSFTP | schemeHTTP | schemeHTTPS | schemeWS | schemeWSS
  | schemeSIP | schemeSIPS | schemeMAILTO | schemeSMB | schemeSSH | schemeDAV
  | schemeUSER1 | schemeUSER2 | schemeUSER3 | schemeUSER4

definition BUTIL_MAX_URL_SCHEME :: nat where
  "BUTIL_MAX_URL_SCHEME = 8"

definition BUTIL_MAX_PORTSPEC :: nat where
  "BUTIL_MAX_PORTSPEC = 5"

text \<open>The user schemes by number, and the number of one.\<close>

definition user_schemes :: "butil_url_scheme list" where
  "user_schemes = [schemeUSER1, schemeUSER2, schemeUSER3, schemeUSER4]"

fun user_number :: "butil_url_scheme \<Rightarrow> nat option" where
  "user_number schemeUSER1 = Some 0"
| "user_number schemeUSER2 = Some 1"
| "user_number schemeUSER3 = Some 2"
| "user_number schemeUSER4 = Some 3"
| "user_number _ = None"

text \<open>\<open>s_user_schemes\<close>: the four names, the empty name for a free entry.\<close>

type_synonym user_table = "string list"

fun register_loop :: "string \<Rightarrow> user_table \<Rightarrow> butil_url_scheme list \<Rightarrow> (butil_url_scheme \<times> user_table) option" where
  "register_loop name (e # table) (u # us) =
     (if e = [] then Some (u, take (BUTIL_MAX_URL_SCHEME - 1) name # table)
      else map_option (\<lambda>(s, t). (s, e # t)) (register_loop name table us))"
| "register_loop name _ _ = None"

definition butil_register_scheme ::
    "user_table \<Rightarrow> string \<Rightarrow> int \<times> user_table \<times> butil_url_scheme option" where
  "butil_register_scheme table name =
     (case register_loop name table user_schemes of
        Some (s, t) \<Rightarrow> (0, t, Some s)
      | None \<Rightarrow> (-1, table, None))"

fun butil_scheme_name :: "user_table \<Rightarrow> butil_url_scheme \<Rightarrow> string" where
  "butil_scheme_name table schemeDAV = ''dav''"
| "butil_scheme_name table schemeFILE = ''file''"
| "butil_scheme_name table schemeFTP = ''ftp''"
| "butil_scheme_name table schemeSFTP = ''sftp''"
| "butil_scheme_name table schemeHTTP = ''http''"
| "butil_scheme_name table schemeHTTPS = ''https''"
| "butil_scheme_name table schemeWS = ''ws''"
| "butil_scheme_name table schemeWSS = ''wss''"
| "butil_scheme_name table schemeSIP = ''sip''"
| "butil_scheme_name table schemeSIPS = ''sips''"
| "butil_scheme_name table schemeSSH = ''ssh''"
| "butil_scheme_name table schemeMAILTO = ''mailto''"
| "butil_scheme_name table s =
     (case user_number s of
        None \<Rightarrow> ''????''
      | Some n \<Rightarrow> if n < length table \<and> table ! n \<noteq> [] then table ! n else ''????'')"

fun user_from_name :: "string \<Rightarrow> user_table \<Rightarrow> butil_url_scheme list \<Rightarrow> butil_url_scheme option" where
  "user_from_name name (e # table) (u # us) =
     (if e \<noteq> [] \<and> prefix_nocase name e then Some u else user_from_name name table us)"
| "user_from_name name _ _ = None"

definition butil_scheme_from_name :: "user_table \<Rightarrow> string \<Rightarrow> butil_url_scheme option" where
  "butil_scheme_from_name table name =
     (if same_nocase name ''dav'' then Some schemeDAV
      else if same_nocase name ''file'' then Some schemeFILE
      else if same_nocase name ''smb'' then Some schemeSMB
      else if same_nocase name ''ssh'' then Some schemeSSH
      else if same_nocase name ''https'' then Some schemeHTTPS
      else if same_nocase name ''http'' then Some schemeHTTP
      else if same_nocase name ''sftp'' then Some schemeSFTP
      else if same_nocase name ''ftp'' then Some schemeFTP
      else if same_nocase name ''wss'' then Some schemeWSS
      else if same_nocase name ''ws'' then Some schemeWS
      else if same_nocase name ''mailto'' then Some schemeMAILTO
      else user_from_name name table user_schemes)"

section \<open>Parsing\<close>

text \<open>The pointers that are not \<open>NULL\<close>, with the sizes of the string blocks.\<close>

record url_outputs =
  out_scheme :: bool
  out_host :: "nat option"
  out_port :: bool
  out_path :: "nat option"

text \<open>What is stored through them, and the return value.\<close>

record url_result =
  u_result :: int
  u_scheme :: butil_url_scheme
  u_host :: string
  u_port :: u16
  u_path :: string

fun default_port :: "butil_url_scheme \<Rightarrow> u16" where
  "default_port schemeFTP = 21"
| "default_port schemeSFTP = 23"
| "default_port schemeHTTPS = 443"
| "default_port schemeSIP = 5061"
| "default_port schemeSIPS = 5062"
| "default_port schemeMAILTO = 25"
| "default_port _ = 80"

text \<open>The scheme's text and the rest after the separator.\<close>

definition split_scheme :: "string \<Rightarrow> string \<times> string" where
  "split_scheme url =
     (case c_strstr url ''://'' of
        Some len \<Rightarrow> (take len url, drop (len + 3) url)
      | None \<Rightarrow> (''http'', case c_strstr url ''//'' of Some k \<Rightarrow> drop (k + 2) url | None \<Rightarrow> url))"

text \<open>The end of the function: the path.\<close>

definition parse_path :: "url_outputs \<Rightarrow> string \<Rightarrow> url_result \<Rightarrow> url_result" where
  "parse_path outs ps r =
     (if (case out_path outs of Some npath \<Rightarrow> npath \<le> length ps | None \<Rightarrow> False)
      then r\<lparr>u_result := -1\<rparr>
      else r\<lparr>u_result := 0, u_path := (if ps = [] then ''/'' else ps)\<rparr>)"

text \<open>Host and port. A result of \<open>None\<close> for the rest is an error return.\<close>

definition parse_host :: "url_outputs \<Rightarrow> string \<Rightarrow> u16 \<Rightarrow> url_result \<Rightarrow> url_result \<times> string option" where
  "parse_host outs ps portnum r =
     (let host = takeWhile (\<lambda>c. c \<noteq> CHR '':'' \<and> c \<noteq> CHR ''/'') ps;
          ps = dropWhile (\<lambda>c. c \<noteq> CHR '':'' \<and> c \<noteq> CHR ''/'') ps
      in if (case out_host outs of Some nhost \<Rightarrow> nhost \<le> length host | None \<Rightarrow> False)
         then (r, None)
         else let r = r\<lparr>u_host := host\<rparr>;
                  (portnum, len, ps) =
                    (if ps \<noteq> [] \<and> hd ps = CHR '':''
                     then let (v, n) = c_strtoul10 (tl ps) in (ucast v, n, drop n (tl ps))
                     else (portnum, 0, ps))
           in if BUTIL_MAX_PORTSPEC < len then (r, None)
              else let r = r\<lparr>u_port := portnum\<rparr>
                in if ps \<noteq> [] \<and> hd ps \<noteq> CHR ''/'' then (r, None) else (r, Some ps))"

definition butil_parse_url :: "user_table \<Rightarrow> string option \<Rightarrow> url_outputs \<Rightarrow> url_result" where
  "butil_parse_url table url outs =
     (let r = \<lparr>u_result = -1, u_scheme = schemeHTTP, u_host = [], u_port = 80, u_path = []\<rparr>
      in case url of
        None \<Rightarrow> r
      | Some url \<Rightarrow>
          let (schemestr, ps) = split_scheme url in
          if BUTIL_MAX_URL_SCHEME \<le> length schemestr then r
          else case butil_scheme_from_name table schemestr of
            None \<Rightarrow> r
          | Some scheme \<Rightarrow>
              let r = r\<lparr>u_scheme := scheme\<rparr> in
              if scheme \<noteq> schemeFILE
              then (case parse_host outs ps (default_port scheme) r of
                      (r, None) \<Rightarrow> r
                    | (r, Some ps) \<Rightarrow> parse_path outs ps r)
              else parse_path outs ps r)"

section \<open>Pasting\<close>

text \<open>
  The size of the block unless \<open>url\<close> is \<open>NULL\<close>; the return value and the text in the block, which
  \<open>snprintf\<close> cuts to its size.
\<close>

definition butil_paste_url ::
    "user_table \<Rightarrow> nat option \<Rightarrow> butil_url_scheme \<Rightarrow> string option \<Rightarrow> u16 \<Rightarrow> string option \<Rightarrow> int \<times> string" where
  "butil_paste_url table url scheme host port path =
     (let schemelc = map c_tolower (take (BUTIL_MAX_URL_SCHEME - 1) (butil_scheme_name table scheme))
      in case (url, host) of
        (None, _) \<Rightarrow> (-1, [])
      | (_, None) \<Rightarrow> (-1, [])
      | (Some nurl, Some host) \<Rightarrow>
          let useport = (if port = 0 then if \<not> same_nocase schemelc ''https'' then 443 else 80 else port);
              path = (case path of None \<Rightarrow> [] | Some p \<Rightarrow> p);
              path = (if path \<noteq> [] \<and> hd path = CHR ''/'' then tl path else path);
              url = schemelc @ ''://'' @ host @ '':'' @ print_unsigned (unat useport) @ ''/'' @ path
          in if nurl \<le> length url then (-1, take (nurl - 1) url) else (0, url))"

section \<open>Separators\<close>

lemma strstr_separator:
  "CHR '':'' \<notin> set s \<Longrightarrow> c_strstr (s @ ''://'' @ rest) ''://'' = Some (length s)"
  by (induction s) auto

lemma split_scheme_url: "CHR '':'' \<notin> set s \<Longrightarrow> split_scheme (s @ ''://'' @ rest) = (s, rest)"
  using strstr_separator [of s rest] by (simp add: split_scheme_def)

section \<open>Bounds\<close>

lemma parse_host_post:
  assumes "parse_host outs ps portnum r = (r', rest)"
  shows "u_result r' = u_result r \<and> u_scheme r' = u_scheme r \<and> u_path r' = u_path r \<and>
    (u_host r' = u_host r \<or> u_host r' = takeWhile (\<lambda>c. c \<noteq> CHR '':'' \<and> c \<noteq> CHR ''/'') ps \<and>
       (\<forall>nhost. out_host outs = Some nhost \<longrightarrow> length (u_host r') < nhost)) \<and>
    (\<forall>ps'. rest = Some ps' \<longrightarrow> suffix ps' ps \<and> (ps' = [] \<or> hd ps' = CHR ''/''))"
proof -
  have suf: "suffix (dropWhile P ps) ps" for P by (rule suffix_dropWhile)
  have "suffix (drop n (tl xs)) ps" if "suffix xs ps" for n xs
    using that by (metis suffix_drop suffix_order.trans suffix_tl)
  with assms suf show ?thesis
    by (auto simp: parse_host_def Let_def split: if_splits option.splits prod.splits)
qed

lemma parse_path_post:
  assumes "parse_path outs ps r = r'"
  shows "u_host r' = u_host r \<and> u_scheme r' = u_scheme r \<and> u_port r' = u_port r \<and>
    (u_result r' = 0 \<longrightarrow> u_path r' = (if ps = [] then ''/'' else ps) \<and>
       (\<forall>npath. out_path outs = Some npath \<longrightarrow> length ps < npath)) \<and>
    (u_result r' \<noteq> 0 \<longrightarrow> u_result r' = -1 \<and> u_path r' = u_path r)"
  using assms by (auto simp: parse_path_def split: if_splits option.splits)

text \<open>The ways through \<open>butil_parse_url\<close>: an early error, an error in host or port, or the path.\<close>

definition url_start :: "butil_url_scheme \<Rightarrow> url_result" where
  "url_start s = \<lparr>u_result = -1, u_scheme = s, u_host = [], u_port = 80, u_path = []\<rparr>"

lemma parse_url_cases:
  obtains (early) "butil_parse_url table (Some url) outs = url_start schemeHTTP"
  | (host) s ps where
      "parse_host outs ps (default_port s) (url_start s) = (butil_parse_url table (Some url) outs, None)"
  | (path) s ps r ps' where "butil_parse_url table (Some url) outs = parse_path outs ps' r"
      "r = url_start s \<or> parse_host outs ps (default_port s) (url_start s) = (r, Some ps')"
proof -
  obtain schemestr ps where sp: "split_scheme url = (schemestr, ps)" by (cases "split_scheme url")
  show thesis
  proof (cases "BUTIL_MAX_URL_SCHEME \<le> length schemestr \<or> butil_scheme_from_name table schemestr = None")
    case True
    then show thesis using sp by (intro early) (auto simp: butil_parse_url_def Let_def url_start_def)
  next
    case False
    then obtain s where sc: "butil_scheme_from_name table schemestr = Some s" by auto
    obtain r rest where ph: "parse_host outs ps (default_port s) (url_start s) = (r, rest)"
      by (cases "parse_host outs ps (default_port s) (url_start s)")
    have r: "butil_parse_url table (Some url) outs = (if s = schemeFILE then parse_path outs ps (url_start s)
        else case rest of None \<Rightarrow> r | Some ps' \<Rightarrow> parse_path outs ps' r)"
      using False sc sp ph by (auto simp: butil_parse_url_def url_start_def Let_def split: option.splits)
    then show thesis
      using host [of ps s] path [of _ _ s ps] ph by (cases "s = schemeFILE"; cases rest) auto
  qed
qed

lemma parse_host_fits:
  assumes "parse_host outs ps portnum (url_start s) = (r, rest)" "out_host outs = Some nhost" "0 < nhost"
  shows "length (u_host r) < nhost \<and> CHR '':'' \<notin> set (u_host r) \<and> CHR ''/'' \<notin> set (u_host r) \<and>
    u_path r = [] \<and> u_result r = -1"
  using parse_host_post [OF assms(1)] assms(2,3) by (auto simp: url_start_def dest: set_takeWhileD)

text \<open>
  C34: What the parser stores fits: whatever the URL, the host with its NUL fits the host block, it
  holds no separator, and the path fits the path block, except that the path \<open>/\<close> is stored for an
  empty one even in a block of one byte. On an error the path is left empty.
\<close>

theorem parse_url_bounds:
  assumes "out_host outs = Some nhost" "out_path outs = Some npath" "0 < nhost"
    and "r = butil_parse_url table (Some url) outs"
  shows "length (u_host r) < nhost \<and> CHR '':'' \<notin> set (u_host r) \<and> CHR ''/'' \<notin> set (u_host r) \<and>
    (u_result r = 0 \<and> (length (u_path r) < npath \<or> npath = 1 \<and> u_path r = ''/'') \<or>
     u_result r = -1 \<and> u_path r = [])"
proof (rule parse_url_cases [of table url outs])
  fix s ps r' ps'
  assume r: "butil_parse_url table (Some url) outs = parse_path outs ps' r'"
    and "r' = url_start s \<or> parse_host outs ps (default_port s) (url_start s) = (r', Some ps')"
  then have "length (u_host r') < nhost \<and> CHR '':'' \<notin> set (u_host r') \<and> CHR ''/'' \<notin> set (u_host r') \<and> u_path r' = []"
    using parse_host_fits [OF _ assms(1,3)] assms(3) by (auto simp: url_start_def)
  then show ?thesis
    using parse_path_post [OF r [folded assms(4), symmetric]] assms(2)
    by (cases "u_result r = 0") (auto simp: Suc_le_eq split: if_splits)
qed (use parse_host_fits [OF _ assms(1,3)] assms in \<open>auto simp: url_start_def\<close>)

definition all_outputs :: url_outputs where
  "all_outputs = \<lparr>out_scheme = True, out_host = Some 256, out_port = True, out_path = Some 256\<rparr>"

theorem parse_url_bounds_witness:
  "length (u_host (butil_parse_url [] (Some ''smb://nas/share'') all_outputs)) < 256"
  using parse_url_bounds [of all_outputs 256 256 _ "[]" "''smb://nas/share''"]
  by (simp add: all_outputs_def)

section \<open>Pasting and parsing\<close>

lemma scheme_from_own_name:
  "user_number s = None \<Longrightarrow> butil_scheme_from_name table (butil_scheme_name table s) =
    (if s \<in> {schemeSMB, schemeSIP, schemeSIPS}
     then user_from_name (butil_scheme_name table s) table user_schemes else Some s)"
  by (cases s) (simp_all add: butil_scheme_from_name_def same_nocase_def c_tolower_def in_range_def c_char_def)

lemma own_name:
  assumes "user_number s = None"
  shows "CHR '':'' \<notin> set (butil_scheme_name table s)" "length (butil_scheme_name table s) < 7"
    "map c_tolower (butil_scheme_name table s) = butil_scheme_name table s"
  using assms by (cases s; simp add: c_tolower_def in_range_def c_char_def)+

text \<open>
  The scheme table is consistent except for three schemes: the name of a built-in scheme is
  recognised as that scheme whatever names are registered, but \<open>smb\<close> has no name and \<open>sip\<close> and
  \<open>sips\<close> are not recognised, so their names mean a registered scheme or none.
\<close>

theorem scheme_names_inverse:
  assumes "user_number s = None"
  shows "butil_scheme_from_name table (butil_scheme_name table s) =
    (if s \<in> {schemeSMB, schemeSIP, schemeSIPS}
     then user_from_name (butil_scheme_name table s) table user_schemes else Some s) \<and>
    butil_scheme_name table schemeSMB = ''????'' \<and>
    butil_scheme_from_name table ''smb'' = Some schemeSMB"
  using scheme_from_own_name [OF assms]
  by (simp add: butil_scheme_from_name_def same_nocase_def c_tolower_def in_range_def c_char_def)

theorem scheme_names_inverse_witness:
  "butil_scheme_from_name [[], [], [], []] (butil_scheme_name [[], [], [], []] schemeHTTPS) = Some schemeHTTPS \<and>
   butil_scheme_from_name [[], [], [], []] (butil_scheme_name [[], [], [], []] schemeSIP) = None"
  using scheme_names_inverse [of schemeHTTPS "[[], [], [], []]"]
    scheme_names_inverse [of schemeSIP "[[], [], [], []]"]
  by (simp add: user_schemes_def)

lemma takeWhile_host:
  "CHR '':'' \<notin> set host \<Longrightarrow> CHR ''/'' \<notin> set host \<Longrightarrow> rest = [] \<or> hd rest \<in> {CHR '':'', CHR ''/''} \<Longrightarrow>
   takeWhile (\<lambda>c. c \<noteq> CHR '':'' \<and> c \<noteq> CHR ''/'') (host @ rest) = host \<and>
   dropWhile (\<lambda>c. c \<noteq> CHR '':'' \<and> c \<noteq> CHR ''/'') (host @ rest) = rest"
  by (induction host) (cases rest, auto)+

lemma parse_host_port:
  assumes "CHR '':'' \<notin> set host" "CHR ''/'' \<notin> set host" "length host < nhost" "out_host outs = Some nhost"
  shows "parse_host outs (host @ CHR '':'' # print_unsigned (unat port) @ CHR ''/'' # path) dflt r =
    (r\<lparr>u_host := host, u_port := port\<rparr>, Some (CHR ''/'' # path))"
proof -
  have "unat port < 2 ^ LENGTH(16)" by (rule unsigned_less)
  then have p: "unat port < 10 ^ Suc 4" "unat port < 2 ^ 64" by simp_all
  have num: "c_strtoul10 (print_unsigned (unat port) @ CHR ''/'' # path) =
      (of_nat (unat port), length (print_unsigned (unat port)))"
    by (rule strtoul_print [OF p(2)]) (simp add: is_digit_def in_range_def c_char_def)
  have len: "length (print_unsigned (unat port)) \<le> 5"
    using length_print_unsigned [OF p(1)] by simp
  have "ucast (ucast port :: u64) = port"
    by (rule bit_word_eqI) (simp add: bit_simps)
  then have "ucast (of_nat (unat port) :: u64) = port" by simp
  then show ?thesis
    using takeWhile_host [OF assms(1,2)] assms(3,4) num len
    by (simp add: parse_host_def Let_def BUTIL_MAX_PORTSPEC_def)
qed

lemma parse_host_no_port:
  assumes "CHR '':'' \<notin> set host" "CHR ''/'' \<notin> set host" "length host < nhost" "out_host outs = Some nhost"
    and "path = [] \<or> hd path = CHR ''/''"
  shows "parse_host outs (host @ path) dflt r = (r\<lparr>u_host := host, u_port := dflt\<rparr>, Some path)"
proof -
  have "path = [] \<or> hd path \<in> {CHR '':'', CHR ''/''}" using assms(5) by auto
  note tw = takeWhile_host [OF assms(1,2) this]
  from assms(5) show ?thesis
    using tw assms(3,4) by (cases path)
      (simp_all add: parse_host_def Let_def BUTIL_MAX_PORTSPEC_def takeWhile_eq_all_conv [THEN iffD2])
qed

lemma parse_url_scheme:
  assumes "CHR '':'' \<notin> set name" "length name < 8" "butil_scheme_from_name table name = Some s" "s \<noteq> schemeFILE"
    and "parse_host outs ps (default_port s)
      \<lparr>u_result = -1, u_scheme = s, u_host = [], u_port = 80, u_path = []\<rparr> = (r, Some ps')"
  shows "butil_parse_url table (Some (name @ ''://'' @ ps)) outs = parse_path outs ps' r"
  using split_scheme_url [OF assms(1), of ps] assms(2-5)
  by (simp add: butil_parse_url_def BUTIL_MAX_URL_SCHEME_def Let_def)

text \<open>The port \<open>butil_paste_url\<close> writes for 0.\<close>

definition pasted_port :: "butil_url_scheme \<Rightarrow> u16 \<Rightarrow> u16" where
  "pasted_port s port = (if port \<noteq> 0 then port else if s = schemeHTTPS then 80 else 443)"

lemma same_https:
  "user_number s = None \<Longrightarrow> same_nocase (butil_scheme_name table s) ''https'' \<longleftrightarrow> s = schemeHTTPS"
  by (cases s) (simp_all add: same_nocase_def c_tolower_def in_range_def c_char_def)

lemma paste_url_text:
  assumes "user_number s = None" "length host + length path + 16 < nurl"
  shows "butil_paste_url table (Some nurl) s (Some host) port (Some (CHR ''/'' # path)) =
    (0, butil_scheme_name table s @ ''://'' @ host @ CHR '':'' # print_unsigned (unat (pasted_port s port)) @ CHR ''/'' # path)"
proof -
  have "unat (pasted_port s port) < 2 ^ LENGTH(16)" by (rule unsigned_less)
  then have "length (print_unsigned (unat (pasted_port s port))) \<le> 5"
    using length_print_unsigned [of "unat (pasted_port s port)" 4] by simp
  then show ?thesis
    using own_name [OF assms(1), of table] same_https [OF assms(1), of table] assms(2)
    by (auto simp: butil_paste_url_def Let_def BUTIL_MAX_URL_SCHEME_def pasted_port_def)
qed

lemma parse_url_unknown:
  assumes "CHR '':'' \<notin> set name" "butil_scheme_from_name table name = None"
  shows "butil_parse_url table (Some (name @ ''://'' @ ps)) outs = url_start schemeHTTP"
  using split_scheme_url [OF assms(1), of ps] assms(2)
  by (simp add: butil_parse_url_def Let_def url_start_def)

lemma parse_url_file:
  assumes "out_path outs = Some npath" "length ps < npath" "ps \<noteq> []"
  shows "butil_parse_url table (Some (''file://'' @ ps)) outs = (url_start schemeFILE)\<lparr>u_result := 0, u_path := ps\<rparr>"
proof -
  have "butil_scheme_from_name table ''file'' = Some schemeFILE"
    by (simp add: butil_scheme_from_name_def same_nocase_def c_tolower_def in_range_def c_char_def)
  then show ?thesis
    using split_scheme_url [of "''file''" ps] assms
    by (simp add: butil_parse_url_def Let_def url_start_def parse_path_def BUTIL_MAX_URL_SCHEME_def)
qed

text \<open>
  C29: What parsing makes of a pasted URL, for every built-in scheme, a host without separators and an
  absolute path that fit: the text fits the block, and for all schemes but four, parsing it gives back
  scheme, host, port and path, where port 0 has become 80 for \<open>https\<close> and 443 for all others. A
  \<open>file\<close> URL comes back with no host, port 80, and host and port at the front of the path. For
  \<open>smb\<close>, \<open>sip\<close> and \<open>sips\<close>, unless a registered scheme takes their name, parsing refuses the
  text.
\<close>

theorem url_roundtrip:
  assumes s: "user_number s = None"
    and host: "CHR '':'' \<notin> set host" "CHR ''/'' \<notin> set host" "length host < nhost"
    and nurl: "length host + length path + 16 < nurl"
    and outs: "out_host outs = Some nhost" "out_path outs = Some npath"
      "length path + (if s = schemeFILE then length host + 8 else 1) < npath"
    and user: "s \<in> {schemeSMB, schemeSIP, schemeSIPS} \<Longrightarrow> user_from_name (butil_scheme_name table s) table user_schemes = None"
  shows "\<exists>url. butil_paste_url table (Some nurl) s (Some host) port (Some (CHR ''/'' # path)) = (0, url) \<and>
    butil_parse_url table (Some url) outs =
      (if s \<in> {schemeSMB, schemeSIP, schemeSIPS}
       then \<lparr>u_result = -1, u_scheme = schemeHTTP, u_host = [], u_port = 80, u_path = []\<rparr>
       else if s = schemeFILE
       then \<lparr>u_result = 0, u_scheme = s, u_host = [], u_port = 80,
             u_path = host @ CHR '':'' # print_unsigned (unat (pasted_port s port)) @ CHR ''/'' # path\<rparr>
       else \<lparr>u_result = 0, u_scheme = s, u_host = host, u_port = pasted_port s port, u_path = CHR ''/'' # path\<rparr>)"
proof (intro exI conjI)
  let ?port = "pasted_port s port" and ?name = "butil_scheme_name table s"
  let ?rest = "host @ CHR '':'' # print_unsigned (unat ?port) @ CHR ''/'' # path"
  show "butil_paste_url table (Some nurl) s (Some host) port (Some (CHR ''/'' # path)) = (0, ?name @ ''://'' @ ?rest)"
    by (rule paste_url_text [OF s nurl])
  note name = own_name [OF s, of table] and from_name = scheme_from_own_name [OF s, of table]
  consider "s \<in> {schemeSMB, schemeSIP, schemeSIPS}" | "s = schemeFILE"
    | "s \<notin> {schemeSMB, schemeSIP, schemeSIPS, schemeFILE}" by auto
  then show "butil_parse_url table (Some (?name @ ''://'' @ ?rest)) outs =
      (if s \<in> {schemeSMB, schemeSIP, schemeSIPS}
       then \<lparr>u_result = -1, u_scheme = schemeHTTP, u_host = [], u_port = 80, u_path = []\<rparr>
       else if s = schemeFILE
       then \<lparr>u_result = 0, u_scheme = s, u_host = [], u_port = 80, u_path = ?rest\<rparr>
       else \<lparr>u_result = 0, u_scheme = s, u_host = host, u_port = ?port, u_path = CHR ''/'' # path\<rparr>)"
  proof cases
    case 1
    with parse_url_unknown [OF name(1), where ps = ?rest and outs = outs] from_name user show ?thesis by (simp add: url_start_def)
  next
    case 2
    have "unat ?port < 2 ^ LENGTH(16)" by (rule unsigned_less)
    then have "length ?rest < npath"
      using length_print_unsigned [of "unat ?port" 4] outs(3) 2 by simp
    from parse_url_file [OF outs(2) this, of table] 2 show ?thesis by (simp add: url_start_def)
  next
    case 3
    with parse_url_scheme [OF name(1), where table = table and s = s and outs = outs and ps = ?rest] from_name name(2)
      parse_host_port [OF host outs(1), of ?port path] outs(2,3) show ?thesis by (simp add: parse_path_def)
  qed
qed

theorem url_roundtrip_witness:
  "(\<exists>url. butil_paste_url [] (Some 64) schemeHTTPS (Some ''nas.lan'') 0 (Some ''/a/b'') = (0, url) \<and>
     butil_parse_url [] (Some url) all_outputs =
       \<lparr>u_result = 0, u_scheme = schemeHTTPS, u_host = ''nas.lan'', u_port = 80, u_path = ''/a/b''\<rparr>) \<and>
   (\<exists>url. butil_paste_url [] (Some 64) schemeSMB (Some ''nas.lan'') 445 (Some ''/a/b'') = (0, url) \<and>
     u_result (butil_parse_url [] (Some url) all_outputs) = -1)"
proof -
  note r = url_roundtrip [where host = "''nas.lan''" and nhost = 256 and path = "''a/b''" and nurl = 64
      and outs = all_outputs and npath = 256 and table = "[]"]
  from r [of schemeHTTPS 0] r [of schemeSMB 445] show ?thesis
    by (auto simp: all_outputs_def pasted_port_def)
qed

lemma parse_smb_url:
  assumes host: "CHR '':'' \<notin> set host" "CHR ''/'' \<notin> set host" "length host < nhost"
    and path: "path = [] \<or> hd path = CHR ''/''" "length path < npath"
    and outs: "out_host outs = Some nhost" "out_path outs = Some npath"
  shows "butil_parse_url table (Some (''smb://'' @ host @ path)) outs =
    \<lparr>u_result = 0, u_scheme = schemeSMB, u_host = host, u_port = 80,
     u_path = (if path = [] then ''/'' else path)\<rparr>"
proof -
  have "butil_scheme_from_name table ''smb'' = Some schemeSMB"
    by (simp add: butil_scheme_from_name_def same_nocase_def c_tolower_def in_range_def c_char_def)
  from parse_url_scheme [OF _ _ this, of outs "host @ path"] parse_host_no_port [OF host outs(1) path(1)]
  have "butil_parse_url table (Some (''smb'' @ ''://'' @ host @ path)) outs =
      parse_path outs path \<lparr>u_result = -1, u_scheme = schemeSMB, u_host = host, u_port = 80, u_path = []\<rparr>"
    by simp
  then show ?thesis using path(2) outs(2) by (simp add: parse_path_def)
qed

text \<open>
  The port the gateway uses when the URL names none: the parser stores the default of the
  scheme, which is 80 for \<open>smb\<close>, whatever the caller had put there.
\<close>

theorem smb_url_default_port:
  assumes host: "CHR '':'' \<notin> set host" "CHR ''/'' \<notin> set host" "length host < nhost"
    and path: "path = [] \<or> hd path = CHR ''/''" "length path < npath"
    and outs: "out_host outs = Some nhost" "out_path outs = Some npath"
  shows "butil_parse_url table (Some (''smb://'' @ host @ path)) outs =
    \<lparr>u_result = 0, u_scheme = schemeSMB, u_host = host, u_port = 80,
     u_path = (if path = [] then ''/'' else path)\<rparr>"
  using assms by (rule parse_smb_url)

theorem smb_url_default_port_witness:
  "u_port (butil_parse_url [] (Some ''smb://nas/share'') all_outputs) = 80"
  using smb_url_default_port [of "''nas''" 256 "''/share''" 256 all_outputs "[]"]
  by (simp add: all_outputs_def)

end
