(* ===== verification/Cmdline.thy ===== *)
theory Cmdline
  imports Url Tcp
begin

text \<open>
  The command line of \<open>main.cc\<close>: the argument loop, whose inner loop over one argument may run
  forever, and the configuration \<open>main\<close> derives from it. \<open>args\<close> are the arguments after the
  program's name.
\<close>

section \<open>The argument loop\<close>

record options =
  o_result :: int
  o_local_port :: u16
  o_loglevel :: u32
  o_passthrough :: bool
  o_server_url :: string

definition default_options :: options where
  "default_options = \<lparr>o_result = 0, o_local_port = 4445, o_loglevel = 5, o_passthrough = False,
     o_server_url = []\<rparr>"

definition MAX_SMB_URL :: nat where
  "MAX_SMB_URL = 256"

text \<open>
  A switch with a number: the number follows in the same argument or is the next one. The result is
  the argument text and position the number starts at, the arguments left and whether it is missing.
\<close>

definition switch_number :: "string \<Rightarrow> nat \<Rightarrow> string list \<Rightarrow> string \<times> string list \<times> bool" where
  "switch_number arg argi args =
     (if length arg \<le> argi
      then (case args of a # args' \<Rightarrow> (a, args', False) | [] \<Rightarrow> ([], [], True))
      else (drop argi arg, args, False))"

text \<open>The end of the inner loop's condition: \<open>! result && arg && arg[argi]\<close>.\<close>

definition more_switches :: "options \<Rightarrow> string \<Rightarrow> nat \<Rightarrow> bool" where
  "more_switches opts arg argi \<longleftrightarrow> o_result opts = 0 \<and> argi < length arg"

text \<open>The inner \<open>do\<close> loop: the arguments left and the options when it ends.\<close>

partial_function (option) switch_loop ::
    "string \<Rightarrow> nat \<Rightarrow> string list \<Rightarrow> options \<Rightarrow> (string list \<times> options) option" where
  "switch_loop arg argi args opts =
     (if 1 < length arg \<and> arg ! 1 = CHR ''p''
      then let (num, args', missing) = switch_number arg (argi + 1) args;
               (v, n) = c_strtoul0 num;
               opts' = opts\<lparr>o_result := (if missing then 1 else o_result opts), o_local_port := ucast v\<rparr>;
               arg' = drop n num
        in if more_switches opts' arg' 0 then switch_loop arg' 0 args' opts' else Some (args', opts')
      else if 1 < length arg \<and> arg ! 1 = CHR ''l''
      then let (num, args', missing) = switch_number arg (argi + 1) args;
               (v, n) = c_strtoul0 num;
               opts' = opts\<lparr>o_loglevel := ucast v\<rparr>;
               arg' = drop n num
        in if more_switches opts' arg' 0 then switch_loop arg' 0 args' opts' else Some (args', opts')
      else if 1 < length arg \<and> arg ! 1 = CHR ''x''
      then let opts' = opts\<lparr>o_passthrough := True\<rparr>
        in if more_switches opts' arg argi then switch_loop arg argi args opts' else Some (args, opts')
      else Some (args, opts\<lparr>o_result := 1\<rparr>))"

partial_function (option) arg_loop :: "string list \<Rightarrow> options \<Rightarrow> options option" where
  "arg_loop args opts =
     (if args = [] \<or> o_result opts \<noteq> 0 then Some opts
      else if hd args \<noteq> [] \<and> hd (hd args) = CHR ''-''
      then (case switch_loop (hd args) 1 (tl args) opts of
              None \<Rightarrow> None
            | Some r \<Rightarrow> arg_loop (fst r) (snd r))
      else arg_loop (tl args) (opts\<lparr>o_server_url := take (MAX_SMB_URL - 1) (hd args)\<rparr>))"

section \<open>The configuration\<close>

record config =
  cf_host :: string
  cf_port :: u16
  cf_local_port :: u16
  cf_loglevel :: u32
  cf_passthrough :: bool
  cf_connections :: int
  cf_buffer :: int

definition main_outputs :: url_outputs where
  "main_outputs = \<lparr>out_scheme = True, out_host = Some MAX_SMB_URL, out_port = True, out_path = Some MAX_SMB_URL\<rparr>"

text \<open>
  \<open>main\<close> up to the call of \<open>smbgw_proxy_init\<close>: an exit code or what it calls it and the
  accept loop with. \<open>None\<close> when the argument loop never ends.
\<close>

definition main_config :: "string list \<Rightarrow> (int + config) option" where
  "main_config args =
     (case arg_loop args default_options of
        None \<Rightarrow> None
      | Some opts \<Rightarrow>
          if o_result opts \<noteq> 0 \<or> o_server_url opts = [] then Some (Inl (-1))
          else let r = butil_parse_url [[], [], [], []] (Some (o_server_url opts)) main_outputs in
            if u_result r \<noteq> 0 then Some (Inl (-1))
            else Some (Inr \<lparr>cf_host = u_host r, cf_port = u_port r, cf_local_port = o_local_port opts,
                   cf_loglevel = o_loglevel opts, cf_passthrough = o_passthrough opts,
                   cf_connections = 4, cf_buffer = 0x20008\<rparr>))"

section \<open>The switch for passthrough\<close>

text \<open>
  The switch \<open>x\<close> does not advance in its argument, so an inner loop that meets it does not end.
\<close>

lemma switch_loop_result:
  "switch_loop arg argi args opts = Some y \<Longrightarrow> o_result opts = 0 \<Longrightarrow> argi \<le> 1 \<Longrightarrow>
   o_passthrough (snd y) = o_passthrough opts \<and> \<not> (1 < length arg \<and> arg ! 1 = CHR ''x'')"
proof -
  let ?P = "\<lambda>arg argi (args :: string list) opts (y :: string list \<times> options). o_result opts = 0 \<longrightarrow> argi \<le> 1 \<longrightarrow>
    o_passthrough (snd y) = o_passthrough opts \<and> \<not> (1 < length arg \<and> arg ! 1 = CHR ''x'')"
  assume y: "switch_loop arg argi args opts = Some y" and "o_result opts = 0" "argi \<le> 1"
  moreover have "?P arg argi args opts y"
  proof (rule switch_loop.raw_induct [where P = ?P, OF _ y])
    fix sl :: "string \<Rightarrow> nat \<Rightarrow> string list \<Rightarrow> options \<Rightarrow> (string list \<times> options) option"
      and arg argi args opts y
    assume IH: "\<And>a i as os y. sl a i as os = Some y \<Longrightarrow> ?P a i as os y"
      and y: "(if 1 < length arg \<and> arg ! 1 = CHR ''p''
      then let (num, args', missing) = switch_number arg (argi + 1) args;
               (v, n) = c_strtoul0 num;
               opts' = opts\<lparr>o_result := (if missing then 1 else o_result opts), o_local_port := ucast v\<rparr>;
               arg' = drop n num
        in if more_switches opts' arg' 0 then sl arg' 0 args' opts' else Some (args', opts')
      else if 1 < length arg \<and> arg ! 1 = CHR ''l''
      then let (num, args', missing) = switch_number arg (argi + 1) args;
               (v, n) = c_strtoul0 num;
               opts' = opts\<lparr>o_loglevel := ucast v\<rparr>;
               arg' = drop n num
        in if more_switches opts' arg' 0 then sl arg' 0 args' opts' else Some (args', opts')
      else if 1 < length arg \<and> arg ! 1 = CHR ''x''
      then let opts' = opts\<lparr>o_passthrough := True\<rparr>
        in if more_switches opts' arg argi then sl arg argi args opts' else Some (args, opts')
      else Some (args, opts\<lparr>o_result := 1\<rparr>)) = Some y"
    show "?P arg argi args opts y"
    proof (intro impI)
      assume ok: "o_result opts = 0" "argi \<le> 1"
      have step: "o_passthrough (snd y) = o_passthrough os"
        if "(if more_switches os a 0 then sl a 0 as os else Some (as, os)) = Some y" for a as os
        using that IH [of a 0 as os y] by (auto simp: more_switches_def split: if_splits)
      consider "1 < length arg" "arg ! 1 = CHR ''p''" | "1 < length arg" "arg ! 1 = CHR ''l''"
        | "1 < length arg" "arg ! 1 = CHR ''x''"
        | "\<not> (1 < length arg \<and> arg ! 1 \<in> {CHR ''p'', CHR ''l'', CHR ''x''})" by auto
      then show "o_passthrough (snd y) = o_passthrough opts \<and> \<not> (1 < length arg \<and> arg ! 1 = CHR ''x'')"
      proof cases
        case 1
        then show ?thesis using y by (auto simp: Let_def dest: step split: prod.splits)
      next
        case 2
        then show ?thesis using y by (auto simp: Let_def dest: step split: prod.splits)
      next
        case 3
        then have "more_switches (opts\<lparr>o_passthrough := True\<rparr>) arg argi"
          using ok by (simp add: more_switches_def)
        with 3 y have "sl arg argi args (opts\<lparr>o_passthrough := True\<rparr>) = Some y" by (simp add: Let_def)
        from IH [OF this] ok 3 show ?thesis by simp
      next
        case 4
        then show ?thesis using y by (auto split: if_splits)
      qed
    qed
  qed
  ultimately show ?thesis by simp
qed

lemma arg_loop_passthrough:
  "arg_loop args opts = Some y \<Longrightarrow> o_passthrough y = o_passthrough opts"
proof -
  let ?P = "\<lambda>(args :: string list) opts y. o_passthrough y = o_passthrough opts"
  assume y: "arg_loop args opts = Some y"
  show ?thesis
  proof (rule arg_loop.raw_induct [where P = ?P, OF _ y])
    fix al :: "string list \<Rightarrow> options \<Rightarrow> options option" and args opts y
    assume IH: "\<And>as os y. al as os = Some y \<Longrightarrow> ?P as os y"
      and y: "(if args = [] \<or> o_result opts \<noteq> 0 then Some opts
      else if hd args \<noteq> [] \<and> hd (hd args) = CHR ''-''
      then (case switch_loop (hd args) 1 (tl args) opts of
              None \<Rightarrow> None
            | Some r \<Rightarrow> al (fst r) (snd r))
      else al (tl args) (opts\<lparr>o_server_url := take (MAX_SMB_URL - 1) (hd args)\<rparr>)) = Some y"
    show "?P args opts y"
      using y switch_loop_result [of "hd args" 1 "tl args" opts]
      by (auto dest!: IH split: if_splits option.splits)
  qed
qed

lemma switch_x_diverges:
  "main_config (''-x'' # args) = None"
proof -
  have "switch_loop ''-x'' 1 args default_options = None"
    using switch_loop_result [of "''-x''" 1 args default_options]
    by (cases "switch_loop ''-x'' 1 args default_options") (auto simp: default_options_def)
  then have "arg_loop (''-x'' # args) default_options = None"
    by (simp add: arg_loop.simps [of "''-x'' # args"] default_options_def)
  then show ?thesis by (simp add: main_config_def)
qed

lemma main_config_url:
  assumes "u \<noteq> []" "hd u \<noteq> CHR ''-''" "length u < MAX_SMB_URL"
    and "butil_parse_url [[], [], [], []] (Some u) main_outputs = r" "u_result r = 0"
  shows "main_config [u] = Some (Inr \<lparr>cf_host = u_host r, cf_port = u_port r, cf_local_port = 4445,
    cf_loglevel = 5, cf_passthrough = False, cf_connections = 4, cf_buffer = 0x20008\<rparr>)"
proof -
  have "arg_loop [u] default_options = arg_loop [] (default_options\<lparr>o_server_url := u\<rparr>)"
    using assms(1-3) by (simp add: arg_loop.simps [of "[u]"] default_options_def)
  then have "arg_loop [u] default_options = Some (default_options\<lparr>o_server_url := u\<rparr>)"
    by (simp add: arg_loop.simps)
  with assms(1,4,5) show ?thesis by (simp add: main_config_def default_options_def Let_def)
qed

text \<open>
  C37: Passthrough mode cannot be switched on: an argument loop that ends leaves it off, and with
  \<open>-x\<close> as the first argument the program never gets past its argument loop.
\<close>

theorem main_passthrough_unreachable:
  assumes "main_config args = Some (Inr cfg)"
  shows "\<not> cf_passthrough cfg \<and> main_config (''-x'' # args) = None"
  using assms arg_loop_passthrough [of args default_options] switch_x_diverges
  by (auto simp: main_config_def Let_def default_options_def split: option.splits if_splits)

theorem main_passthrough_unreachable_witness:
  "\<exists>cfg. main_config [''smb://nas''] = Some (Inr cfg) \<and> \<not> cf_passthrough cfg"
proof -
  have "butil_parse_url [[], [], [], []] (Some ''smb://nas'') main_outputs =
      \<lparr>u_result = 0, u_scheme = schemeSMB, u_host = ''nas'', u_port = 80, u_path = ''/''\<rparr>"
    using parse_smb_url [of "''nas''" 256 "[]" 256 main_outputs]
    by (simp add: main_outputs_def MAX_SMB_URL_def)
  from main_config_url [OF _ _ _ this] obtain cfg where "main_config [''smb://nas''] = Some (Inr cfg)"
    by (auto simp: MAX_SMB_URL_def)
  with main_passthrough_unreachable [OF this] show ?thesis by blast
qed

text \<open>
  What the gateway does when it is given nothing but an SMB URL without a port: it listens on
  4445, checks packets, serves four connections with buffers of 0x20008 bytes, and connects to port
  80 of the host, not to the port 445 that \<open>main\<close> prepares.
\<close>

theorem main_default_config:
  assumes "CHR '':'' \<notin> set host" "CHR ''/'' \<notin> set host" "path = [] \<or> hd path = CHR ''/''"
    and "length host + length path < 249"
  shows "main_config [''smb://'' @ host @ path] = Some (Inr \<lparr>cf_host = host, cf_port = 80,
    cf_local_port = 4445, cf_loglevel = 5, cf_passthrough = False, cf_connections = 4, cf_buffer = 0x20008\<rparr>)"
proof -
  have "butil_parse_url [[], [], [], []] (Some (''smb://'' @ host @ path)) main_outputs =
      \<lparr>u_result = 0, u_scheme = schemeSMB, u_host = host, u_port = 80,
       u_path = (if path = [] then ''/'' else path)\<rparr>"
    using assms by (intro parse_smb_url [where nhost = 256 and npath = 256])
      (simp_all add: main_outputs_def MAX_SMB_URL_def)
  from main_config_url [OF _ _ _ this] assms(4) show ?thesis by (simp add: MAX_SMB_URL_def)
qed

theorem main_default_config_witness:
  "main_config [''smb://nas/share''] = Some (Inr \<lparr>cf_host = ''nas'', cf_port = 80,
    cf_local_port = 4445, cf_loglevel = 5, cf_passthrough = False, cf_connections = 4, cf_buffer = 0x20008\<rparr>)"
  using main_default_config [of "''nas''" "''/share''"] by simp

end
