(* ===== verification/Gateway_Main.thy ===== *)
theory Gateway_Main
  imports Proxy Cmdline
begin

text \<open>
  \<open>main\<close> as a whole: the configuration, \<open>smbgw_proxy_init\<close>, the listening socket and the
  accept loop, one after the other on the main thread. What the connection threads do to the
  contexts in the meantime is a parameter of each turn of the accept loop; how they interleave with
  it is the subject of the theory \<open>Pool\<close>.
\<close>

section \<open>The program\<close>

text \<open>
  What the operating system answers in one turn of the accept loop, and what the threads have made
  of the contexts when \<open>smbgw_proxy_start\<close> looks at them.
\<close>

record accept_answer =
  aa_select :: int
  aa_accept :: int
  aa_ioctl :: int
  aa_create :: "nat \<Rightarrow> bool"
  aa_threads :: "smb_ctx list \<Rightarrow> smb_ctx list"

text \<open>The accept loop: its last \<open>result\<close>, the static variables and the sockets it closed.\<close>

fun accept_loop ::
    "int \<Rightarrow> bool \<Rightarrow> accept_answer list \<Rightarrow> gateway \<Rightarrow> int list \<Rightarrow> int \<times> gateway \<times> int list" where
  "accept_loop serversock pass [] gw closed = (0, gw, closed)"
| "accept_loop serversock pass (a # as) gw closed =
     (let r = tcp_accept_connection serversock (aa_select a) (aa_accept a) (aa_ioctl a);
          gw1 = gw\<lparr>s_ctx := aa_threads a (s_ctx gw)\<rparr>; closed1 = closed @ sr_closed r
      in if sr_result r \<noteq> 0 then (sr_result r, gw1, closed1)
         else case sr_stored r of
           None \<Rightarrow> accept_loop serversock pass as gw1 closed1
         | Some client \<Rightarrow>
             if client \<noteq> INVALID_SOCKET
             then let (result, gw2, cl) = smbgw_proxy_start (aa_create a) gw1 client pass
               in if result \<noteq> 0 then (result, gw2, closed1 @ cl)
                  else accept_loop serversock pass as gw2 (closed1 @ cl)
             else accept_loop serversock pass as gw1 closed1)"

text \<open>The answers to the calls of \<open>tcp_listen_on_port\<close>.\<close>

record listen_answers =
  la_socket :: int
  la_setsockopt :: int
  la_ioctl :: int
  la_bind :: int
  la_listen :: int

text \<open>
  The program hangs in its argument loop, ends with a status after closing some sockets, or is
  still serving after the given turns.
\<close>

datatype main_outcome = Hangs | Exits int "int list" | Serving gateway "int list"

definition zero_gateway :: gateway where
  "zero_gateway = \<lparr>s_server_host = [], s_server_port = 0, s_ctx = [], s_ctx_cnt = 0\<rparr>"

definition smbgw_main :: "string list \<Rightarrow> heap \<Rightarrow> listen_answers \<Rightarrow> accept_answer list \<Rightarrow> main_outcome" where
  "smbgw_main args heap la as =
     (case main_config args of
        None \<Rightarrow> Hangs
      | Some (Inl code) \<Rightarrow> Exits code []
      | Some (Inr cfg) \<Rightarrow>
          (case smbgw_proxy_init heap zero_gateway (Some (cf_host cfg)) (cf_port cfg) (cf_connections cfg)
             (cf_buffer cfg) of
             (result, gw, freed, k) \<Rightarrow>
               if result \<noteq> 0 then Exits (-1) []
               else let l = tcp_listen_on_port (la_socket la) (la_setsockopt la) (la_ioctl la)
                              (la_bind la) (la_listen la)
                 in if sr_result l \<noteq> 0 then Exits (-1) (sr_closed l)
                    else (case accept_loop (case sr_stored l of Some s \<Rightarrow> s | None \<Rightarrow> INVALID_SOCKET)
                            (cf_passthrough cfg) as gw [] of
                            (result, gw', closed) \<Rightarrow>
                              if result = 0 then Serving gw' closed else Exits 0 closed)))"

section \<open>The accept loop fills the contexts\<close>

definition connects :: "int \<Rightarrow> accept_answer" where
  "connects client = \<lparr>aa_select = 1, aa_accept = client, aa_ioctl = 0, aa_create = \<lambda>i. True, aa_threads = id\<rparr>"

lemma accept_loop_takes:
  "\<forall>c \<in> set clients. c \<noteq> INVALID_SOCKET \<Longrightarrow> s_ctx gw = taken @ free \<Longrightarrow>
   \<forall>c \<in> set taken. client_socket c \<noteq> INVALID_SOCKET \<Longrightarrow> \<forall>c \<in> set free. client_socket c = INVALID_SOCKET \<Longrightarrow>
   s_ctx_cnt gw = int (length (s_ctx gw)) \<Longrightarrow> length clients \<le> length free \<Longrightarrow>
   accept_loop sock pass (map connects clients @ as) gw closed =
     accept_loop sock pass as
       (gw\<lparr>s_ctx := taken @ map2 (\<lambda>cl c. take_ctx cl pass c) clients free @ drop (length clients) free\<rparr>) closed"
proof (induction clients arbitrary: gw taken free)
  case Nil
  then have "gw\<lparr>s_ctx := taken @ free\<rparr> = gw" by (cases gw) simp
  then show ?case by simp
next
  case (Cons cl clients)
  obtain c free' where free: "free = c # free'" using Cons.prems(6) by (cases free) auto
  let ?gw = "gw\<lparr>s_ctx := (taken @ [take_ctx cl pass c]) @ free'\<rparr>"
  have "start_loop (\<lambda>i. True) cl pass 0 (taken @ c # free') = Started (taken @ take_ctx cl pass c # free')"
    using Cons.prems(3,4) free start_loop_free [of c taken "\<lambda>i. True" cl pass 0 free'] by simp
  then have "smbgw_proxy_start (\<lambda>i. True) gw cl pass = (0, ?gw, [])"
    using Cons.prems(1,2,5) free by (simp add: smbgw_proxy_start_def)
  then have "accept_loop sock pass (map connects (cl # clients) @ as) gw closed =
      accept_loop sock pass (map connects clients @ as) ?gw closed"
    using Cons.prems(1) by (simp add: connects_def tcp_accept_connection_def)
  also have "\<dots> = accept_loop sock pass as (?gw\<lparr>s_ctx := (taken @ [take_ctx cl pass c]) @
      map2 (\<lambda>cl c. take_ctx cl pass c) clients free' @ drop (length clients) free'\<rparr>) closed"
  proof (rule Cons.IH)
    show "\<forall>c \<in> set (taken @ [take_ctx cl pass c]). client_socket c \<noteq> INVALID_SOCKET"
      using Cons.prems(1,3) by (simp add: take_ctx_def)
    show "\<forall>c \<in> set clients. c \<noteq> INVALID_SOCKET" using Cons.prems(1) by simp
    show "\<forall>c \<in> set free'. client_socket c = INVALID_SOCKET" using Cons.prems(4) free by simp
    show "length clients \<le> length free'" using Cons.prems(6) free by simp
    show "s_ctx_cnt ?gw = int (length (s_ctx ?gw))" using Cons.prems(2,5) free by simp
  qed simp
  finally show ?case by (simp add: free)
qed

lemma sockets_map2:
  "length clients \<le> length cs \<Longrightarrow>
   map client_socket (map2 (\<lambda>cl c. take_ctx cl pass c) clients cs) = clients"
  by (induction clients cs rule: list_induct2') (simp_all add: take_ctx_def)

lemma main_started:
  assumes cfg: "main_config args = Some (Inr cfg)" and heap: "\<And>b. b \<le> 8 \<Longrightarrow> heap b \<noteq> None"
    and listen: "0 \<le> la_socket la" "0 \<le> la_setsockopt la" "0 \<le> la_ioctl la" "0 \<le> la_bind la" "la_listen la = 0"
  obtains gw where "s_ctx_cnt gw = 4" "length (s_ctx gw) = 4" "list_all2 ready_ctx [0..3] (s_ctx gw)"
    "\<forall>c \<in> set (s_ctx gw). client_socket c = INVALID_SOCKET \<and> ring_sizes c = (0x20008, 0x20008)"
    "\<forall>as. smbgw_main args heap la as =
      (case accept_loop (la_socket la) False as gw [] of
         (result, gw', closed) \<Rightarrow> if result = 0 then Serving gw' closed else Exits 0 closed)"
proof -
  have c: "cf_connections cfg = 4" "cf_buffer cfg = 0x20008" "\<not> cf_passthrough cfg"
    using cfg arg_loop_passthrough [of args default_options]
    by (auto simp: main_config_def Let_def default_options_def split: option.splits if_splits)
  have "\<exists>gw k. smbgw_proxy_init heap zero_gateway (Some (cf_host cfg)) (cf_port cfg) 4 0x20008 = (0, gw, [], k) \<and>
      s_ctx_cnt gw = 4 \<and> int (length (s_ctx gw)) = 4 \<and> list_all2 ready_ctx [0..4 - 1] (s_ctx gw) \<and>
      (\<forall>c \<in> set (s_ctx gw). ring_sizes c = (0x20008, 0x20008))"
    by (rule proxy_init_ready) (use heap in \<open>simp_all add: int_max_def\<close>)
  then obtain gw k where gw: "smbgw_proxy_init heap zero_gateway (Some (cf_host cfg)) (cf_port cfg) 4 0x20008 = (0, gw, [], k)"
      "s_ctx_cnt gw = 4" "int (length (s_ctx gw)) = 4" "list_all2 ready_ctx [0..3] (s_ctx gw)"
      "\<forall>c \<in> set (s_ctx gw). ring_sizes c = (0x20008, 0x20008)"
    by auto
  have "\<forall>c \<in> set (s_ctx gw). client_socket c = INVALID_SOCKET \<and> ring_sizes c = (0x20008, 0x20008)"
    using gw(4,5) by (auto simp: list_all2_conv_all_nth in_set_conv_nth ready_ctx_def)
  moreover have "\<forall>as. smbgw_main args heap la as =
      (case accept_loop (la_socket la) False as gw [] of
         (result, gw', closed) \<Rightarrow> if result = 0 then Serving gw' closed else Exits 0 closed)"
    using cfg gw(1) c listen by (simp add: smbgw_main_def tcp_listen_on_port_def)
  ultimately show thesis using gw(2-4) that by simp
qed

text \<open>
  C21: The program as a whole, for any command line it accepts: once it has started, the first four
  clients get the four contexts in order and are relayed with the checks on, and while all four stay
  connected the fifth client is disconnected and the program ends, with exit status 0.
\<close>

theorem main_serves_four:
  assumes "main_config args = Some (Inr cfg)" "\<And>b. b \<le> 8 \<Longrightarrow> heap b \<noteq> None"
    and "0 \<le> la_socket la" "0 \<le> la_setsockopt la" "0 \<le> la_ioctl la" "0 \<le> la_bind la" "la_listen la = 0"
    and "length clients = 4" "\<forall>c \<in> set clients. c \<noteq> INVALID_SOCKET" "fifth \<noteq> INVALID_SOCKET"
  shows "(\<exists>gw. smbgw_main args heap la (map connects clients) = Serving gw [] \<and>
      map client_socket (s_ctx gw) = clients \<and> list_all (\<lambda>c. \<not> passthrough c) (s_ctx gw)) \<and>
    smbgw_main args heap la (map connects (clients @ [fifth])) = Exits 0 [fifth]"
proof -
  have m: "\<exists>gw. s_ctx_cnt gw = 4 \<and> length (s_ctx gw) = 4 \<and> map client_socket (s_ctx gw) = clients \<and>
      list_all (\<lambda>c. \<not> passthrough c) (s_ctx gw) \<and>
      smbgw_main args heap la (map connects clients @ more) =
        (case accept_loop (la_socket la) False more gw [] of
           (result, gw', closed) \<Rightarrow> if result = 0 then Serving gw' closed else Exits 0 closed)" for more
  proof (rule main_started [OF assms(1-7)])
    fix gw assume gw: "s_ctx_cnt gw = 4" "length (s_ctx gw) = 4"
        "\<forall>c \<in> set (s_ctx gw). client_socket c = INVALID_SOCKET \<and> ring_sizes c = (0x20008, 0x20008)"
      and run: "\<forall>as. smbgw_main args heap la as =
        (case accept_loop (la_socket la) False as gw [] of
           (result, gw', closed) \<Rightarrow> if result = 0 then Serving gw' closed else Exits 0 closed)"
    let ?cs = "map2 (\<lambda>cl c. take_ctx cl False c) clients (s_ctx gw)"
    have "accept_loop (la_socket la) False (map connects clients @ more) gw [] =
        accept_loop (la_socket la) False more (gw\<lparr>s_ctx := ?cs\<rparr>) []"
      using accept_loop_takes [of clients gw "[]" "s_ctx gw"] assms(8,9) gw by simp
    moreover have "list_all (\<lambda>c. \<not> passthrough c) ?cs"
      by (auto simp: list_all_iff take_ctx_def)
    ultimately show ?thesis
      using gw run assms(8) sockets_map2 [of clients "s_ctx gw" False]
      by (intro exI [of _ "gw\<lparr>s_ctx := ?cs\<rparr>"]) simp
  qed
  from m [of "[connects fifth]"] obtain gw where gw: "s_ctx_cnt gw = 4" "length (s_ctx gw) = 4"
      "map client_socket (s_ctx gw) = clients"
      "smbgw_main args heap la (map connects clients @ [connects fifth]) =
        (case accept_loop (la_socket la) False [connects fifth] gw [] of
           (result, gw', closed) \<Rightarrow> if result = 0 then Serving gw' closed else Exits 0 closed)"
    by blast
  have "client_socket c \<in> set clients" if "c \<in> set (s_ctx gw)" for c
    using that gw(3) by (metis imageI set_map)
  then have "start_loop (\<lambda>i. True) fifth False 0 (s_ctx gw) = NoContext"
    using assms(9) by (intro start_loop_full) blast
  then have "accept_loop (la_socket la) False [connects fifth] gw [] = (-1, gw, [fifth])"
    using gw(1,2) assms(10) by (simp add: connects_def tcp_accept_connection_def smbgw_proxy_start_def)
  with gw(4) have "smbgw_main args heap la (map connects (clients @ [fifth])) = Exits 0 [fifth]" by simp
  with m [of "[]"] show ?thesis by auto
qed

definition listens :: listen_answers where
  "listens = \<lparr>la_socket = 3, la_setsockopt = 0, la_ioctl = 0, la_bind = 0, la_listen = 0\<rparr>"

theorem main_serves_four_witness:
  "smbgw_main [''smb://nas''] (\<lambda>_. Some (\<lambda>_. 0)) listens (map connects [4, 5, 6, 7, 8]) = Exits 0 [8]"
proof -
  have "butil_parse_url [[], [], [], []] (Some ''smb://nas'') main_outputs =
      \<lparr>u_result = 0, u_scheme = schemeSMB, u_host = ''nas'', u_port = 80, u_path = ''/''\<rparr>"
    using parse_smb_url [of "''nas''" 256 "[]" 256 main_outputs]
    by (simp add: main_outputs_def MAX_SMB_URL_def)
  from main_config_url [OF _ _ _ this] obtain cfg where "main_config [''smb://nas''] = Some (Inr cfg)"
    by (auto simp: MAX_SMB_URL_def)
  from main_serves_four [OF this, of "\<lambda>_. Some (\<lambda>_. 0)" listens "[4, 5, 6, 7]" 8] show ?thesis
    by (simp add: listens_def)
qed

end
