(* ===== verification/Program.thy ===== *)
theory Program
  imports Sessions Gateway_Main
begin

text \<open>
  The program and the pool. \<open>Gateway_Main\<close> models \<open>main\<close> as sequential code, with what the
  threads do in between as a parameter; \<open>Pool\<close> models the interleaving of all of them. Here the
  first is shown to be one of the behaviours of the second, so that what \<open>Pool\<close> and
  \<open>Sessions\<close> show of every reachable state holds while the program runs.
\<close>

section \<open>The turns of the accept loop as steps\<close>

fun main_event :: "pool_event \<Rightarrow> bool" where
  "main_event (Accept s) = True"
| "main_event AcceptNothing = True"
| "main_event AcceptFails = True"
| "main_event (Claim created) = True"
| "main_event NoFreeContext = True"
| "main_event Publish = True"
| "main_event SetMode = True"
| "main_event _ = False"

text \<open>The steps \<open>main\<close> takes in a turn, given the contexts it finds.\<close>

definition turn_events :: "bool \<Rightarrow> accept_answer \<Rightarrow> smb_ctx list \<Rightarrow> pool_event list" where
  "turn_events mode a cs =
     (if aa_select a < 0 then [AcceptFails]
      else if aa_select a = 0 then [AcceptNothing]
      else if aa_accept a = INVALID_SOCKET \<or> aa_ioctl a < 0 then [AcceptFails]
      else case start_loop (aa_create a) (aa_accept a) mode 0 cs of
        NoContext \<Rightarrow> [Accept (aa_accept a), NoFreeContext]
      | ThreadFailed \<Rightarrow> [Accept (aa_accept a), Claim False]
      | Started _ \<Rightarrow> [Accept (aa_accept a), Claim True, Publish, SetMode])"

text \<open>
  The answers are played by the threads: before each turn they have taken some steps of their own,
  which made of the contexts what the answer says, and \<open>accept\<close> returns a descriptor that is not
  open.
\<close>

fun played :: "bool \<Rightarrow> pool \<Rightarrow> accept_answer list \<Rightarrow> bool" where
  "played mode p [] = True"
| "played mode p (a # as) =
     (\<exists>es p1. runs (pool_step mode) p es p1 \<and> list_all (\<lambda>e. \<not> main_event e) es \<and>
        aa_threads a (map ctx (slots p)) = map ctx (slots p1) \<and>
        (aa_accept a \<noteq> INVALID_SOCKET \<longrightarrow> 0 \<le> aa_accept a \<and> aa_accept a \<notin> open_socks p1) \<and>
        (\<forall>p2. runs (pool_step mode) p1 (turn_events mode a (map ctx (slots p1))) p2 \<longrightarrow> played mode p2 as))"

lemma thread_step_main: "pool_step mode p e p' \<Longrightarrow> \<not> main_event e \<Longrightarrow> main_at p' = main_at p"
  by (induction rule: pool_step.induct) simp_all

lemma thread_runs:
  "runs (pool_step mode) p es p' \<Longrightarrow> list_all (\<lambda>e. \<not> main_event e) es \<Longrightarrow>
   main_at p' = main_at p \<and> length (slots p') = length (slots p)"
  by (induction rule: runs.induct) (auto simp: thread_step_main step_slots)

text \<open>The search for a context, by the first free index.\<close>

definition first_index :: "smb_ctx list \<Rightarrow> nat \<Rightarrow> bool" where
  "first_index cs i \<longleftrightarrow> i < length cs \<and> client_socket (cs ! i) = INVALID_SOCKET \<and>
     (\<forall>j < i. client_socket (cs ! j) \<noteq> INVALID_SOCKET)"

lemma first_index_Cons:
  "client_socket c = INVALID_SOCKET \<Longrightarrow> first_index (c # cs) 0"
  "client_socket c \<noteq> INVALID_SOCKET \<Longrightarrow> first_index cs i \<Longrightarrow> first_index (c # cs) (Suc i)"
  by (auto simp: first_index_def less_Suc_eq_0_disj)

lemma first_index_pool: "first_index (map ctx (slots p)) i \<longleftrightarrow> first_free p i"
  by (auto simp: first_index_def first_free_def)

lemma start_loop_cases:
  "case start_loop create client pass k cs of
     NoContext \<Rightarrow> \<forall>c \<in> set cs. client_socket c \<noteq> INVALID_SOCKET
   | ThreadFailed \<Rightarrow> \<exists>i. first_index cs i \<and> \<not> thread (cs ! i)
   | Started cs' \<Rightarrow> \<exists>i. first_index cs i \<and> cs' = cs[i := take_ctx client pass (cs ! i)]"
proof (induction cs arbitrary: k)
  case (Cons c cs)
  show ?case
  proof (cases "client_socket c = INVALID_SOCKET")
    case True
    then show ?thesis
      using first_index_Cons(1) [OF True, of cs] by (auto intro!: exI [of _ 0])
  next
    case False
    note first = first_index_Cons(2) [OF False, of cs]
    show ?thesis
    proof (cases "start_loop create client pass (k + 1) cs")
      case NoContext
      then show ?thesis using Cons.IH [of "k + 1"] False by simp
    next
      case ThreadFailed
      then obtain i where "first_index cs i" "\<not> thread (cs ! i)" using Cons.IH [of "k + 1"] by auto
      with ThreadFailed False first show ?thesis by (auto intro!: exI [of _ "Suc i"])
    next
      case (Started cs')
      then obtain i where "first_index cs i" "cs' = cs[i := take_ctx client pass (cs ! i)]"
        using Cons.IH [of "k + 1"] by auto
      with Started False first show ?thesis by (auto intro!: exI [of _ "Suc i"])
    qed
  qed
qed simp

section \<open>The accept loop is a run of the pool\<close>

text \<open>Handing a client to a context in one go is the three steps of \<open>Pool\<close> one after the other.\<close>

lemma start_steps:
  assumes "main_at p = Starting s" "first_free p i"
  shows "runs (pool_step mode) p [Claim True, Publish, SetMode]
    (p\<lparr>slots := (slots p)[i := \<lparr>ctx = take_ctx s mode (ctx (slots p ! i)),
        pc = pc (claim_ctx (slots p ! i))\<rparr>], main_at := Accepting\<rparr>)"
proof -
  let ?sl = "claim_ctx (slots p ! i)"
  have i: "i < length (slots p)" using assms(2) by (simp add: first_free_def)
  let ?p1 = "upd_slot i ?sl (p\<lparr>main_at := Publishing i s\<rparr>)"
  let ?p2 = "upd_slot i (?sl\<lparr>ctx := (ctx ?sl)\<lparr>client_socket := s\<rparr>\<rparr>) (?p1\<lparr>main_at := SettingMode i\<rparr>)"
  have "pool_step mode p (Claim True) ?p1" by (rule pool_step.claim [OF assms])
  moreover have "pool_step mode ?p1 Publish ?p2"
    using i by (intro pool_step.publish) simp_all
  moreover have "pool_step mode ?p2 SetMode
      (upd_slot i (?sl\<lparr>ctx := (ctx ?sl)\<lparr>client_socket := s, passthrough := mode\<rparr>\<rparr>) (?p2\<lparr>main_at := Accepting\<rparr>))"
      (is "pool_step mode _ _ ?p3")
    using i pool_step.set_mode [of ?p2 i _ mode, OF _ refl] by simp
  ultimately have "runs (pool_step mode) p [Claim True, Publish, SetMode] ?p3"
    by (rule runs_more [OF _ runs_more [OF _ runs_more [OF _ runs_none]]])
  moreover have "?p3 = p\<lparr>slots := (slots p)[i := \<lparr>ctx = take_ctx s mode (ctx (slots p ! i)),
        pc = pc (claim_ctx (slots p ! i))\<rparr>], main_at := Accepting\<rparr>"
    by (simp add: upd_slot_def take_ctx_def claim_ctx_def)
  ultimately show ?thesis by simp
qed

text \<open>A client that was accepted, and what \<open>smbgw_proxy_start\<close> answers.\<close>

lemma client_started:
  assumes m: "main_at p = Starting client" and c: "client \<noteq> INVALID_SOCKET" "client \<in> open_socks p"
    and gw: "s_ctx gw = map ctx (slots p)" "s_ctx_cnt gw = int (length (slots p))"
  obtains p' r gw' cl where
    "runs (pool_step mode) p (case start_loop create client mode 0 (map ctx (slots p)) of
       NoContext \<Rightarrow> [NoFreeContext] | ThreadFailed \<Rightarrow> [Claim False] | Started _ \<Rightarrow> [Claim True, Publish, SetMode]) p'"
    "smbgw_proxy_start create gw client mode = (r, gw', cl)"
    "s_ctx gw' = map ctx (slots p')" "s_ctx_cnt gw' = int (length (slots p'))"
    "main_at p' = (if r = 0 then Accepting else Exited)" "if r = 0 then cl = [] else \<forall>s \<in> set cl. s \<notin> open_socks p'"
proof -
  let ?cs = "map ctx (slots p)"
  have take: "take (nat (s_ctx_cnt gw)) (s_ctx gw) = ?cs" "drop (nat (s_ctx_cnt gw)) (s_ctx gw) = []"
    using gw by simp_all
  note cases = start_loop_cases [where create = create and client = client and pass = mode and k = 0 and cs = ?cs]
  show thesis
  proof (cases "start_loop create client mode 0 ?cs")
    case NoContext
    then have "\<forall>sl \<in> set (slots p). client_socket (ctx sl) \<noteq> INVALID_SOCKET" using cases by simp
    from pool_step.no_free_context [OF m this] NoContext c gw take show thesis
      by (intro that [of "p\<lparr>main_at := Exited, open_socks := open_socks p - {client}\<rparr>" "-1" gw "[client]"])
        (simp_all add: runs_Cons smbgw_proxy_start_def)
  next
    case ThreadFailed
    then obtain i where "first_free p i" "\<not> thread (ctx (slots p ! i))"
      using cases by (auto simp: first_index_pool first_free_def)
    from pool_step.create_fails [OF m this] ThreadFailed c gw take show thesis
      by (intro that [of "p\<lparr>main_at := Exited\<rparr>" "-1" gw "[]"]) (simp_all add: runs_Cons smbgw_proxy_start_def)
  next
    case (Started cs')
    then obtain i where i: "first_free p i" "cs' = ?cs[i := take_ctx client mode (?cs ! i)]"
      using cases by (auto simp: first_index_pool)
    then have "i < length (slots p)" by (simp add: first_free_def)
    with start_steps [OF m i(1), of mode] Started c gw take i(2) show thesis
      by (intro that [of "p\<lparr>slots := (slots p)[i := \<lparr>ctx = take_ctx client mode (ctx (slots p ! i)),
          pc = pc (claim_ctx (slots p ! i))\<rparr>], main_at := Accepting\<rparr>" 0 "gw\<lparr>s_ctx := cs'\<rparr>" "[]"])
        (simp_all add: smbgw_proxy_start_def map_update)
  qed
qed

lemma turn_refined:
  assumes m: "main_at p = Accepting"
    and gw: "gw = before\<lparr>s_ctx := aa_threads a (s_ctx before)\<rparr>" "s_ctx gw = map ctx (slots p)"
      "s_ctx_cnt gw = int (length (slots p))"
    and fresh: "aa_accept a \<noteq> INVALID_SOCKET \<longrightarrow> 0 \<le> aa_accept a \<and> aa_accept a \<notin> open_socks p"
  obtains p' r gw' cl where "runs (pool_step mode) p (turn_events mode a (map ctx (slots p))) p'"
    "\<forall>as closed. accept_loop sock mode (a # as) before closed =
       (if r \<noteq> 0 then (r, gw', closed @ cl) else accept_loop sock mode as gw' (closed @ cl))"
    "s_ctx gw' = map ctx (slots p')" "s_ctx_cnt gw' = int (length (slots p'))"
    "main_at p' = (if r = 0 then Accepting else Exited)" "if r = 0 then cl = [] else \<forall>s \<in> set cl. s = sock \<or> s \<notin> open_socks p'"
proof -
  let ?s = "aa_accept a"
  have fails: "runs (pool_step mode) p [AcceptFails] (p\<lparr>main_at := Exited\<rparr>)"
    using pool_step.accept_fails [OF m] by (simp add: runs_Cons)
  note turn = turn_events_def tcp_accept_connection_def Let_def
  consider (error) "aa_select a < 0" | (idle) "aa_select a = 0"
    | (refused) "0 < aa_select a" "?s = INVALID_SOCKET \<or> aa_ioctl a < 0"
    | (client) "0 < aa_select a" "?s \<noteq> INVALID_SOCKET" "\<not> aa_ioctl a < 0"
    by linarith
  then show thesis
  proof cases
    case error
    then show thesis
      using that [of "p\<lparr>main_at := Exited\<rparr>" "-1" gw "[sock]"] fails gw by (simp add: turn)
  next
    case idle
    then show thesis
      using that [of p 0 gw "[]"] pool_step.accept_nothing [OF m] gw m by (simp add: turn runs_Cons)
  next
    case refused
    then show thesis
      using that [of "p\<lparr>main_at := Exited\<rparr>" "-1" gw "if ?s = INVALID_SOCKET then [] else [?s]"] fails gw fresh
      by (cases "?s = INVALID_SOCKET") (simp_all add: turn)
  next
    case client
    let ?p1 = "p\<lparr>main_at := Starting ?s, open_socks := insert ?s (open_socks p)\<rparr>"
    have acc: "pool_step mode p (Accept ?s) ?p1"
      using client(2) fresh by (intro pool_step.accept [OF m]) simp_all
    have "main_at ?p1 = Starting ?s" "?s \<in> open_socks ?p1" "s_ctx gw = map ctx (slots ?p1)"
        "s_ctx_cnt gw = int (length (slots ?p1))"
      using gw(2,3) by simp_all
    from client_started [OF this(1) client(2) this(2-4), of mode "aa_create a"] obtain p' r gw' cl where
      run: "runs (pool_step mode) ?p1 (case start_loop (aa_create a) ?s mode 0 (map ctx (slots ?p1)) of
        NoContext \<Rightarrow> [NoFreeContext] | ThreadFailed \<Rightarrow> [Claim False] | Started _ \<Rightarrow> [Claim True, Publish, SetMode]) p'"
      and start: "smbgw_proxy_start (aa_create a) gw ?s mode = (r, gw', cl)"
      and post: "s_ctx gw' = map ctx (slots p')" "s_ctx_cnt gw' = int (length (slots p'))"
        "main_at p' = (if r = 0 then Accepting else Exited)" "if r = 0 then cl = [] else \<forall>s \<in> set cl. s \<notin> open_socks p'"
      by blast
    have "runs (pool_step mode) p (turn_events mode a (map ctx (slots p))) p'"
      using runs_more [where step = "pool_step mode", OF acc run] client
      by (simp add: turn_events_def split: start_outcome.splits)
    with start post client gw show thesis
      by (intro that [of p' r gw' cl]) (auto simp: tcp_accept_connection_def Let_def)
  qed
qed

lemma accept_loop_refined:
  assumes "pool_ok p" "main_at p = Accepting" "s_ctx gw = map ctx (slots p)" "s_ctx_cnt gw = int (length (slots p))"
    and "played mode p as" "accept_loop sock mode as gw closed = (r, gw', closed')"
  shows "\<exists>es p'. runs (pool_step mode) p es p' \<and> s_ctx gw' = map ctx (slots p') \<and>
    main_at p' = (if r = 0 then Accepting else Exited) \<and>
    (\<forall>s \<in> set closed'. s \<in> set closed \<or> s = sock \<or> r = 0 \<or> s \<notin> open_socks p')"
  using assms
proof (induction as arbitrary: p gw closed)
  case Nil
  then show ?case by (intro exI [of _ "[]"] exI [of _ p]) simp
next
  case (Cons a as)
  obtain es p1 where p1: "runs (pool_step mode) p es p1" "list_all (\<lambda>e. \<not> main_event e) es"
      "aa_threads a (map ctx (slots p)) = map ctx (slots p1)"
      "aa_accept a \<noteq> INVALID_SOCKET \<longrightarrow> 0 \<le> aa_accept a \<and> aa_accept a \<notin> open_socks p1"
      "\<And>p2. runs (pool_step mode) p1 (turn_events mode a (map ctx (slots p1))) p2 \<Longrightarrow> played mode p2 as"
    using Cons.prems(5) by auto
  have m: "main_at p1 = Accepting" "length (slots p1) = length (slots p)"
    using thread_runs [OF p1(1,2)] Cons.prems(2) by auto
  let ?gw = "gw\<lparr>s_ctx := aa_threads a (s_ctx gw)\<rparr>"
  have "s_ctx ?gw = map ctx (slots p1)" "s_ctx_cnt ?gw = int (length (slots p1))"
    using Cons.prems(3,4) p1(3) m(2) by simp_all
  note turn = turn_refined [OF m(1) refl this p1(4), where sock = sock and mode = mode]
  obtain p2 r1 gw1 cl where t: "runs (pool_step mode) p1 (turn_events mode a (map ctx (slots p1))) p2"
      "\<forall>as closed. accept_loop sock mode (a # as) gw closed =
        (if r1 \<noteq> 0 then (r1, gw1, closed @ cl) else accept_loop sock mode as gw1 (closed @ cl))"
      "s_ctx gw1 = map ctx (slots p2)" "s_ctx_cnt gw1 = int (length (slots p2))"
      "main_at p2 = (if r1 = 0 then Accepting else Exited)" "if r1 = 0 then cl = [] else \<forall>s \<in> set cl. s = sock \<or> s \<notin> open_socks p2"
    by (rule turn)
  have run: "runs (pool_step mode) p (es @ turn_events mode a (map ctx (slots p1))) p2"
    using p1(1) t(1) by (auto simp: runs_append)
  show ?case
  proof (cases "r1 = 0")
    case False
    with t Cons.prems(6) run show ?thesis by (intro exI conjI) auto
  next
    case True
    have "pool_ok p2" by (rule pool_turns.runs_keep [OF run Cons.prems(1)])
    from Cons.IH [OF this _ t(3,4) p1(5) [OF t(1)], of closed] True t(2,5,6) Cons.prems(6)
    obtain es' p' where p': "runs (pool_step mode) p2 es' p'" "s_ctx gw' = map ctx (slots p')"
        "main_at p' = (if r = 0 then Accepting else Exited)"
        "\<forall>s \<in> set closed'. s \<in> set closed \<or> s = sock \<or> r = 0 \<or> s \<notin> open_socks p'"
      by auto
    have "runs (pool_step mode) p ((es @ turn_events mode a (map ctx (slots p1))) @ es') p'"
      using run p'(1) by (subst runs_append) blast
    with p'(2-4) show ?thesis by blast
  qed
qed

text \<open>What an outcome of the program says of the gateway.\<close>

fun reached_by :: "smb_ctx list \<Rightarrow> int \<Rightarrow> main_outcome \<Rightarrow> bool" where
  "reached_by cs sock (Serving gw closed) =
     (\<exists>p. reach False cs p \<and> s_ctx gw = map ctx (slots p) \<and> main_at p = Accepting)"
| "reached_by cs sock (Exits code closed) =
     (code = 0 \<and> (\<exists>p. reach False cs p \<and> main_at p = Exited \<and>
        (\<forall>s \<in> set closed. s = sock \<or> s \<notin> open_socks p)))"
| "reached_by cs sock Hangs = False"

text \<open>
  C2: The program is a run of the gateway's state machine. Once started it has four idle contexts
  with buffers of 0x20008 bytes, and whatever the operating system answers and however the threads run in between, while it serves
  its contexts are those of a reachable state, and when it ends, with exit status 0, it is in a
  reachable state in which the accept loop has ended and every socket it has closed, but for the
  listening one, is closed. So the socket accounting, the isolation of connections and the delivery
  of messages hold of the program.
\<close>

theorem program_runs_in_pool:
  assumes "main_config args = Some (Inr cfg)" "\<And>b. b \<le> 8 \<Longrightarrow> heap b \<noteq> None"
    and "0 \<le> la_socket la" "0 \<le> la_setsockopt la" "0 \<le> la_ioctl la" "0 \<le> la_bind la" "la_listen la = 0"
  shows "\<exists>cs. gateway_ready cs \<and> length cs = 4 \<and> (\<forall>c \<in> set cs. ring_sizes c = (0x20008, 0x20008)) \<and>
    (\<forall>as. played False (start_pool cs) as \<longrightarrow>
    reached_by cs (la_socket la) (smbgw_main args heap la as))"
proof (rule main_started [OF assms])
  fix gw assume gw: "s_ctx_cnt gw = 4" "length (s_ctx gw) = 4" "list_all2 ready_ctx [0..3] (s_ctx gw)"
      "\<forall>c \<in> set (s_ctx gw). client_socket c = INVALID_SOCKET \<and> ring_sizes c = (0x20008, 0x20008)"
    and run: "\<forall>as. smbgw_main args heap la as =
      (case accept_loop (la_socket la) False as gw [] of
         (result, gw', closed) \<Rightarrow> if result = 0 then Serving gw' closed else Exits 0 closed)"
  let ?cs = "s_ctx gw" and ?p = "start_pool (s_ctx gw)"
  have ready: "gateway_ready ?cs" using gw by (simp add: gateway_ready_def)
  have p: "s_ctx gw = map ctx (slots ?p)" "s_ctx_cnt gw = int (length (slots ?p))" "main_at ?p = Accepting"
    using gw(1,2) by (simp_all add: start_pool_def comp_def)
  have start: "reach False ?cs ?p" by (rule reach.start)
  show ?thesis
  proof (intro exI conjI allI impI)
    show "gateway_ready ?cs" "length ?cs = 4" by (fact ready gw(2))+
    show "\<forall>c \<in> set ?cs. ring_sizes c = (0x20008, 0x20008)" using gw(4) by blast
    fix as assume "played False ?p as"
    moreover obtain r gw' closed where l: "accept_loop (la_socket la) False as gw [] = (r, gw', closed)"
      by (cases "accept_loop (la_socket la) False as gw []") auto
    ultimately obtain es p' where p': "runs (pool_step False) ?p es p'" "s_ctx gw' = map ctx (slots p')"
        "main_at p' = (if r = 0 then Accepting else Exited)"
        "\<forall>s \<in> set closed. s = la_socket la \<or> r = 0 \<or> s \<notin> open_socks p'"
      using accept_loop_refined [OF reach_pool_ok [OF start ready] p(3,1,2)] by fastforce
    have "reach False ?cs p'" by (rule reach_runs_on [OF p'(1) start])
    with p'(2-4) run l show "reached_by ?cs (la_socket la) (smbgw_main args heap la as)"
      by (cases "r = 0") (simp_all, blast+)
  qed
qed

theorem program_runs_in_pool_witness:
  "\<exists>cs. gateway_ready cs \<and> length cs = 4 \<and>
    reached_by cs 3 (smbgw_main [''smb://nas''] (\<lambda>_. Some (\<lambda>_. 0)) listens [connects 4])"
proof -
  have "butil_parse_url [[], [], [], []] (Some ''smb://nas'') main_outputs =
      \<lparr>u_result = 0, u_scheme = schemeSMB, u_host = ''nas'', u_port = 80, u_path = ''/''\<rparr>"
    using parse_smb_url [of "''nas''" 256 "[]" 256 main_outputs]
    by (simp add: main_outputs_def MAX_SMB_URL_def)
  from main_config_url [OF _ _ _ this] obtain cfg where cfg: "main_config [''smb://nas''] = Some (Inr cfg)"
    by (auto simp: MAX_SMB_URL_def)
  have "\<exists>cs. gateway_ready cs \<and> length cs = 4 \<and>
      (\<forall>c \<in> set cs. ring_sizes c = (0x20008, 0x20008)) \<and> (\<forall>as. played False (start_pool cs) as \<longrightarrow>
      reached_by cs (la_socket listens) (smbgw_main [''smb://nas''] (\<lambda>_. Some (\<lambda>_. 0)) listens as))"
    by (rule program_runs_in_pool [OF cfg]) (simp_all add: listens_def)
  moreover have "played False (start_pool cs) [connects 4]" for cs
    by (auto simp: connects_def start_pool_def intro!: exI [of _ "[]"] exI [of _ "start_pool cs"])
  moreover have "la_socket listens = 3" by (simp add: listens_def)
  ultimately show ?thesis by metis
qed

end
