(* ===== verification/Hostile.thy ===== *)
theory Hostile
  imports Sessions
begin

text \<open>
  What hostile messages do to the gateway: what the checks of a message can read, and that this is
  all a turn of any thread can do to memory; how one short message hangs the thread of its
  connection, and what a hung thread costs the gateway.
\<close>

section \<open>Reads of the checks\<close>

text \<open>
  The SMB message a half turn would complete: what the ring and the read hold, without the four
  bytes of the transport header.
\<close>

definition half_message :: "relay_dir \<Rightarrow> io_event \<Rightarrow> u8 list" where
  "half_message d ev = drop 4 (contents (d_ring d) @
     snd (tcp_read (ev_select ev) (ev_recv ev) (d_remain d - r_count (d_ring d))))"

lemma received_message:
  assumes rcv: "received_ok d ring got" and st: "d_state d = psBody"
    and got: "got = snd (tcp_read (ev_select ev) (ev_recv ev) (d_remain d - r_count (d_ring d)))"
  defines "msg \<equiv> half_message d ev" and "mem \<equiv> drop 4 (r_data ring)"
  shows "int (length msg) = r_count ring - 4" "take (length msg) mem = msg"
    "int (length mem) = r_size (d_ring d) - 4" "length msg \<le> length mem"
    "r_count ring - 4 \<le> int_max"
proof -
  have r: "ring_ok ring" "r_tail ring = 0" "4 \<le> r_count ring" "r_size ring = r_size (d_ring d)"
    "contents ring = contents (d_ring d) @ got" "8 \<le> r_size ring"
    using rcv st by (auto simp: received_ok_def)
  have c: "contents ring = take (nat (r_count ring)) (r_data ring)"
    using r by (simp add: contents_def)
  have l: "int (length (contents ring)) = r_count ring"
    by (rule length_contents [OF r(1)])
  have msg: "msg = drop 4 (contents ring)"
    by (simp add: msg_def half_message_def r(5) flip: got)
  show len: "int (length msg) = r_count ring - 4"
    using l r(3) by (simp add: msg)
  have "msg = take (nat (r_count ring) - 4) mem"
    by (simp add: msg mem_def c drop_take)
  moreover have "length msg = nat (r_count ring) - 4" using len r by simp
  ultimately show "take (length msg) mem = msg" by simp
  show "int (length mem) = r_size (d_ring d) - 4"
    using ring_okD [OF r(1)] r(4,6) by (simp add: mem_def)
  then show "length msg \<le> length mem"
    using ring_okD [OF r(1)] r len by simp
  show "r_count ring - 4 \<le> int_max"
    using r(1) by (simp add: ring_ok_def)
qed

lemma message_head:
  assumes "take (length msg) mem = msg" "msg \<noteq> []"
  shows "mem_byte mem 0 = Some (hd msg)"
proof -
  from assms have "mem \<noteq> []" by auto
  moreover from assms have "hd msg = hd mem" by (metis hd_take length_greater_0_conv)
  ultimately show ?thesis by (simp add: mem_byte_in hd_conv_nth)
qed

lemma relay_half_body:
  assumes rcv: "received_ok d ring got" and st: "d_state d = psBody" "r_count ring = d_remain d"
    and "relay_half c ord pass ev d = relay_received c ord pass ev d ring p got"
  shows "relay_half c ord pass ev d = Faults \<longleftrightarrow> body_check c ord pass ring = Faults"
    "relay_half c ord pass ev d = Diverges \<longleftrightarrow> body_check c ord pass ring = Diverges"
  using assms received_ok_ring(1) [OF rcv] received_ok_ring(2) [OF rcv st(1)]
  by (auto simp: relay_received_def relay_body_eq split: outcome.splits prod.splits)

text \<open>
  The messages whose checks stay inside the buffer: none, SMB1 but for a bare header, too short for
  SMB2, and SMB2 whose links stay inside the message.
\<close>

definition safe_message :: "u8 list \<Rightarrow> bool" where
  "safe_message m \<longleftrightarrow> m = [] \<or>
     (if hd m = 0xFF then length m \<noteq> 32 else length m < 64 \<or> smb2_inside m)"

lemma safe_message_check:
  assumes "safe_message m" "take (length m) mem = m" "length m \<le> length mem" "int (length m) \<le> int_max"
    and "v1_reach \<le> int (length mem)"
  shows "smbproto_packet c ord mem (int (length m)) \<noteq> Faults"
proof (cases "m = []")
  case True
  then show ?thesis by (simp add: smbproto_packet_def)
next
  case False
  have b: "mem_byte mem 0 = Some (hd m)" by (rule message_head [OF assms(2) False])
  have one: "\<not> int (length m) < 1" using False by (cases m) simp_all
  show ?thesis
  proof (cases "hd m = 0xFF")
    case True
    have "smbproto_v1_packet c ord mem (int (length m)) \<noteq> Faults"
    proof (cases "length m < 32")
      case True
      then show ?thesis using v1_packet_rejects [of "int (length m)" mem c ord] by auto
    next
      case long: False
      then show ?thesis
        using assms True False by (intro v1_packet_safe) (auto simp: safe_message_def)
    qed
    then show ?thesis unfolding smbproto_packet_def b using one True by simp
  next
    case other: False
    have "mem = m @ drop (length m) mem" using assms(2) by (metis append_take_drop_id)
    moreover have "length m < 64 \<or> smb2_inside m" using assms(1) other False by (simp add: safe_message_def)
    ultimately have "smbproto_v2_packet c ord mem (int (length m)) \<noteq> Faults" by (metis v2_packet_safe)
    then show ?thesis unfolding smbproto_packet_def b using one other by simp
  qed
qed

text \<open>The message that a half turn completes, and so checks, if it completes one.\<close>

definition completed :: "relay_dir \<Rightarrow> io_event \<Rightarrow> u8 list set" where
  "completed d ev =
     (if d_state d = psBody \<and> int (length (half_message d ev)) + 4 = d_remain d
      then {half_message d ev} else {})"

lemma relay_half_safe:
  assumes ok: "dir_ok d" and size: "v1_reach + 4 \<le> r_size (d_ring d)"
    and safe: "pass \<or> (\<forall>m \<in> completed d ev. safe_message m)"
  shows "relay_half isclient ord pass ev d \<noteq> Faults"
proof (rule relay_half_cases [OF ok, of isclient ord pass ev])
  fix ring got assume rcv: "received_ok d ring got"
    and got: "got = snd (tcp_read (ev_select ev) (ev_recv ev) (d_remain d - r_count (d_ring d)))"
    and eq: "relay_half isclient ord pass ev d = relay_received isclient ord pass ev d ring (r_head (d_ring d)) got"
  show ?thesis
  proof (cases "r_count ring = d_remain d \<and> d_state d \<noteq> psHeader")
    case False
    with relay_header_safe [OF ok rcv] show ?thesis by (auto simp: eq relay_received_def)
  next
    case True
    then have st: "d_state d = psBody" using rcv by (auto simp: received_ok_def)
    note m = received_message [OF rcv st got]
    have fin: "completed d ev = {half_message d ev}"
      using st m(1) True by (simp add: completed_def)
    have "body_check isclient ord pass ring \<noteq> Faults"
    proof (cases pass)
      case False
      then have "smbproto_packet isclient ord (drop 4 (r_data ring)) (int (length (half_message d ev))) \<noteq> Faults"
        using safe fin m size by (intro safe_message_check) simp_all
      with m(1) False show ?thesis by (simp add: body_check_def)
    qed (simp add: body_check_def)
    with relay_half_body [OF rcv st _ eq] True show ?thesis by simp
  qed
qed auto

text \<open>
  No SMB1 message can make the gateway read outside its receive buffer, in either direction and
  at any point of the stream, as long as the buffer holds 65565 bytes (the gateway's holds 131080):
  the one exception is a message of exactly one header.
\<close>

theorem relay_smb1_memory_safe:
  assumes ok: "dir_ok d" and size: "v1_reach + 4 \<le> r_size (d_ring d)"
    and smb1: "half_message d ev = [] \<or> hd (half_message d ev) = 0xFF \<and> length (half_message d ev) \<noteq> 32"
  shows "relay_half isclient ord pass ev d \<noteq> Faults"
  using assms by (intro relay_half_safe) (auto simp: safe_message_def completed_def)

definition big_dir :: "u8 list \<Rightarrow> int \<Rightarrow> relay_dir" where
  "big_dir pre want =
     \<lparr>d_ring = \<lparr>r_head = int (length pre), r_tail = 0, r_count = int (length pre), r_size = 131080,
                r_data = pre @ replicate (131080 - length pre) 0\<rparr>,
      d_state = psBody, d_remain = want\<rparr>"

lemma big_dir_ok:
  "4 \<le> length pre \<Longrightarrow> int (length pre) \<le> want \<Longrightarrow> want \<le> 131000 \<Longrightarrow> dir_ok (big_dir pre want)"
  by (simp add: dir_ok_def big_dir_def ring_ok_def int_max_def max_body_def)

lemma contents_big_dir: "contents (d_ring (big_dir pre want)) = pre"
  by (simp add: contents_def big_dir_def)

theorem relay_smb1_memory_safe_witness:
  "relay_half True 0 False (arrives [0xFF, 0x53]) (big_dir [0, 0, 0, 2] 6) \<noteq> Faults"
proof -
  let ?d = "big_dir [0, 0, 0, 2] 6" and ?ev = "arrives [0xFF, 0x53]"
  have "tcp_read (ev_select ?ev) (ev_recv ?ev) 2 = (2, [0xFF, 0x53])" by code_simp
  then have "half_message ?d ?ev = [0xFF, 0x53]"
    unfolding half_message_def contents_big_dir by (simp add: big_dir_def)
  moreover have "dir_ok ?d" by (rule big_dir_ok) simp_all
  moreover have "v1_reach + 4 \<le> r_size (d_ring ?d)" by (simp add: big_dir_def v1_reach_def)
  ultimately show ?thesis by (intro relay_smb1_memory_safe) simp_all
qed

text \<open>
  The messages that a turn completes and checks: the client's, and the server's where the client's
  half has not ended the connection.
\<close>

definition turn_messages :: "smb_ctx \<Rightarrow> relay_conn \<Rightarrow> io_event \<Rightarrow> io_event \<Rightarrow> u8 list set" where
  "turn_messages c conn ec es =
     (if passthrough c then {}
      else completed (c_client conn) ec \<union>
        (case client_half (ordinal c) False ec (c_client conn) of
           Returns h \<Rightarrow> if h_result h = 0 then completed (c_server conn) es else {}
         | _ \<Rightarrow> {}))"

text \<open>
  C9: The gateway is memory safe but for messages that can be named: in every reachable state, with
  buffers of at least 65565 bytes (main allocates 0x20008), no turn of any connection reads or
  writes outside its buffers, whatever the sockets answer, unless a message that the turn completes,
  and so checks, is an SMB1 header on its own or an SMB2 message whose links lead out of it; so the
  thread can take the turn. Messages that are still incomplete and all those of a connection without
  checks are unrestricted.
\<close>

theorem gateway_memory_safe:
  assumes "reach mode cs p" "gateway_ready cs"
    and "\<forall>c \<in> set cs. v1_reach + 4 \<le> r_size (client_ring c) \<and> v1_reach + 4 \<le> r_size (server_ring c)"
    and "i < length (slots p)" "relaying (pc (slots p ! i))"
  defines "c \<equiv> ctx (slots p ! i)" and "conn \<equiv> conn_of (slots p ! i)"
  assumes "\<forall>m \<in> turn_messages c conn ec es. safe_message m"
  shows "relay_loop (ordinal c) (passthrough c) [(ec, es)] conn no_io \<noteq> Faults \<and>
    (\<exists>p'. pool_step mode p (Relay i ec es) p' \<or> pool_step mode p (Hang i ec es) p')"
proof -
  obtain cs' cr ss sr where pc: "pc (slots p ! i) = Relaying cs' cr ss sr"
    using assms(5) by (cases "pc (slots p ! i)") auto
  then have conn: "conn = slot_conn c cs' cr ss sr" by (simp add: conn_def conn_of_def c_def)
  have ok: "conn_ok conn"
    using pool_ok_slot(1) [OF reach_pool_ok [OF assms(1,2)] assms(4)] pc
    by (simp add: conn c_def slot_ok_def Let_def)
  have len: "length (slots p) = length cs"
    using arg_cong [OF reach_sizes [OF assms(1,2)], of length] by simp
  then have "ring_sizes c = ring_sizes (cs ! i)"
    using arg_cong [OF reach_sizes [OF assms(1,2)], of "\<lambda>xs. xs ! i"] assms(4) by (simp add: c_def)
  moreover have "cs ! i \<in> set cs" using assms(4) len by simp
  ultimately have size: "v1_reach + 4 \<le> r_size (d_ring (c_client conn))" "v1_reach + 4 \<le> r_size (d_ring (c_server conn))"
    using assms(3) by (auto simp: ring_sizes_def conn slot_conn_def)
  have "passthrough c \<or> (\<forall>m \<in> completed (c_client conn) ec. safe_message m)"
    using assms(8) by (cases "passthrough c") (simp_all add: turn_messages_def)
  with relay_half_safe [OF _ size(1), of "passthrough c" ec True "ordinal c"] ok
  have "client_half (ordinal c) (passthrough c) ec (c_client conn) \<noteq> Faults"
    by (simp add: client_half_def conn_ok_def)
  moreover have "server_half (ordinal c) (passthrough c) es (c_server conn) \<noteq> Faults"
    if "client_half (ordinal c) (passthrough c) ec (c_client conn) = Returns h" "h_result h = 0" for h
  proof -
    have "passthrough c \<or> (\<forall>m \<in> completed (c_server conn) es. safe_message m)"
      using assms(8) that by (cases "passthrough c") (simp_all add: turn_messages_def)
    with relay_half_safe [OF _ size(2), of "passthrough c" es False "ordinal c"] ok show ?thesis
      by (simp add: server_half_def conn_ok_def)
  qed
  ultimately have safe: "relay_loop (ordinal c) (passthrough c) [(ec, es)] conn no_io \<noteq> Faults"
    by (auto simp: Let_def split: outcome.split)
  with turn_possible [OF assms(4,5), of ec es mode] show ?thesis by (simp only: c_def conn_def simp_thms not_False_eq_True)
qed

text \<open>The header of a message of two bytes arrives at a new connection, and then the message.\<close>

definition short_header :: "u8 list" where
  "short_header = [0, 0, 0, 2]"

lemma short_header_turn:
  assumes "fresh_ring ring"
  obtains ring1 where "dir_run True ord pass [arrives short_header] (start_dir ring) =
      Returns (0, \<lparr>d_ring = ring1, d_state = psBody, d_remain = 6\<rparr>, short_header, [])"
    "contents ring1 = short_header" "r_count ring1 = 4"
proof -
  let ?d = "start_dir ring" and ?ev = "arrives short_header"
  have ok: "dir_ok ?d" and d: "d_state ?d = psHeader" "r_count (d_ring ?d) = 0" "contents ring = []"
    using start_dir_ok [OF assms] assms by (simp_all add: start_dir_def fresh_ring_def contents_def)
  have got: "short_header = snd (tcp_read (ev_select ?ev) (ev_recv ?ev) (4 - r_count (d_ring ?d)))"
    "r_count (d_ring ?d) + int (length short_header) = 4"
    using d(2) by (simp_all add: short_header_def arrives_def tcp_read_def os_recv_def clip_def)
  have want: "packet_header short_header = 2" by code_simp
  from relay_half_header [OF ok d(1) got, of True ord pass] want obtain ring1 where
    h: "relay_half True ord pass ?ev ?d = Returns \<lparr>h_result = 0,
      h_dir = \<lparr>d_ring = ring1, d_state = psBody, d_remain = 6\<rparr>,
      h_recv = short_header, h_sent = [], h_log = []\<rparr>"
    using d(2) by (auto simp: short_header_def)
  have post: "dir_ok \<lparr>d_ring = ring1, d_state = psBody, d_remain = 6\<rparr>" "contents ring1 = short_header"
    using relay_half_post [OF ok h] d(3) by (simp_all add: half_post_def start_dir_def)
  then have "r_count ring1 = 4"
    using length_contents [of ring1] by (simp add: dir_ok_def short_header_def)
  with that h post(2) show thesis by (simp add: dir_run.simps(2))
qed

theorem gateway_memory_safe_witness:
  "\<exists>p p'. pool_step False (connected_pool 65600) (Relay 0 (arrives short_header) idle) p \<and>
     (pool_step False p (Relay 0 (arrives [0xFF, 0x53]) idle) p' \<or> pool_step False p (Hang 0 (arrives [0xFF, 0x53]) idle) p') \<and>
     turn_messages (ctx (slots p ! 0)) (conn_of (slots p ! 0)) (arrives [0xFF, 0x53]) idle = {[0xFF, 0x53]}"
proof -
  let ?q = "connected_pool 65600" and ?c = "ctx (slots (connected_pool 65600) ! 0)" and ?ev = "arrives [0xFF, 0x53]"
  have ready: "gateway_ready [idle_ctx 65600]" by (rule idle_ready) (simp_all add: int_max_def)
  have size: "\<forall>c \<in> set [idle_ctx 65600]. v1_reach + 4 \<le> r_size (client_ring c) \<and> v1_reach + 4 \<le> r_size (server_ring c)"
    by (simp add: idle_ctx_def empty_ring_def v1_reach_def)
  note con = connected_serving [OF reach_pool_ok [OF reach_accepted ready] connected_step connected_ctx(4)]
  obtain ring1 where r: "dir_run True (ordinal ?c) (passthrough ?c) [arrives short_header] (start_dir (client_ring ?c)) =
      Returns (0, \<lparr>d_ring = ring1, d_state = psBody, d_remain = 6\<rparr>, short_header, [])"
      "contents ring1 = short_header" "r_count ring1 = 4"
    by (rule short_header_turn [OF con(3), of "ordinal ?c" "passthrough ?c"])
  let ?conn = "\<lparr>c_client = \<lparr>d_ring = ring1, d_state = psBody, d_remain = 6\<rparr>, c_server = start_dir (server_ring ?c)\<rparr>"
  obtain io where "relay_loop (ordinal ?c) (passthrough ?c) [(arrives short_header, idle)] (conn_of (slots ?q ! 0)) no_io =
      Returns (0, ?conn, io)"
    using relay_loop_silent [of "start_conn (client_ring ?c) (server_ring ?c)", OF _ con(4)] r(1)
    by (simp add: con(2) start_conn_def idle_def del: relay_loop.simps)
  from serving_can_turn(1) [OF con(1) this] obtain p where p: "pool_step False ?q (Relay 0 (arrives short_header) idle) p"
      "serving p 0" "slots p ! 0 = slot_after ?c 0 ?conn" by blast
  then have c: "conn_of (slots p ! 0) = ?conn" "\<not> passthrough (ctx (slots p ! 0))"
    using connected_ctx(1) by (simp_all add: slot_after_again)
  have rd: "tcp_read (ev_select ?ev) (ev_recv ?ev) 2 = (2, [0xFF, 0x53])" by code_simp
  have "completed (c_client ?conn) ?ev = {[0xFF, 0x53]}" "completed (c_server ?conn) idle = {}"
    using r(2,3) rd by (simp_all add: completed_def half_message_def short_header_def start_dir_def)
  then have msgs: "turn_messages (ctx (slots p ! 0)) (conn_of (slots p ! 0)) ?ev idle = {[0xFF, 0x53]}"
    using c by (auto simp: turn_messages_def split: outcome.split)
  then have safe: "\<forall>m \<in> turn_messages (ctx (slots p ! 0)) (conn_of (slots p ! 0)) ?ev idle. safe_message m"
    by (simp add: safe_message_def)
  have run: "0 < length (slots p)" "relaying (pc (slots p ! 0))" using p(2) by (simp_all add: serving_def)
  from gateway_memory_safe [OF reach.more [OF reach.more [OF reach_accepted connected_step] p(1)] ready size run safe] msgs p(1)
  show ?thesis by blast
qed

text \<open>
  One short message can hang a connection's thread for good: when the message that a checked
  direction completes is an SMB1 ANDX command whose block names itself, the half turn never
  returns, so the thread neither relays nor closes its sockets again.
\<close>

theorem relay_hangs_on_self_reference:
  assumes ok: "dir_ok d" and st: "d_state d = psBody" and size: "63 \<le> r_size (d_ring d)"
    and complete: "int (length (half_message d ev)) = d_remain d - 4"
    and msg: "m = half_message d ev" "37 \<le> length m" "take 4 m = smb_magic"
      "smbproto_is_andx_command (m ! 4)" "m ! 33 = m ! 4" "m ! 35 = 0" "m ! 36 = 33"
    and read: "0 \<le> fst (tcp_read (ev_select ev) (ev_recv ev) (d_remain d - r_count (d_ring d)))"
    and room: "d_remain d \<le> r_size (d_ring d)"
  shows "relay_half isclient ord False ev d = Diverges"
proof (rule relay_half_cases [OF ok, of isclient ord False ev])
  have z: "ring_ok (d_ring d)" "r_tail (d_ring d) = 0" using ok by (auto simp: dir_ok_def)
  assume "ring_room (d_ring d) < d_remain d - r_count (d_ring d) \<or>
    fst (tcp_read (ev_select ev) (ev_recv ev) (d_remain d - r_count (d_ring d))) < 0"
  with read room show ?thesis by (simp add: ring_from_zero(4) [OF z])
next
  fix ring got assume rcv: "received_ok d ring got"
    and got: "got = snd (tcp_read (ev_select ev) (ev_recv ev) (d_remain d - r_count (d_ring d)))"
    and eq: "relay_half isclient ord False ev d = relay_received isclient ord False ev d ring (r_head (d_ring d)) got"
  note r = received_message [OF rcv st got]
  define mem where "mem = drop 4 (r_data ring)"
  have full: "r_count ring = d_remain d" using r(1) complete by simp
  have nth: "mem ! i = m ! i" if "i < 37" for i
  proof -
    have "i < length m" using that msg(2) by simp
    then show ?thesis using r(2) by (metis mem_def msg(1) nth_take)
  qed
  have magic: "take 4 mem = smb_magic"
  proof -
    have "take 4 mem = take 4 (take (length m) mem)" using msg(2) by simp
    then show ?thesis using r(2) msg(1,3) by (simp add: mem_def)
  qed
  have "smbproto_v1_packet isclient ord mem (r_count ring - 4) = Diverges"
    using msg r(1,3-5) size magic nth [of 4] nth [of 33] nth [of 35] nth [of 36]
    by (intro v1_packet_self_loop) (simp_all add: mem_def)
  moreover have "m \<noteq> []" "hd m = 0xFF"
    using msg(2,3) by (cases m; simp add: smb_magic_def)+
  then have "mem_byte mem 0 = Some 0xFF"
    using message_head [OF r(2)] msg(1) by (simp add: mem_def)
  moreover have "1 \<le> r_count ring - 4" using r(1) msg(1,2) by simp
  ultimately have "body_check isclient ord False ring = Diverges"
    by (simp add: body_check_def smbproto_packet_def mem_def)
  with relay_half_body(2) [OF rcv st full eq] show ?thesis by simp
qed

definition hanging_message :: "u8 list" where
  "hanging_message = sample_v1 SMB_COM_READ_ANDX [2, SMB_COM_READ_ANDX, 0, 0, 33]"

theorem relay_hangs_on_self_reference_witness:
  "relay_half True 0 False (arrives hanging_message) (big_dir [0, 0, 0, 37] 41) = Diverges"
proof -
  let ?d = "big_dir [0, 0, 0, 37] 41" and ?ev = "arrives hanging_message"
  have rd: "tcp_read (ev_select ?ev) (ev_recv ?ev) 37 = (37, hanging_message)" by code_simp
  then have m: "half_message ?d ?ev = hanging_message"
    unfolding half_message_def contents_big_dir by (simp add: big_dir_def)
  show ?thesis
  proof (rule relay_hangs_on_self_reference [where m = hanging_message])
    show "dir_ok ?d" by (rule big_dir_ok) simp_all
    show "hanging_message = half_message ?d ?ev" by (simp add: m)
    show "0 \<le> fst (tcp_read (ev_select ?ev) (ev_recv ?ev) (d_remain ?d - r_count (d_ring ?d)))"
      using rd by (simp add: big_dir_def)
  qed (simp_all add: m, simp_all add: hanging_message_def big_dir_def smbproto_is_andx_command_def)
qed

section \<open>A hung thread\<close>

text \<open>An SMB1 ANDX message whose block names its own command and offset, as it comes to the walk.\<close>

definition self_referring :: "u8 list \<Rightarrow> bool" where
  "self_referring m \<longleftrightarrow> 37 \<le> length m \<and> take 4 m = smb_magic \<and> smbproto_is_andx_command (m ! 4) \<and>
     m ! 33 = m ! 4 \<and> m ! 35 = 0 \<and> m ! 36 = 33"

lemma self_referring_walk:
  assumes "self_referring m" "59 \<le> length m + length rest" "int (length m) \<le> int_max"
  shows "smbproto_packet c ord (m @ rest) (int (length m)) = Diverges"
proof -
  have m: "37 \<le> length m" "take 4 m = smb_magic" using assms(1) by (simp_all add: self_referring_def)
  then have "0 < length m" "hd m = hd smb_magic" by (auto dest: arg_cong [of _ _ hd])
  then obtain b where "m = 0xFF # b" by (cases m) (auto simp: smb_magic_def)
  then have "mem_byte (m @ rest) 0 = Some 0xFF" by (simp add: mem_byte_def)
  moreover have "smbproto_v1_packet c ord (m @ rest) (int (length m)) = Diverges"
    using assms m by (intro v1_packet_self_loop) (simp_all add: self_referring_def nth_append)
  moreover have "1 \<le> int (length m)" using m(1) by simp
  ultimately show ?thesis by (simp only: smbproto_packet_def not_less [symmetric] if_False option.case if_True refl)
qed

text \<open>The loop hangs when its client direction does, while the server is silent.\<close>

lemma relay_loop_client_hangs:
  assumes "dir_run True ord pass (map fst evs) (c_client c) = Diverges"
    and "c_server c = start_dir sr" "fresh_ring sr" "\<forall>e \<in> set evs. ev_select (snd e) = 0"
  shows "relay_loop ord pass evs c io = Diverges"
  using assms(1) by (simp add: relay_loop_silent [OF assms(2-4)])

lemma self_referring_hangs:
  assumes "fresh_ring cr" "fresh_ring sr" "self_referring m" "63 \<le> r_size cr"
    and "length m \<le> 0x1FFFFF" "int (length m) + 4 \<le> r_size cr"
    and "comes_whole (map fst evs) (transport m)" "\<forall>e \<in> set evs. ev_select (snd e) = 0"
  shows "relay_loop ord False evs (start_conn cr sr) io = Diverges"
proof -
  have len: "length (transport m) = length m + 4" "drop 4 (transport m) = m"
    by (simp_all add: transport_def)
  have "is_message (transport m)" using assms(5) by (intro transport_message) simp
  then have "fits_relay cr (transport m)" using assms(5,6) len(1) by (simp add: fits_relay_def)
  from message_fate [OF assms(1) this assms(7), of True ord False] obtain rest where
    rest: "int (length rest) = r_size cr - int (length (transport m))" and
    f: "fate cr (transport m) (message_check True ord False (transport m) rest)
      (dir_run True ord False (map fst evs) (start_dir cr))" by blast
  have "smbproto_packet True ord (m @ rest) (int (length m)) = Diverges"
    using assms(3-5) rest len(1) by (intro self_referring_walk) (simp_all add: int_max_def)
  then have "message_check True ord False (transport m) rest = Diverges"
    using len by (simp add: message_check_def)
  with f have "dir_run True ord False (map fst evs) (start_dir cr) = Diverges" by simp
  with assms(2,8) show ?thesis
    by (intro relay_loop_client_hangs [where sr = sr]) (simp_all add: start_conn_def)
qed

text \<open>
  C12: A client can take its context away from the gateway for good with one message of 41 bytes:
  whoever connects while the checks are on and sends an SMB1 ANDX message that names itself, in any
  pieces after its header, while the server is silent, leaves the context's thread in a turn that
  never ends; the thread can get there, and it does in every interleaving in which it takes these
  turns.
\<close>

theorem client_hangs_context:
  assumes "reach mode cs q" "gateway_ready cs" "pool_step mode q (Connect i s) p" "main_at q \<noteq> SettingMode i"
  defines "c \<equiv> ctx (slots p ! i)"
  assumes "\<not> passthrough c" "63 \<le> r_size (client_ring c)"
    and "self_referring m" "length m \<le> 0x1FFFFF" "int (length m) + 4 \<le> r_size (client_ring c)"
    and "comes_whole (map fst evs) (transport m)" "\<forall>e \<in> set evs. ev_select (snd e) = 0"
  shows "(\<exists>es n p'. runs (pool_step mode) p es p' \<and> relay_events i es = take n evs \<and> stuck p' i) \<and>
    (\<forall>es p'. runs (pool_step mode) p es p' \<and> relay_events i es = evs \<and> CloseClient i \<notin> set es \<longrightarrow> stuck p' i)"
proof -
  note ok = reach_pool_ok [OF assms(1,2)]
  note con = connected_serving [OF ok assms(3,4), folded c_def]
  note ok' = pool_turns.step_keeps [OF ok assms(3)]
  have hang: "relay_loop (ordinal c) (passthrough c) evs (conn_of (slots p ! i)) no_io = Diverges"
    using self_referring_hangs [OF con(3,4)] assms(6-12) con(2) by simp
  moreover have "stuck p' i" if "runs (pool_step mode) p es p'" "relay_events i es = evs" "CloseClient i \<notin> set es"
    for es p'
  proof -
    have "length (slots p') = length (slots p)" using that(1) by (induction rule: runs.induct) (simp_all add: step_slots)
    with serving_run [OF that(1) con(1) ok' that(3)] hang that(2) con(1) show ?thesis
      by (simp add: c_def stuck_def serving_def del: relay_loop.simps)
  qed
  ultimately show ?thesis
    using serving_can_hang [OF con(1), of evs mode] by (auto simp: c_def)
qed

definition hang_evs :: "(io_event \<times> io_event) list" where
  "hang_evs = [(arrives (take 4 (transport hanging_message)), idle), (arrives (drop 4 (transport hanging_message)), idle)]"

lemma hang_evs_props:
  "self_referring hanging_message" "length hanging_message = 37"
  "comes_whole (map fst hang_evs) (transport hanging_message)" "\<forall>e \<in> set hang_evs. ev_select (snd e) = 0"
proof -
  let ?m = "transport hanging_message"
  show "self_referring hanging_message" "length hanging_message = 37"
    by (simp_all add: self_referring_def hanging_message_def smbproto_is_andx_command_def)
  then have "4 < length ?m" by (simp add: transport_def)
  then show "comes_whole (map fst hang_evs) ?m" by (simp add: hang_evs_def comes_in_two)
  show "\<forall>e \<in> set hang_evs. ev_select (snd e) = 0" by (simp add: hang_evs_def idle_def)
qed

theorem client_hangs_context_witness:
  "\<exists>es p'. runs (pool_step False) (connected_pool 80) es p' \<and> stuck p' 0"
proof -
  have "self_referring hanging_message" "length hanging_message \<le> 0x1FFFFF"
      "63 \<le> r_size (client_ring (ctx (slots (connected_pool 80) ! 0)))"
      "int (length hanging_message) + 4 \<le> r_size (client_ring (ctx (slots (connected_pool 80) ! 0)))"
    using hang_evs_props(1,2) connected_ctx(3) [of 80] by (simp_all add: ring_sizes_def)
  from client_hangs_context [OF reach_accepted idle_ready80 connected_step connected_ctx(4,1) this(3,1,2,4)
      hang_evs_props(3,4)] show ?thesis by blast
qed

text \<open>
  C13: A hung thread hangs for good, and four of them end the service: whatever happens after a
  turn of a context that never returns, the context stays stuck and keeps its client, and its two
  sockets stay open; and once the threads of all contexts hang, the accept loop accepts at most one
  more client, and no context changes any more.
\<close>

theorem pool_hang_is_forever:
  assumes "reach mode cs p" "gateway_ready cs" "stuck p i" "runs (pool_step mode) p es p'"
  shows "stuck p' i \<and> sockets_of (slots p' ! i) = sockets_of (slots p ! i) \<and>
    {fst (sockets_of (slots p ! i)), snd (sockets_of (slots p ! i))} \<subseteq> open_socks p' \<and>
    ((\<forall>j < length (slots p). stuck p j) \<and> main_at p = Accepting \<longrightarrow>
      length (filter accepts es) \<le> 1 \<and> slots p' = slots p)"
proof -
  note ok = reach_pool_ok [OF assms(1,2)]
  have "(\<forall>j < length (slots p). stuck p j) \<longrightarrow> (\<forall>sl \<in> set (slots p). pc sl = Stuck)"
    by (auto simp: stuck_def in_set_conv_nth)
  with all_stuck_run [OF assms(4) ok] have "(\<forall>j < length (slots p). stuck p j) \<and> main_at p = Accepting \<longrightarrow>
      length (filter accepts es) \<le> 1 \<and> slots p' = slots p" by auto
  moreover have st: "stuck p' i" "sockets_of (slots p' ! i) = sockets_of (slots p ! i)"
    using stuck_run [OF assms(4) ok assms(3)] by auto
  moreover have "{fst (sockets_of (slots p' ! i)), snd (sockets_of (slots p' ! i))} \<subseteq> open_socks p'"
    using stuck_holds(2) [OF pool_turns.runs_keep [OF assms(4) ok] st(1)] by (simp add: sockets_of_def)
  ultimately show ?thesis by simp
qed

lemma reach_stuck: "\<exists>p. reach False [idle_ctx 80] p \<and> stuck p 0 \<and> main_at p = Accepting \<and> length (slots p) = 1"
proof -
  note ok = reach_pool_ok [OF reach_accepted idle_ready80]
  note con = connected_serving [OF ok connected_step connected_ctx(4)]
  have "relay_loop (ordinal (ctx (slots (connected_pool 80) ! 0))) (passthrough (ctx (slots (connected_pool 80) ! 0)))
      hang_evs (conn_of (slots (connected_pool 80) ! 0)) no_io = Diverges"
    unfolding con(2) using connected_ctx [of 80] hang_evs_props(1,2)
    by (simp add: ring_sizes_def self_referring_hangs [OF con(3,4) _ _ _ _ hang_evs_props(3,4)])
  from serving_can_hang [OF con(1) this] obtain es n p where
    p: "runs (pool_step False) (connected_pool 80) es p" "stuck p 0" "main_at p = main_at (connected_pool 80)" by blast
  have "reach False [idle_ctx 80] p"
    by (rule reach_runs_on [OF p(1) reach.more [OF reach_accepted connected_step]])
  moreover have "length (slots p) = length (slots (connected_pool 80))"
    using p(1) by (induction rule: runs.induct) (simp_all add: step_slots)
  ultimately show ?thesis using p(2,3) by (auto simp: connected_pool_def)
qed

theorem pool_hang_is_forever_witness:
  "\<exists>p. reach False [idle_ctx 80] p \<and> (\<forall>es p'. runs (pool_step False) p es p' \<longrightarrow>
     stuck p' 0 \<and> fst (sockets_of (slots p ! 0)) \<in> open_socks p' \<and> length (filter accepts es) \<le> 1)"
proof -
  obtain p where p: "reach False [idle_ctx 80] p" "stuck p 0" "main_at p = Accepting" "length (slots p) = 1"
    using reach_stuck by blast
  then have "\<forall>j < length (slots p). stuck p j" by simp
  with p pool_hang_is_forever [OF p(1) idle_ready80 p(2)] show ?thesis by blast
qed

end
