(* ===== verification/Base64.thy ===== *)
theory Base64
  imports Clib
begin

text \<open>
  The base64 codec of \<open>butil.c\<close>. Sizes are \<open>size_t\<close> words and wrap around as in C. The
  functions return the value of the C function and everything it writes before the final NUL,
  whatever the size of the output block, so that what fits is a theorem and not an assumption.
\<close>

section \<open>Decoding\<close>

definition base64_value :: "char \<Rightarrow> u32 option" where
  "base64_value c =
     (if in_range CHR ''A'' CHR ''Z'' c then Some (of_int (c_char c - c_char CHR ''A''))
      else if in_range CHR ''a'' CHR ''z'' c then Some (of_int (c_char c - c_char CHR ''a'' + 26))
      else if in_range CHR ''0'' CHR ''9'' c then Some (of_int (c_char c - c_char CHR ''0'' + 52))
      else if c = CHR ''+'' \<or> c = CHR ''-'' then Some 62
      else if c = CHR ''/'' \<or> c = CHR ''_'' then Some 63
      else None)"

text \<open>The loop: \<open>errors\<close>, \<open>bits\<close>, \<open>outchars\<close> and the bytes written when it ends.\<close>

fun decode_loop ::
    "u64 \<Rightarrow> string \<Rightarrow> u32 \<Rightarrow> u32 \<Rightarrow> u8 list \<Rightarrow> nat \<times> u32 \<times> u32 \<times> u8 list" where
  "decode_loop outsize [] bits outchars out = (0, bits, outchars, out)"
| "decode_loop outsize (c # src) bits outchars out =
     (if outsize < 4 then (1, bits, outchars, out)
      else case base64_value c of
        None \<Rightarrow> (0, bits, outchars, out)
      | Some v \<Rightarrow>
          let bits = bits + v; outchars = outchars + 1 in
          if outchars = 4
          then decode_loop outsize src 0 0
                 (out @ [ucast (drop_bit 16 bits), ucast (drop_bit 8 bits AND 0xFF), ucast (bits AND 0xFF)])
          else decode_loop outsize src (push_bit 6 bits) outchars out)"

definition decode_tail :: "u64 \<Rightarrow> nat \<times> u32 \<times> u32 \<times> u8 list \<Rightarrow> nat \<times> u8 list" where
  "decode_tail outsize s =
     (case s of (errors, bits, outchars, out) \<Rightarrow>
        if outchars = 1 then (errors + 1, out)
        else if outchars = 2
        then (if outsize < 2 then (errors + 1, out) else (errors, out @ [ucast (drop_bit 10 bits)]))
        else if outchars = 3
        then (if outsize < 3 then (errors + 1, out)
              else (errors, out @ [ucast (drop_bit 16 bits), ucast (drop_bit 8 bits AND 0xFF)]))
        else (errors, out))"

definition butil_base64_decode :: "u64 \<Rightarrow> string \<Rightarrow> int \<times> u8 list" where
  "butil_base64_decode outsize src =
     (let (errors, out) = decode_tail outsize (decode_loop outsize src 0 0 [])
      in (if errors \<noteq> 0 then -1 else int (length out), out))"

section \<open>Encoding\<close>

definition base64_hexencode_byte :: "char \<Rightarrow> string" where
  "base64_hexencode_byte byte =
     (if byte = CHR ''+'' then ''%2B''
      else if byte = CHR ''/'' then ''%2F''
      else if byte = CHR ''='' then ''%3D''
      else [byte])"

definition s_alphabet64_base :: string where
  "s_alphabet64_base = ''ABCDEFGHIJKLMNOPQRSTUVWXYZabcdefghijklmnopqrstuvwxyz0123456789+/''"

definition s_alphabet64_url :: string where
  "s_alphabet64_url = ''ABCDEFGHIJKLMNOPQRSTUVWXYZabcdefghijklmnopqrstuvwxyz0123456789-_''"

definition group_bits :: "u8 list \<Rightarrow> u32" where
  "group_bits src =
     (let b1 = src ! 0; b2 = (if 1 < length src then src ! 1 else 0);
          b3 = (if 2 < length src then src ! 2 else 0)
      in push_bit 16 (ucast b1) OR push_bit 8 (ucast b2) OR ucast b3)"

text \<open>What one turn writes for the source bytes from \<open>k\<close> on, and what it adds to \<open>j\<close>.\<close>

definition encode_group :: "string \<Rightarrow> bool \<Rightarrow> bool \<Rightarrow> u8 list \<Rightarrow> string \<times> u64" where
  "encode_group alphabet urlencode hexescape src =
     (let d = group_bits src;
          c1 = alphabet ! unat (drop_bit 18 d); c2 = alphabet ! unat (drop_bit 12 d AND 0x3F);
          c3 = alphabet ! unat (drop_bit 6 d AND 0x3F); c4 = alphabet ! unat (d AND 0x3F)
      in if hexescape
         then let s = base64_hexencode_byte c1 @ base64_hexencode_byte c2 @
                (if 1 < length src then base64_hexencode_byte c3 else base64_hexencode_byte CHR ''='') @
                (if 2 < length src then base64_hexencode_byte c4 else base64_hexencode_byte CHR ''='')
              in (s, of_nat (length s))
         else ([c1, c2] @
                (if 1 < length src then [c3] else if \<not> urlencode then ''='' else []) @
                (if 2 < length src then [c4] else if \<not> urlencode then ''='' else []), 4))"

text \<open>The loop: the characters written and the source bytes left when it ends.\<close>

function encode_loop ::
    "string \<Rightarrow> bool \<Rightarrow> bool \<Rightarrow> u64 \<Rightarrow> u64 \<Rightarrow> u8 list \<Rightarrow> string \<Rightarrow> string \<times> u8 list" where
  "encode_loop alphabet urlencode hexescape outsize j src out =
     (if j < outsize - 4 \<and> src \<noteq> []
      then let (s, n) = encode_group alphabet urlencode hexescape src
           in encode_loop alphabet urlencode hexescape outsize (j + n) (drop 3 src) (out @ s)
      else (out, src))"
  by pat_completeness auto
termination by (relation "measure (\<lambda>(a, u, h, outsize, j, src, out). length src)") auto

declare encode_loop.simps [simp del]

definition butil_base64_encode :: "u64 \<Rightarrow> u8 list \<Rightarrow> bool \<Rightarrow> bool \<Rightarrow> int \<times> string" where
  "butil_base64_encode outsize src urlencode hexescape =
     (let (out, left) = encode_loop (if urlencode then s_alphabet64_url else s_alphabet64_base)
                          urlencode hexescape outsize 0 src []
      in (if left \<noteq> [] then -1 else int (length out), out))"

section \<open>Bits\<close>

lemma and_3F: "(w :: u32) AND 0x3F = take_bit 6 w"
  by (simp add: take_bit_eq_mask mask_eq_exp_minus_1)

lemma and_FF: "(w :: u32) AND 0xFF = take_bit 8 w"
  by (simp add: take_bit_eq_mask mask_eq_exp_minus_1)

lemma push_plus_take: "push_bit 6 (a :: u32) + take_bit 6 b = push_bit 6 a OR take_bit 6 b"
  by (rule disjunctive_add) (auto simp: bit_simps)

text \<open>The 24 bits of a group, and its bytes and sextets.\<close>

definition bits24 :: "u8 \<Rightarrow> u8 \<Rightarrow> u8 \<Rightarrow> u32" where
  "bits24 b1 b2 b3 = push_bit 16 (ucast b1) OR push_bit 8 (ucast b2) OR ucast b3"

lemma bit_bits24: "bit (bits24 b1 b2 b3) n \<longleftrightarrow>
    n < 8 \<and> bit b3 n \<or> 8 \<le> n \<and> n < 16 \<and> bit b2 (n - 8) \<or> 16 \<le> n \<and> n < 24 \<and> bit b1 (n - 16)"
  unfolding bits24_def
  by (auto simp: bit_simps dest: bit_imp_le_length)

lemma bits24_bytes:
  "ucast (drop_bit 16 (bits24 b1 b2 b3)) = b1"
  "ucast (take_bit 8 (drop_bit 8 (bits24 b1 b2 b3))) = b2"
  "ucast (take_bit 8 (bits24 b1 b2 b3)) = b3"
  by (rule bit_word_eqI; simp add: bit_simps bit_bits24)+

lemma sextets_join:
  fixes d :: u32
  assumes "\<And>n. bit d n \<Longrightarrow> n < 24"
  shows "push_bit 6 (push_bit 6 (push_bit 6 (drop_bit 18 d) + take_bit 6 (drop_bit 12 d))
      + take_bit 6 (drop_bit 6 d)) + take_bit 6 d = d"
  unfolding push_plus_take
proof (rule bit_word_eqI)
  fix n assume "n < LENGTH(32)"
  then show "bit (push_bit 6 (push_bit 6 (push_bit 6 (drop_bit 18 d) OR take_bit 6 (drop_bit 12 d)) OR
      take_bit 6 (drop_bit 6 d)) OR take_bit 6 d) n = bit d n"
    by (cases "n < 6"; cases "n < 12"; cases "n < 18") (auto simp: bit_simps)
qed

lemma base64_values:
  "\<forall>n \<in> set [0..<64]. base64_value (s_alphabet64_base ! n) = Some (of_nat n)"
  "\<forall>n \<in> set [0..<64]. base64_value (s_alphabet64_url ! n) = Some (of_nat n)"
  by code_simp+

definition alphabet :: "bool \<Rightarrow> string" where
  "alphabet urlencode = (if urlencode then s_alphabet64_url else s_alphabet64_base)"

lemma value_alphabet:
  assumes "(w :: u32) < 64"
  shows "base64_value (alphabet url ! unat w) = Some w"
proof -
  have "unat w < 64" using assms by (simp add: word_less_nat_alt)
  then have "unat w \<in> set [0..<64]" by simp
  then show ?thesis
    using base64_values by (cases url) (simp_all add: alphabet_def)
qed

lemma take6_less: "take_bit 6 (w :: u32) < 64"
  using take_bit_int_less_exp [of 6 "uint w"] by (simp add: word_less_def unsigned_take_bit_eq)

lemma top_sextet: "drop_bit 18 (bits24 b1 b2 b3) = take_bit 6 (drop_bit 18 (bits24 b1 b2 b3))"
  by (rule bit_word_eqI) (auto simp: bit_simps bit_bits24)

lemma group_bits_24:
  "group_bits [b1] = bits24 b1 0 0" "group_bits [b1, b2] = bits24 b1 b2 0"
  "group_bits (b1 # b2 # b3 # bs) = bits24 b1 b2 b3"
  by (simp_all add: group_bits_def bits24_def)

lemma sextets_bits24:
  fixes b1 b2 b3 :: u8
  defines "d \<equiv> bits24 b1 b2 b3"
  shows "push_bit 6 (push_bit 6 (push_bit 6 (take_bit 6 (drop_bit 18 d)) + take_bit 6 (drop_bit 12 d))
      + take_bit 6 (drop_bit 6 d)) + take_bit 6 d = d"
proof -
  have "bit d n \<Longrightarrow> n < 24" for n by (auto simp: d_def bit_bits24)
  from sextets_join [OF this] show ?thesis
    unfolding d_def by (simp flip: top_sextet)
qed

section \<open>A group decodes to its bytes\<close>

lemma decode_step:
  assumes "4 \<le> outsize" "w < 64" "n \<noteq> 3"
  shows "decode_loop outsize (alphabet url ! unat w # cs) bits n out =
    decode_loop outsize cs (push_bit 6 (bits + w)) (n + 1) out"
proof -
  have "n + 1 \<noteq> 4" using assms(3) add_right_cancel [of n 1 3] by simp
  moreover have "\<not> outsize < 4" using assms(1) by simp
  ultimately show ?thesis using value_alphabet [OF assms(2)] by (simp add: Let_def)
qed

lemma decode_steps:
  assumes "4 \<le> outsize" "w < 64"
  shows "decode_loop outsize (alphabet url ! unat w # cs) 0 0 out = decode_loop outsize cs (push_bit 6 w) 1 out"
    "decode_loop outsize (alphabet url ! unat w # cs) bits 1 out =
       decode_loop outsize cs (push_bit 6 (bits + w)) 2 out"
    "decode_loop outsize (alphabet url ! unat w # cs) bits 2 out =
       decode_loop outsize cs (push_bit 6 (bits + w)) 3 out"
  using decode_step [OF assms, of 0] decode_step [OF assms, of 1] decode_step [OF assms, of 2]
  by simp_all

lemma decode_fourth:
  assumes "4 \<le> outsize" "w < 64"
  shows "decode_loop outsize (alphabet url ! unat w # cs) bits 3 out =
    decode_loop outsize cs 0 0 (out @ [ucast (drop_bit 16 (bits + w)),
      ucast (drop_bit 8 (bits + w) AND 0xFF), ucast ((bits + w) AND 0xFF)])"
proof -
  have "\<not> outsize < 4" using assms(1) by simp
  then show ?thesis using value_alphabet [OF assms(2)] by (simp add: Let_def)
qed

lemma decode_full_group:
  assumes "4 \<le> outsize"
  shows "decode_loop outsize (fst (encode_group (alphabet url) url False (b1 # b2 # b3 # bs)) @ cs) 0 0 out =
    decode_loop outsize cs 0 0 (out @ [b1, b2, b3])"
proof -
  let ?d = "bits24 b1 b2 b3"
  have enc: "fst (encode_group (alphabet url) url False (b1 # b2 # b3 # bs)) @ cs =
      alphabet url ! unat (take_bit 6 (drop_bit 18 ?d)) # alphabet url ! unat (take_bit 6 (drop_bit 12 ?d)) #
      alphabet url ! unat (take_bit 6 (drop_bit 6 ?d)) # alphabet url ! unat (take_bit 6 ?d) # cs"
    by (simp add: encode_group_def Let_def group_bits_24 and_3F flip: top_sextet)
  show ?thesis
    unfolding enc decode_steps [OF assms take6_less] decode_fourth [OF assms take6_less]
    unfolding sextets_bits24 and_FF bits24_bytes ..
qed

lemma decode_last_two:
  assumes "4 \<le> outsize" "cs = [] \<or> cs = ''=''"
  shows "decode_tail outsize (decode_loop outsize
      (alphabet url ! unat (take_bit 6 (drop_bit 18 (bits24 b1 b2 0))) #
       alphabet url ! unat (take_bit 6 (drop_bit 12 (bits24 b1 b2 0))) #
       alphabet url ! unat (take_bit 6 (drop_bit 6 (bits24 b1 b2 0))) # cs) 0 0 out) = (0, out @ [b1, b2])"
proof -
  let ?d = "bits24 b1 b2 0"
  have "take_bit 6 ?d = 0"
    by (rule bit_word_eqI) (auto simp: bit_simps bit_bits24)
  then have bits: "push_bit 6 (push_bit 6 (push_bit 6 (take_bit 6 (drop_bit 18 ?d)) + take_bit 6 (drop_bit 12 ?d))
      + take_bit 6 (drop_bit 6 ?d)) = ?d"
    using sextets_bits24 [of b1 b2 0] by simp
  have stop: "decode_loop outsize cs ?d 3 out = (0, ?d, 3, out)"
    using assms by (auto simp: base64_value_def in_range_def c_char_def)
  have "\<not> outsize < 3" using assms(1) by (simp add: not_less order_trans [of 3 4 outsize])
  then show ?thesis
    unfolding decode_steps [OF assms(1) take6_less] bits stop
    by (simp add: decode_tail_def and_FF bits24_bytes)
qed

lemma decode_last_one:
  assumes "4 \<le> outsize" "cs = [] \<or> cs = ''==''"
  shows "decode_tail outsize (decode_loop outsize
      (alphabet url ! unat (take_bit 6 (drop_bit 18 (bits24 b1 0 0))) #
       alphabet url ! unat (take_bit 6 (drop_bit 12 (bits24 b1 0 0))) # cs) 0 0 out) = (0, out @ [b1])"
proof -
  let ?d = "bits24 b1 0 0"
  have two: "2 \<le> n \<Longrightarrow> Suc (Suc (n - 2)) = n" for n by simp
  define x where "x = push_bit 6 (push_bit 6 (take_bit 6 (drop_bit 18 ?d)) + take_bit 6 (drop_bit 12 ?d))"
  have "ucast (drop_bit 10 x) = b1"
    unfolding x_def push_plus_take
    by (rule bit_word_eqI) (auto simp: bit_simps bit_bits24 two)
  moreover have "decode_loop outsize cs x 2 out = (0, x, 2, out)"
    using assms by (auto simp: base64_value_def in_range_def c_char_def)
  moreover have "\<not> outsize < 2" using assms(1) by (simp add: not_less order_trans [of 2 4 outsize])
  ultimately show ?thesis
    unfolding decode_steps [OF assms(1) take6_less] x_def [symmetric]
    by (simp add: decode_tail_def)
qed

section \<open>The encoder's loop\<close>

lemma below_limit:
  "4 \<le> (outsize :: u64) \<Longrightarrow> j < outsize - 4 \<longleftrightarrow> unat j + 4 < unat outsize"
  by (auto simp: word_less_nat_alt word_le_nat_alt unat_sub)

lemma unat_step: "unat (j :: u64) + 4 < unat (outsize :: u64) \<Longrightarrow> unat (j + 4) = unat j + 4"
proof -
  assume "unat j + 4 < unat outsize"
  moreover have "unat outsize < 2 ^ LENGTH(64)" by (rule unsigned_less)
  ultimately show ?thesis by (simp add: unat_word_ariths)
qed

lemma encode_group_plain:
  "snd (encode_group a url False src) = 4" "length (fst (encode_group a url False src)) \<le> 4"
  by (simp_all add: encode_group_def Let_def)

lemma encode_last_groups:
  "fst (encode_group (alphabet url) url False [b1]) =
     alphabet url ! unat (take_bit 6 (drop_bit 18 (bits24 b1 0 0))) #
     alphabet url ! unat (take_bit 6 (drop_bit 12 (bits24 b1 0 0))) # (if url then [] else ''=='')"
  "fst (encode_group (alphabet url) url False [b1, b2]) =
     alphabet url ! unat (take_bit 6 (drop_bit 18 (bits24 b1 b2 0))) #
     alphabet url ! unat (take_bit 6 (drop_bit 12 (bits24 b1 b2 0))) #
     alphabet url ! unat (take_bit 6 (drop_bit 6 (bits24 b1 b2 0))) # (if url then [] else ''='')"
  by (simp_all add: encode_group_def Let_def group_bits_24 and_3F flip: top_sextet)

text \<open>The last group, of one or two bytes.\<close>

lemma last_group_decodes:
  assumes "src \<noteq> []" "length src \<le> 2" "4 \<le> osz"
  shows "decode_tail osz (decode_loop osz (fst (encode_group (alphabet url) url False src)) 0 0 dout) = (0, dout @ src)"
proof -
  from assms(1,2) consider b1 where "src = [b1]" | b1 b2 where "src = [b1, b2]"
    by (cases src; cases "tl src"; cases "tl (tl src)") auto
  then show ?thesis
    by cases (use decode_last_one [OF assms(3)] decode_last_two [OF assms(3)] in
      \<open>simp_all add: encode_last_groups split: if_splits\<close>)
qed

lemma encode_loop_decodes:
  assumes "4 \<le> outsize"
  shows "unat j + 4 * ((length src + 2) div 3) < unat outsize \<Longrightarrow>
    \<exists>s. encode_loop (alphabet url) url False outsize j src out = (out @ s, []) \<and>
      length s \<le> 4 * ((length src + 2) div 3) \<and>
      (\<forall>osz dout. 4 \<le> osz \<longrightarrow> decode_tail osz (decode_loop osz s 0 0 dout) = (0, dout @ src))"
proof (induction "length src" arbitrary: j src out rule: less_induct)
  case less
  show ?case
  proof (cases "src = []")
    case True
    then show ?thesis by (simp add: encode_loop.simps decode_tail_def)
  next
    case False
    have "1 \<le> (length src + 2) div 3" using False by (cases src) auto
    then have j: "unat j + 4 < unat outsize" using less.prems by simp
    let ?g = "encode_group (alphabet url) url False src"
    have loop: "encode_loop (alphabet url) url False outsize j src out =
        encode_loop (alphabet url) url False outsize (j + 4) (drop 3 src) (out @ fst ?g)"
      using False j below_limit [OF assms, of j] encode_group_plain(1)
      by (subst encode_loop.simps) (simp add: split_beta)
    show ?thesis
    proof (cases "2 < length src")
      case True
      then obtain b1 b2 b3 bs where src: "src = b1 # b2 # b3 # bs"
        by (cases src; cases "tl src"; cases "tl (tl src)") auto
      have groups: "(length src + 2) div 3 = Suc ((length bs + 2) div 3)" by (simp add: src)
      with less.prems have "unat (j + 4) + 4 * ((length bs + 2) div 3) < unat outsize"
        by (simp add: unat_step [OF j])
      from less.hyps [of bs, OF _ this, of "out @ fst ?g"] obtain s where
        s: "encode_loop (alphabet url) url False outsize (j + 4) bs (out @ fst ?g) = ((out @ fst ?g) @ s, [])"
          "length s \<le> 4 * ((length bs + 2) div 3)"
          "\<And>osz dout. 4 \<le> osz \<Longrightarrow> decode_tail osz (decode_loop osz s 0 0 dout) = (0, dout @ bs)"
        by (auto simp: src)
      show ?thesis
      proof (intro exI conjI allI impI)
        show "encode_loop (alphabet url) url False outsize j src out = (out @ (fst ?g @ s), [])"
          using loop s(1) by (simp add: src)
        show "length (fst ?g @ s) \<le> 4 * ((length src + 2) div 3)"
          using s(2) encode_group_plain(2) [of "alphabet url" url src] unfolding groups by simp
        show "decode_tail osz (decode_loop osz (fst ?g @ s) 0 0 dout) = (0, dout @ src)" if "4 \<le> osz" for osz dout
          using s(3) [OF that] decode_full_group [OF that] by (simp add: src)
      qed
    next
      case short: False
      then have "drop 3 src = []" by simp
      with loop have loop: "encode_loop (alphabet url) url False outsize j src out = (out @ fst ?g, [])"
        by (simp add: encode_loop.simps)
      have "decode_tail osz (decode_loop osz (fst ?g) 0 0 dout) = (0, dout @ src)" if "4 \<le> osz" for osz dout
        using last_group_decodes [OF False _ that] short by simp
      moreover have "length (fst ?g) \<le> 4 * ((length src + 2) div 3)"
        using encode_group_plain(2) [of "alphabet url" url src] \<open>1 \<le> (length src + 2) div 3\<close> by linarith
      ultimately show ?thesis using loop by blast
    qed
  qed
qed

lemma length_hexencode: "length (base64_hexencode_byte c) \<le> 3"
  by (simp add: base64_hexencode_byte_def)

lemma encode_group_hex:
  "snd (encode_group a url True src) = of_nat (length (fst (encode_group a url True src)))"
  "length (fst (encode_group a url True src)) \<le> 12"
proof -
  show "snd (encode_group a url True src) = of_nat (length (fst (encode_group a url True src)))"
    by (simp add: encode_group_def Let_def)
  have four: "length (base64_hexencode_byte b1 @ base64_hexencode_byte b2 @
      base64_hexencode_byte b3 @ base64_hexencode_byte b4) \<le> 12" for b1 b2 b3 b4
    using length_hexencode [of b1] length_hexencode [of b2] length_hexencode [of b3]
      length_hexencode [of b4] by simp
  have "fst (encode_group a url True src) =
      (let d = group_bits src in
       base64_hexencode_byte (a ! unat (drop_bit 18 d)) @
       base64_hexencode_byte (a ! unat (drop_bit 12 d AND 0x3F)) @
       base64_hexencode_byte (if 1 < length src then a ! unat (drop_bit 6 d AND 0x3F) else CHR ''='') @
       base64_hexencode_byte (if 2 < length src then a ! unat (d AND 0x3F) else CHR ''=''))"
    by (simp add: encode_group_def Let_def)
  with four show "length (fst (encode_group a url True src)) \<le> 12" by (simp only: Let_def)
qed

lemma encode_group_size:
  "length (fst (encode_group a url hex src)) \<le> unat (snd (encode_group a url hex src))"
  "unat (snd (encode_group a url hex src)) \<le> (if hex then 12 else 4)"
proof -
  have "unat (of_nat n :: u64) = n" if "n \<le> 12" for n
    using that by (simp add: unat_of_nat)
  from this [OF encode_group_hex(2) [of a url src]]
  show "length (fst (encode_group a url hex src)) \<le> unat (snd (encode_group a url hex src))"
      "unat (snd (encode_group a url hex src)) \<le> (if hex then 12 else 4)"
    using encode_group_plain [of a url src] encode_group_hex [of a url src] by (cases hex; simp)+
qed

section \<open>Escaped text\<close>

text \<open>What a reader of a URL does with escapes.\<close>

fun percent_decode :: "string \<Rightarrow> string" where
  "percent_decode [] = []"
| "percent_decode (c # s) =
     (if c = CHR ''%'' \<and> 2 \<le> length s
      then char_of (16 * the (digit_value (s ! 0)) + the (digit_value (s ! 1))) # percent_decode (drop 2 s)
      else c # percent_decode s)"

lemma percent_decode_escaped:
  "CHR ''%'' \<notin> set p \<Longrightarrow> percent_decode (concat (map base64_hexencode_byte p)) = p"
proof (induction p)
  case (Cons c p)
  have "digit_value CHR ''2'' = Some 2" "digit_value CHR ''3'' = Some 3" "digit_value CHR ''B'' = Some 11"
      "digit_value CHR ''D'' = Some 13" "digit_value CHR ''F'' = Some 15"
    by code_simp+
  moreover have "char_of (43 :: nat) = CHR ''+''" "char_of (47 :: nat) = CHR ''/''" "char_of (61 :: nat) = CHR ''=''"
    by code_simp+
  moreover have "c \<noteq> CHR ''%''" "percent_decode (concat (map base64_hexencode_byte p)) = p" using Cons by auto
  ultimately show ?case by (simp add: base64_hexencode_byte_def [of c])
qed simp

text \<open>The padding that escaping adds in the URL alphabet, and that the decoder does not mind it.\<close>

definition escape_pad :: "bool \<Rightarrow> u8 list \<Rightarrow> string" where
  "escape_pad url src = (if url then replicate ((2 * length src) mod 3) CHR ''='' else [])"

lemma decode_loop_pad:
  "4 \<le> osz \<Longrightarrow> decode_loop osz (s @ replicate n CHR ''='') bits k out = decode_loop osz s bits k out"
proof (induction s arbitrary: bits k out)
  case Nil
  have "base64_value CHR ''='' = None" by code_simp
  with Nil show ?case by (cases n) simp_all
qed (auto simp: Let_def split: option.split)

lemma escaped_group:
  assumes "src \<noteq> []"
  shows "fst (encode_group a url True src) = concat (map base64_hexencode_byte
    (fst (encode_group a url False src) @ (if length src < 3 then escape_pad url src else [])))"
proof (cases "length src < 3")
  case True
  with assms have "length src = 1 \<or> length src = 2" by (cases "length src") auto
  then show ?thesis
    by (elim disjE) (simp_all add: encode_group_def Let_def escape_pad_def numeral_2_eq_2)
qed (simp add: encode_group_def Let_def)

lemma group_alphabet:
  assumes "src \<noteq> []"
  shows "CHR ''%'' \<notin> set (fst (encode_group (alphabet url) url False src))"
proof -
  have six: "CHR ''%'' \<noteq> alphabet url ! unat (take_bit 6 w)" for w :: u32
  proof -
    have "base64_value CHR ''%'' = None" by code_simp
    then show ?thesis using value_alphabet [OF take6_less, of url w] by auto
  qed
  obtain b1 b2 b3 where d: "group_bits src = bits24 b1 b2 b3"
    using that group_bits_24 assms by (cases src; cases "tl src"; cases "tl (tl src)") fastforce+
  have "CHR ''%'' \<noteq> alphabet url ! unat (drop_bit 18 (group_bits src))"
    using six [of "drop_bit 18 (bits24 b1 b2 b3)"] by (simp add: d flip: top_sextet)
  then show ?thesis by (simp add: encode_group_def Let_def and_3F six)
qed

text \<open>With escapes the loop writes the same text, padded and escaped.\<close>

lemma encode_loop_escapes:
  assumes "4 \<le> outsize" "4 \<le> outsize'"
  shows "unat j + 4 * ((length src + 2) div 3) < unat outsize \<Longrightarrow>
    unat j' + 12 * ((length src + 2) div 3) < unat outsize' \<Longrightarrow>
    \<exists>s. encode_loop (alphabet url) url False outsize j src out = (out @ s, []) \<and>
      encode_loop (alphabet url) url True outsize' j' src out' =
        (out' @ concat (map base64_hexencode_byte (s @ escape_pad url src)), []) \<and> CHR ''%'' \<notin> set s"
proof (induction "length src" arbitrary: j j' src out out' rule: less_induct)
  case less
  show ?case
  proof (cases "src = []")
    case True
    then show ?thesis by (simp add: encode_loop.simps escape_pad_def)
  next
    case False
    let ?g = "encode_group (alphabet url) url False src" and ?h = "encode_group (alphabet url) url True src"
    have groups: "(length src + 2) div 3 = Suc ((length (drop 3 src) + 2) div 3)" using False
      by (cases src; cases "tl src"; cases "tl (tl src)") simp_all
    then have j: "unat j + 4 < unat outsize" "unat j' + 12 < unat outsize'" using less.prems by simp_all
    have h: "unat (snd ?h) \<le> 12" using encode_group_size(2) [of "alphabet url" url True src] by simp
    have "unat outsize' < 2 ^ LENGTH(64)" by (rule unsigned_less)
    with h j(2) have u: "unat (j' + snd ?h) = unat j' + unat (snd ?h)" by (simp add: unat_word_ariths)
    have loop: "encode_loop (alphabet url) url False outsize j src out =
        encode_loop (alphabet url) url False outsize (j + 4) (drop 3 src) (out @ fst ?g)"
        "encode_loop (alphabet url) url True outsize' j' src out' =
        encode_loop (alphabet url) url True outsize' (j' + snd ?h) (drop 3 src) (out' @ fst ?h)"
      using False j below_limit [OF assms(1), of j] below_limit [OF assms(2), of j'] encode_group_plain(1)
      by (subst encode_loop.simps, simp add: split_beta)+
    have "length (drop 3 src) < length src" using False by simp
    moreover have "unat (j + 4) + 4 * ((length (drop 3 src) + 2) div 3) < unat outsize"
        "unat (j' + snd ?h) + 12 * ((length (drop 3 src) + 2) div 3) < unat outsize'"
      using less.prems unat_step [OF j(1)] h unfolding groups u by simp_all
    ultimately obtain s where
      s: "encode_loop (alphabet url) url False outsize (j + 4) (drop 3 src) (out @ fst ?g) = ((out @ fst ?g) @ s, [])"
        "encode_loop (alphabet url) url True outsize' (j' + snd ?h) (drop 3 src) (out' @ fst ?h) =
          ((out' @ fst ?h) @ concat (map base64_hexencode_byte (s @ escape_pad url (drop 3 src))), [])" "CHR ''%'' \<notin> set s"
      using less.hyps by blast
    have "fst ?h @ concat (map base64_hexencode_byte (s @ escape_pad url (drop 3 src))) =
        concat (map base64_hexencode_byte ((fst ?g @ s) @ escape_pad url src))"
    proof (cases "length src < 3")
      case True
      then have "s = []" using s(1) by (simp add: encode_loop.simps)
      with True escaped_group [OF False, of "alphabet url" url] show ?thesis by (simp add: escape_pad_def)
    next
      case long: False
      then have "2 * length src = 2 * length (drop 3 src) + 2 * 3" by simp
      then have "(2 * length src) mod 3 = (2 * length (drop 3 src)) mod 3" by (metis mod_mult_self1)
      then have "escape_pad url (drop 3 src) = escape_pad url src" by (simp only: escape_pad_def)
      with long escaped_group [OF False, of "alphabet url" url] show ?thesis by simp
    qed
    then show ?thesis
      using s group_alphabet [OF False, of url] unfolding loop
      by (intro exI [of _ "fst ?g @ s"]) simp
  qed
qed

text \<open>
  C28: Round trip: whatever bytes are encoded without \<open>hexescape\<close>, in the standard or the URL
  alphabet, into a block of at least four bytes that is longer than the four characters per three
  bytes, decoding the text gives them back and their number, if the size given to the decoder is at
  least 4, below which it refuses any character; the text and its NUL fit the block. With
  \<open>hexescape\<close>, and a block longer than twelve characters per three bytes, the text is this text
  with padding and escapes: decoding it gives the bytes back after its escapes have been undone.
\<close>

theorem base64_roundtrip:
  assumes "4 * ((length src + 2) div 3) < unat outsize" "4 \<le> outsize" "4 \<le> decoded_size"
  shows "\<exists>s. butil_base64_encode outsize src urlencode False = (int (length s), s) \<and>
    length s < unat outsize \<and>
    butil_base64_decode decoded_size s = (int (length src), src) \<and>
    (\<forall>outsize'. 4 \<le> outsize' \<and> 12 * ((length src + 2) div 3) < unat outsize' \<longrightarrow>
      (let t = concat (map base64_hexencode_byte (s @ escape_pad urlencode src)) in
       butil_base64_encode outsize' src urlencode True = (int (length t), t) \<and>
       butil_base64_decode decoded_size (percent_decode t) = (int (length src), src)))"
proof -
  obtain s where s: "encode_loop (alphabet urlencode) urlencode False outsize 0 src [] = (s, [])"
    "length s \<le> 4 * ((length src + 2) div 3)"
    "decode_tail decoded_size (decode_loop decoded_size s 0 0 []) = (0, src)"
    using encode_loop_decodes [OF assms(2), of 0 src urlencode "[]"] assms(1,3) by auto
  have esc: "encode_loop (alphabet urlencode) urlencode True outsize' 0 src [] =
      (concat (map base64_hexencode_byte (s @ escape_pad urlencode src)), []) \<and> CHR ''%'' \<notin> set s"
    if "4 \<le> outsize' \<and> 12 * ((length src + 2) div 3) < unat outsize'" for outsize'
    using encode_loop_escapes [OF assms(2), of outsize' 0 src 0 urlencode "[]" "[]"] that assms(1) s(1) by auto
  have dec: "butil_base64_decode decoded_size (percent_decode (concat (map base64_hexencode_byte
      (s @ escape_pad urlencode src)))) = (int (length src), src)" if "CHR ''%'' \<notin> set s"
  proof -
    have "CHR ''%'' \<notin> set (s @ escape_pad urlencode src)" using that by (simp add: escape_pad_def)
    from percent_decode_escaped [OF this] s(3) decode_loop_pad [OF assms(3)] show ?thesis
      by (simp only: butil_base64_decode_def) (simp add: escape_pad_def)
  qed
  show ?thesis
    using s assms(1) esc dec
    by (intro exI [of _ s]) (simp add: butil_base64_encode_def butil_base64_decode_def Let_def flip: alphabet_def)
qed

theorem base64_roundtrip_witness:
  "(\<exists>s. butil_base64_encode 9 [0, 0xFB, 0xFF, 7] True False = (int (length s), s) \<and>
     butil_base64_decode 4 s = (4, [0, 0xFB, 0xFF, 7])) \<and>
   (\<exists>t. butil_base64_encode 25 [0, 0xFB, 0xFF, 7] True True = (int (length t), t) \<and>
     butil_base64_decode 4 (percent_decode t) = (4, [0, 0xFB, 0xFF, 7]))"
proof -
  let ?src = "[0, 0xFB, 0xFF, 7] :: u8 list"
  have "4 * ((length ?src + 2) div 3) < unat (9 :: u64)" "4 \<le> (9 :: u64)" "4 \<le> (4 :: u64)"
      "4 \<le> (25 :: u64) \<and> 12 * ((length ?src + 2) div 3) < unat (25 :: u64)"
    by simp_all
  from base64_roundtrip [OF this(1-3), of True] this(4) show ?thesis
    unfolding Let_def length_Cons list.size by fastforce
qed

section \<open>Bounds\<close>

lemma encode_loop_bounds:
  "4 \<le> outsize \<Longrightarrow> unat outsize < 2 ^ 63 \<Longrightarrow> length out \<le> unat j \<Longrightarrow>
   unat j < unat outsize + (if hex then 8 else 0) \<Longrightarrow>
   length (fst (encode_loop a url hex outsize j src out)) < unat outsize + (if hex then 8 else 0)"
proof (induction a url hex outsize j src out rule: encode_loop.induct)
  case (1 a url hex outsize j src out)
  obtain s n where g: "encode_group a url hex src = (s, n)" by (cases "encode_group a url hex src")
  show ?case
  proof (cases "j < outsize - 4 \<and> src \<noteq> []")
    case True
    then have j: "unat j + 4 < unat outsize" using below_limit [OF 1(2)] by simp
    have n: "length s \<le> unat n" "unat n \<le> (if hex then 12 else 4)"
      using encode_group_size [of a url hex src] g by simp_all
    have "unat j + unat n < 2 ^ LENGTH(64)"
      using j n(2) 1(3) by (simp split: if_splits)
    then have u: "unat (j + n) = unat j + unat n" by (simp add: unat_word_ariths)
    have "length (fst (encode_loop a url hex outsize (j + n) (drop 3 src) (out @ s)))
        < unat outsize + (if hex then 8 else 0)"
      using n j 1(4) by (intro 1(1) [OF True g [symmetric] refl 1(2,3)]) (simp_all add: u split: if_splits)
    with True g show ?thesis by (simp add: encode_loop.simps [of a url hex outsize j])
  next
    case False
    then have "encode_loop a url hex outsize j src out = (out, src)"
      by (subst encode_loop.simps) auto
    with 1(4,5) show ?thesis by simp
  qed
qed

text \<open>
  C36: Bounds of the encoder: with a block of at least four bytes, and of less than 2^63, the plain
  text and its NUL stay inside the block whatever the input; with \<open>hexescape\<close> they can pass its
  end, by at most eight bytes. With a smaller block the limit wraps around and nothing is checked.
\<close>

theorem base64_encode_bounds:
  assumes "4 \<le> outsize" "unat outsize < 2 ^ 63"
  shows "length (snd (butil_base64_encode outsize src urlencode hexescape))
    < unat outsize + (if hexescape then 8 else 0)"
proof -
  have "0 < unat outsize" using assms(1) by (simp add: word_le_nat_alt)
  then show ?thesis
    using encode_loop_bounds [OF assms, of "[]" 0 hexescape "alphabet urlencode" urlencode src]
    by (simp add: butil_base64_encode_def split_beta flip: alphabet_def)
qed

theorem base64_encode_bounds_witness:
  "length (snd (butil_base64_encode 5 [0xFF, 0xFF, 0xFF] False True)) < 13 \<and>
   length (snd (butil_base64_encode 5 [0xFF, 0xFF, 0xFF] False True)) = 12"
proof -
  have "snd (butil_base64_encode 5 [0xFF, 0xFF, 0xFF] False True) = ''%2F%2F%2F%2F''" by code_simp
  then show ?thesis
    using base64_encode_bounds [of 5 "[0xFF, 0xFF, 0xFF]" False True] by simp
qed

text \<open>
  The decoder does not bound its output: a size of four bytes lets any number of groups through,
  because the size is never reduced; smaller sizes refuse every non-empty text.
\<close>

theorem base64_decode_unbounded:
  assumes "4 \<le> outsize"
  shows "butil_base64_decode outsize (replicate (4 * n) CHR ''A'') = (3 * int n, replicate (3 * n) 0)"
proof -
  have a: "base64_value CHR ''A'' = Some 0" by code_simp
  have "\<not> outsize < 4" using assms by simp
  then have "decode_loop outsize (replicate (4 * n) CHR ''A'') 0 0 out = (0, 0, 0, out @ replicate (3 * n) 0)" for out
  proof (induction n arbitrary: out)
    case (Suc n)
    have "replicate (4 * Suc n) CHR ''A'' = ''AAAA'' @ replicate (4 * n) CHR ''A''"
      "replicate (3 * Suc n) (0 :: u8) = [0, 0, 0] @ replicate (3 * n) 0"
      by (simp_all add: eval_nat_numeral)
    with Suc a show ?case by (simp add: Let_def)
  qed simp
  then show ?thesis by (simp add: butil_base64_decode_def decode_tail_def)
qed

theorem base64_decode_unbounded_witness:
  "length (snd (butil_base64_decode 4 (replicate 4000 CHR ''A''))) = 3000"
  using base64_decode_unbounded [of 4 1000] by simp

end
