(* ===== verification/Mime.thy ===== *)
theory Mime
  imports Url
begin

text \<open>
  The MIME tables of \<open>butil.h\<close> and \<open>butil.c\<close>, built with both optional groups of types
  (the defaults of the header), and the four lookups: by file name and by content type, in both
  directions.
\<close>

section \<open>Content types\<close>

datatype (plugins only: code) mime_content_type =
    butil_mime_bin | butil_mime_css | butil_mime_gif | butil_mime_html | butil_mime_ico
    | butil_mime_jpeg | butil_mime_jar | butil_mime_js | butil_mime_json | butil_mime_text
    | butil_mime_tiff | butil_mime_xml | butil_mime_xwwwformurl | butil_mime_multi
    | butil_mime_aac | butil_mime_abw | butil_mime_arc | butil_mime_avi | butil_mime_azw
    | butil_mime_bz | butil_mime_bz2 | butil_mime_csh | butil_mime_csv | butil_mime_doc
    | butil_mime_docx | butil_mime_eot | butil_mime_epub | butil_mime_ics | butil_mime_midi
    | butil_mime_mjs | butil_mime_mp3 | butil_mime_mpeg | butil_mime_mpkg | butil_mime_odp
    | butil_mime_ods | butil_mime_odt | butil_mime_oga | butil_mime_ogv | butil_mime_ogx
    | butil_mime_otf | butil_mime_png | butil_mime_pdf | butil_mime_ppt | butil_mime_pptx
    | butil_mime_qt | butil_mime_rar | butil_mime_rtf | butil_mime_sh | butil_mime_svg
    | butil_mime_swf | butil_mime_tar | butil_mime_ts | butil_mime_ttf | butil_mime_vsd
    | butil_mime_wav | butil_mime_weba | butil_mime_webm | butil_mime_webp | butil_mime_woff
    | butil_mime_woff2 | butil_mime_xhtml | butil_mime_xls | butil_mime_xlsx | butil_mime_xul
    | butil_mime_zip | butil_mime_3gp | butil_mime_3g2 | butil_mime_7z

text \<open>The constants in the order of the C enumeration.\<close>

definition all_mime_types :: "mime_content_type list" where
  "all_mime_types = [
     butil_mime_bin, butil_mime_css, butil_mime_gif, butil_mime_html, butil_mime_ico,
     butil_mime_jpeg, butil_mime_jar, butil_mime_js, butil_mime_json, butil_mime_text,
     butil_mime_tiff, butil_mime_xml, butil_mime_xwwwformurl, butil_mime_multi, butil_mime_aac,
     butil_mime_abw, butil_mime_arc, butil_mime_avi, butil_mime_azw, butil_mime_bz,
     butil_mime_bz2, butil_mime_csh, butil_mime_csv, butil_mime_doc, butil_mime_docx,
     butil_mime_eot, butil_mime_epub, butil_mime_ics, butil_mime_midi, butil_mime_mjs,
     butil_mime_mp3, butil_mime_mpeg, butil_mime_mpkg, butil_mime_odp, butil_mime_ods,
     butil_mime_odt, butil_mime_oga, butil_mime_ogv, butil_mime_ogx, butil_mime_otf,
     butil_mime_png, butil_mime_pdf, butil_mime_ppt, butil_mime_pptx, butil_mime_qt,
     butil_mime_rar, butil_mime_rtf, butil_mime_sh, butil_mime_svg, butil_mime_swf,
     butil_mime_tar, butil_mime_ts, butil_mime_ttf, butil_mime_vsd, butil_mime_wav,
     butil_mime_weba, butil_mime_webm, butil_mime_webp, butil_mime_woff, butil_mime_woff2,
     butil_mime_xhtml, butil_mime_xls, butil_mime_xlsx, butil_mime_xul, butil_mime_zip,
     butil_mime_3gp, butil_mime_3g2, butil_mime_7z]"

lemma all_mime_types: "t \<in> set all_mime_types"
  by (cases t) (simp_all add: all_mime_types_def)

instantiation mime_content_type :: enum
begin

definition enum_mime_content_type :: "mime_content_type list" where
  "enum_mime_content_type = all_mime_types"

definition enum_all_mime_content_type :: "(mime_content_type \<Rightarrow> bool) \<Rightarrow> bool" where
  "enum_all_mime_content_type P = list_all P all_mime_types"

definition enum_ex_mime_content_type :: "(mime_content_type \<Rightarrow> bool) \<Rightarrow> bool" where
  "enum_ex_mime_content_type P = list_ex P all_mime_types"

instance
proof
  show "(UNIV :: mime_content_type set) = set enum_class.enum"
    using all_mime_types by (auto simp: enum_mime_content_type_def)
  show "distinct (enum_class.enum :: mime_content_type list)"
    by (simp add: enum_mime_content_type_def all_mime_types_def)
  show "enum_class.enum_all P \<longleftrightarrow> Ball UNIV P" for P :: "mime_content_type \<Rightarrow> bool"
    using all_mime_types by (auto simp: enum_all_mime_content_type_def list_all_iff)
  show "enum_class.enum_ex P \<longleftrightarrow> Bex UNIV P" for P :: "mime_content_type \<Rightarrow> bool"
    using all_mime_types by (auto simp: enum_ex_mime_content_type_def list_ex_iff)
qed

end

section \<open>The table\<close>

record butil_mime_entry =
  mime_type :: mime_content_type
  mime_ext :: string
  mime_string :: string

definition mime_entry :: "mime_content_type \<Rightarrow> string \<Rightarrow> string \<Rightarrow> butil_mime_entry" where
  "mime_entry t e m = \<lparr>mime_type = t, mime_ext = e, mime_string = m\<rparr>"

definition s_mimetab :: "butil_mime_entry list" where
  "s_mimetab = [
     mime_entry butil_mime_bin ''.bin'' ''application/octet-stream'',
     mime_entry butil_mime_css ''.css'' ''text/css'',
     mime_entry butil_mime_gif ''.gif'' ''image/gif'',
     mime_entry butil_mime_html ''.htm'' ''text/html'',
     mime_entry butil_mime_html ''.html'' ''text/html'',
     mime_entry butil_mime_ico ''.ico'' ''image/x-icon'',
     mime_entry butil_mime_jar ''.jar'' ''application/java-archive'',
     mime_entry butil_mime_jpeg ''.jpeg'' ''image/jpeg'',
     mime_entry butil_mime_jpeg ''.jpg'' ''image/jpeg'',
     mime_entry butil_mime_js ''.js'' ''application/javascript'',
     mime_entry butil_mime_json ''.json'' ''application/json'',
     mime_entry butil_mime_text ''.text'' ''text/plain'',
     mime_entry butil_mime_text ''.txt'' ''text/plain'',
     mime_entry butil_mime_tiff ''.tif'' ''image/tiff'',
     mime_entry butil_mime_tiff ''.tiff'' ''image/tiff'',
     mime_entry butil_mime_xml ''.xml'' ''text/xml'',
     mime_entry butil_mime_xwwwformurl ''.www'' ''application/x-www-form-urlencoded'',
     mime_entry butil_mime_multi ''.'' ''multipart/form-data'',
     mime_entry butil_mime_aac ''.aac'' ''audio/aac'',
     mime_entry butil_mime_abw ''.abw'' ''application/x-abiword'',
     mime_entry butil_mime_arc ''.arc'' ''application/octet-stream'',
     mime_entry butil_mime_avi ''.avi'' ''video/x-msvideo'',
     mime_entry butil_mime_azw ''.azw'' ''application/vnd.amazon.ebook'',
     mime_entry butil_mime_bz ''.bz'' ''application/x-bzip'',
     mime_entry butil_mime_bz2 ''.bz2'' ''application/x-bzip2'',
     mime_entry butil_mime_csh ''.csh'' ''application/x-csh'',
     mime_entry butil_mime_csv ''.csv'' ''text/csv'',
     mime_entry butil_mime_doc ''.doc'' ''application/msword'',
     mime_entry butil_mime_docx ''.docx'' ''application/vnd.openxmlformats-officedocument.wordprocessingml.document'',
     mime_entry butil_mime_eot ''.eot'' ''application/vnd.ms-fontobject'',
     mime_entry butil_mime_epub ''.epub'' ''application/epub+zip'',
     mime_entry butil_mime_ics ''.ics'' ''text/calendar'',
     mime_entry butil_mime_midi ''.mid'' ''audio/midi'',
     mime_entry butil_mime_midi ''.midi'' ''audio/midi'',
     mime_entry butil_mime_mjs ''.mjs'' ''text/javascript'',
     mime_entry butil_mime_mp3 ''.mp3'' ''audio/mpeg'',
     mime_entry butil_mime_mpeg ''.mpeg'' ''video/mpeg'',
     mime_entry butil_mime_mpkg ''.mpkg'' ''application/vnd.apple.installer+xml'',
     mime_entry butil_mime_qt ''.mov'' ''video/quicktime'',
     mime_entry butil_mime_odp ''.odp'' ''application/vnd.oasis.opendocument.presentation'',
     mime_entry butil_mime_ods ''.ods'' ''application/vnd.oasis.opendocument.spreadsheet'',
     mime_entry butil_mime_odt ''.odt'' ''application/vnd.oasis.opendocument.text'',
     mime_entry butil_mime_oga ''.oga'' ''audio/ogg'',
     mime_entry butil_mime_ogv ''.ogv'' ''video/ogg'',
     mime_entry butil_mime_ogx ''.ogx'' ''application/ogg'',
     mime_entry butil_mime_otf ''.otf'' ''font/otf'',
     mime_entry butil_mime_png ''.png'' ''image/png'',
     mime_entry butil_mime_pdf ''.pdf'' ''application/pdf'',
     mime_entry butil_mime_ppt ''.ppt'' ''application/vnd.ms-powerpoint'',
     mime_entry butil_mime_pptx ''.pptx'' ''application/vnd.openxmlformats-officedocument.presentationml.presentation'',
     mime_entry butil_mime_qt ''.qt'' ''video/quicktime'',
     mime_entry butil_mime_rar ''.rar'' ''application/x-rar-compressed'',
     mime_entry butil_mime_rtf ''.rtf'' ''application/rtf'',
     mime_entry butil_mime_sh ''.sh'' ''application/x-sh'',
     mime_entry butil_mime_svg ''.svg'' ''image/svg+xml'',
     mime_entry butil_mime_swf ''.swf'' ''application/x-shockwave-flash'',
     mime_entry butil_mime_tar ''.tar'' ''application/x-tar'',
     mime_entry butil_mime_ts ''.ts'' ''application/typescript'',
     mime_entry butil_mime_ttf ''.ttf'' ''font/ttf'',
     mime_entry butil_mime_vsd ''.vsd'' ''application/vnd.visio'',
     mime_entry butil_mime_wav ''.wav'' ''audio/x-wav'',
     mime_entry butil_mime_weba ''.weba'' ''audio/webm'',
     mime_entry butil_mime_webm ''.webm'' ''video/webm'',
     mime_entry butil_mime_webp ''.webp'' ''image/webp'',
     mime_entry butil_mime_woff ''.woff'' ''font/woff'',
     mime_entry butil_mime_woff2 ''.woff2'' ''font/woff2'',
     mime_entry butil_mime_xhtml ''.xhtml'' ''application/xhtml+xml'',
     mime_entry butil_mime_xls ''.xls'' ''application/vnd.ms-excel'',
     mime_entry butil_mime_xlsx ''.xlsx'' ''application/vnd.ms-excel,application/vnd.openxmlformats-officedocument.spreadsheetml.sheet'',
     mime_entry butil_mime_xul ''.xul'' ''application/vnd.mozilla.xul+xml'',
     mime_entry butil_mime_zip ''.zip'' ''application/zip'',
     mime_entry butil_mime_3gp ''.3gp'' ''video/3gpp'',
     mime_entry butil_mime_3g2 ''.3g2'' ''video/3gpp2'',
     mime_entry butil_mime_7z ''.7z'' ''application/x-7z-compressed'']"

definition BUTIL_DEFAULT_MIME :: string where
  "BUTIL_DEFAULT_MIME = ''text/plain''"

section \<open>Lookups\<close>

text \<open>The backward search for the dot, from the last character on.\<close>

fun last_dot :: "string \<Rightarrow> nat \<Rightarrow> nat" where
  "last_dot path 0 = 0"
| "last_dot path (Suc pos) = (if path ! Suc pos = CHR ''.'' then Suc pos else last_dot path pos)"

definition file_ext :: "string option \<Rightarrow> string option" where
  "file_ext path =
     (case path of
        None \<Rightarrow> None
      | Some p \<Rightarrow>
          if p = [] then None
          else let pos = last_dot p (length p - 1)
            in if p ! pos \<noteq> CHR ''.'' then None else Some (drop (pos + 1) p))"

definition ext_entry :: "string \<Rightarrow> butil_mime_entry option" where
  "ext_entry ext = List.find (\<lambda>e. same_nocase ext (tl (mime_ext e))) s_mimetab"

definition butil_mime_string_for_file :: "string option \<Rightarrow> string" where
  "butil_mime_string_for_file path =
     (case file_ext path of
        None \<Rightarrow> BUTIL_DEFAULT_MIME
      | Some ext \<Rightarrow> (case ext_entry ext of Some e \<Rightarrow> mime_string e | None \<Rightarrow> BUTIL_DEFAULT_MIME))"

definition butil_content_type_for_file :: "string option \<Rightarrow> mime_content_type" where
  "butil_content_type_for_file path =
     (case file_ext path of
        None \<Rightarrow> butil_mime_bin
      | Some ext \<Rightarrow> (case ext_entry ext of Some e \<Rightarrow> mime_type e | None \<Rightarrow> butil_mime_bin))"

definition butil_mime_string_for_content_type :: "mime_content_type \<Rightarrow> string" where
  "butil_mime_string_for_content_type type =
     (case List.find (\<lambda>e. type = mime_type e) s_mimetab of
        Some e \<Rightarrow> mime_string e | None \<Rightarrow> BUTIL_DEFAULT_MIME)"

definition butil_content_type_for_mime_string :: "string option \<Rightarrow> mime_content_type" where
  "butil_content_type_for_mime_string mime =
     (case mime of
        None \<Rightarrow> butil_mime_bin
      | Some m \<Rightarrow>
          if m = [] then butil_mime_bin
          else (case List.find (\<lambda>e. prefix_nocase m (mime_string e)) s_mimetab of
                  Some e \<Rightarrow> mime_type e | None \<Rightarrow> butil_mime_bin))"

section \<open>Facts of the table\<close>

lemma table_strings:
  "\<forall>e \<in> set s_mimetab. map c_tolower (mime_string e) = mime_string e \<and> mime_string e \<noteq> []"
  by code_simp

lemma type_mime:
  "\<forall>e \<in> set s_mimetab. butil_mime_string_for_content_type (mime_type e) = mime_string e"
  by code_simp

lemma types_covered: "\<forall>t \<in> set all_mime_types. List.find (\<lambda>e. t = mime_type e) s_mimetab \<noteq> None"
  by code_simp

lemma table_no_semicolon: "\<forall>e \<in> set s_mimetab. CHR '';'' \<notin> set (mime_string e)"
  by code_simp

text \<open>
  The types whose string is not the first one of the table that it starts with: the string of an
  earlier entry is equal to theirs or a proper prefix of it.
\<close>

lemma first_prefix:
  "\<forall>e \<in> set s_mimetab.
     (map_option mime_type (List.find (\<lambda>e'. prefix (mime_string e') (mime_string e)) s_mimetab) = Some (mime_type e)) =
     (mime_type e \<notin> {butil_mime_arc, butil_mime_bz2, butil_mime_swf, butil_mime_woff2, butil_mime_xlsx, butil_mime_3g2})"
  by code_simp

lemma table_string:
  obtains e where "e \<in> set s_mimetab" "mime_type e = t" "butil_mime_string_for_content_type t = mime_string e"
proof -
  obtain e where "List.find (\<lambda>e. t = mime_type e) s_mimetab = Some e"
    using bspec [OF types_covered all_mime_types [of t]] by auto
  then have "e \<in> set s_mimetab" "mime_type e = t"
    by (auto simp: find_Some_iff)
  with type_mime that show thesis by blast
qed

text \<open>
  A name in any mixture of cases, with or without parameters behind a semicolon, starts with the
  string of an entry exactly when the string that it spells does.
\<close>

lemma prefix_nocase_table:
  assumes "e \<in> set s_mimetab" "e' \<in> set s_mimetab" "same_nocase m (mime_string e)"
    and "rest = [] \<or> hd rest = CHR '';''"
  shows "prefix_nocase (m @ rest) (mime_string e') \<longleftrightarrow> prefix (mime_string e') (mime_string e)"
proof -
  let ?s = "mime_string e" and ?s' = "mime_string e'"
  have m: "map c_tolower m = ?s" "length m = length ?s"
    using bspec [OF table_strings assms(1)] assms(3) by (simp_all add: same_nocase_def) (metis length_map)
  have "map c_tolower (take (length ?s') (m @ rest)) = take (length ?s') (?s @ map c_tolower rest)"
    by (simp add: m flip: take_map)
  then have eq: "prefix_nocase (m @ rest) ?s' \<longleftrightarrow> take (length ?s') (?s @ map c_tolower rest) = ?s'"
    using bspec [OF table_strings assms(2)] by (simp add: prefix_nocase_def)
  show ?thesis
  proof (cases "length ?s' \<le> length ?s")
    case True
    then show ?thesis by (simp add: eq) (metis append_take_drop_id prefix_def append_eq_conv_conj)
  next
    case False
    have "take (length ?s') (?s @ map c_tolower rest) \<noteq> ?s'"
    proof (cases rest)
      case (Cons r rs)
      then have "r = CHR '';''" using assms(4) by simp
      then have "(take (length ?s') (?s @ map c_tolower rest)) ! length ?s = CHR '';''"
        using False Cons by (simp add: nth_append c_tolower_def in_range_def c_char_def)
      then show ?thesis
        using bspec [OF table_no_semicolon assms(2)] False by (metis not_le nth_mem)
    qed (use False in auto)
    then show ?thesis using False by (auto simp: eq dest: prefix_length_le)
  qed
qed

lemma type_of_name:
  assumes "same_nocase m (butil_mime_string_for_content_type t)" "rest = [] \<or> hd rest = CHR '';''"
  shows "Some (butil_content_type_for_mime_string (Some (m @ rest))) =
    map_option mime_type (List.find (\<lambda>e. prefix (mime_string e) (butil_mime_string_for_content_type t)) s_mimetab)"
proof -
  obtain e where e: "e \<in> set s_mimetab" "mime_type e = t" "butil_mime_string_for_content_type t = mime_string e"
    by (rule table_string)
  then have same: "same_nocase m (mime_string e)" using assms(1) by simp
  have "List.find (\<lambda>e'. prefix_nocase (m @ rest) (mime_string e')) s_mimetab =
      List.find (\<lambda>e'. prefix (mime_string e') (mime_string e)) s_mimetab"
    by (rule find_cong) (simp_all add: prefix_nocase_table [OF e(1) _ same assms(2)])
  moreover have "m \<noteq> []" using same bspec [OF table_strings e(1)] by (auto simp: same_nocase_def)
  moreover have "List.find (\<lambda>e'. prefix (mime_string e') (mime_string e)) s_mimetab \<noteq> None"
    using e(1) by (auto simp: find_None_iff)
  ultimately show ?thesis
    by (auto simp: butil_content_type_for_mime_string_def e(3))
qed

section \<open>The lookups fit together\<close>

text \<open>
  C39: The type of a MIME name is found again, whatever the case of its letters and whatever
  parameters follow it behind a semicolon: looking up the type of the string that the table has for
  a content type gives that type back, except for exactly six types (arc, bz2, swf, woff2, xlsx and
  3g2), whose string equals the string of an earlier entry or starts with it. In every case the
  string of the type found is an initial part of the string looked up.
\<close>

theorem mime_types_roundtrip:
  assumes "same_nocase m (butil_mime_string_for_content_type t)" "rest = [] \<or> hd rest = CHR '';''"
  defines "found \<equiv> butil_content_type_for_mime_string (Some (m @ rest))"
  shows "(found = t \<longleftrightarrow>
      t \<notin> {butil_mime_arc, butil_mime_bz2, butil_mime_swf, butil_mime_woff2, butil_mime_xlsx, butil_mime_3g2}) \<and>
    prefix (butil_mime_string_for_content_type found) (butil_mime_string_for_content_type t)"
proof -
  note found = type_of_name [OF assms(1,2), folded found_def]
  then obtain e where "List.find (\<lambda>e. prefix (mime_string e) (butil_mime_string_for_content_type t)) s_mimetab = Some e"
      "mime_type e = found" by (metis map_option_eq_Some)
  then have "e \<in> set s_mimetab" "prefix (mime_string e) (butil_mime_string_for_content_type t)"
      "mime_type e = found"
    by (auto simp: find_Some_iff)
  with type_mime have "prefix (butil_mime_string_for_content_type found) (butil_mime_string_for_content_type t)"
    by metis
  moreover obtain e where e: "e \<in> set s_mimetab" "mime_type e = t" "butil_mime_string_for_content_type t = mime_string e"
    by (rule table_string)
  ultimately show ?thesis
    using bspec [OF first_prefix e(1), folded e(3), folded found, unfolded e(2)] by simp
qed

theorem mime_types_roundtrip_witness:
  "butil_content_type_for_mime_string (Some ''Text/HTML; charset=utf-8'') = butil_mime_html \<and>
   butil_content_type_for_mime_string (Some ''application/octet-stream'') \<noteq> butil_mime_arc"
proof -
  have "same_nocase ''Text/HTML'' (butil_mime_string_for_content_type butil_mime_html)"
      "same_nocase ''application/octet-stream'' (butil_mime_string_for_content_type butil_mime_arc)"
    by code_simp+
  from mime_types_roundtrip [OF this(1), of "''; charset=utf-8''"] mime_types_roundtrip [OF this(2), of "[]"]
  show ?thesis by simp
qed

definition known_file :: "string option \<Rightarrow> bool" where
  "known_file path = (case file_ext path of None \<Rightarrow> False | Some ext \<Rightarrow> ext_entry ext \<noteq> None)"

text \<open>
  The two lookups by file name agree on every file with a known extension; for all other files
  they contradict each other: the string is the one of plain text, the type the one of binary data.
\<close>

theorem mime_file_lookups:
  "butil_mime_string_for_content_type (butil_content_type_for_file path) =
     (if known_file path then butil_mime_string_for_file path else ''application/octet-stream'') \<and>
   (known_file path \<or> butil_mime_string_for_file path = ''text/plain'')"
proof -
  have bin: "butil_mime_string_for_content_type butil_mime_bin = ''application/octet-stream''"
    by (simp add: butil_mime_string_for_content_type_def s_mimetab_def mime_entry_def)
  have "butil_mime_string_for_content_type (mime_type e) = mime_string e" if "ext_entry ext = Some e" for ext e
  proof -
    have "e \<in> set s_mimetab" using that by (auto simp: ext_entry_def find_Some_iff)
    with type_mime show ?thesis by blast
  qed
  with bin show ?thesis
    by (auto simp: known_file_def butil_content_type_for_file_def butil_mime_string_for_file_def
      BUTIL_DEFAULT_MIME_def split: option.splits)
qed

end
