(* ===== verification/Calendar.thy ===== *)
theory Calendar
  imports Clib
begin

text \<open>
  Calendar time as the standard library keeps it, for the date functions of \<open>butil.c\<close>:
  \<open>struct tm\<close>, \<open>gmtime_r\<close>, and \<open>localtime\<close> and \<open>mktime\<close> over the local time zone,
  which is the one thing the library does not determine and is a parameter.
\<close>

section \<open>Days\<close>

definition leap_year :: "int \<Rightarrow> bool" where
  "leap_year y \<longleftrightarrow> y mod 4 = 0 \<and> (y mod 100 \<noteq> 0 \<or> y mod 400 = 0)"

text \<open>The days from the first of January of year 1 to that of year \<open>y\<close>.\<close>

definition days_before_year :: "int \<Rightarrow> int" where
  "days_before_year y = 365 * (y - 1) + (y - 1) div 4 - (y - 1) div 100 + (y - 1) div 400"

definition days_before_month :: "bool \<Rightarrow> nat \<Rightarrow> int" where
  "days_before_month leap m =
     sum_list (take m [31, if leap then 29 else 28, 31, 30, 31, 30, 31, 31, 30, 31, 30, 31])"

definition epoch_day :: int where
  "epoch_day = 719162"

text \<open>The year a day falls in and the days before it in that year.\<close>

definition year_of_day :: "int \<Rightarrow> int \<times> int" where
  "year_of_day d =
     (let e = d div 146097; r = d mod 146097;
          c = min 3 (r div 36524); r1 = r - c * 36524;
          q = r1 div 1461; r2 = r1 mod 1461;
          a = min 3 (r2 div 365)
      in (400 * e + 100 * c + 4 * q + a + 1, r2 - 365 * a))"

definition month_of_day :: "bool \<Rightarrow> int \<Rightarrow> nat" where
  "month_of_day leap n = length (takeWhile (\<lambda>m. days_before_month leap (Suc m) \<le> n) [0..<11])"

lemma days_before_year_parts:
  fixes e :: int
  assumes "0 \<le> c" "c \<le> 3" "0 \<le> q" "q \<le> 24" "0 \<le> a" "a \<le> 3"
  defines "y \<equiv> 400 * e + 100 * c + 4 * q + a + 1"
  shows "days_before_year y = 146097 * e + 36524 * c + 1461 * q + 365 * a"
    and "leap_year y \<longleftrightarrow> a = 3 \<and> (q = 24 \<longrightarrow> c = 3)"
proof -
  have "(y - 1) div 4 = 100 * e + 25 * c + q"
    by (rule int_div_pos_eq [where r = a]) (use assms(5,6) in \<open>simp_all add: y_def\<close>)
  moreover have "(y - 1) div 100 = 4 * e + c"
    by (rule int_div_pos_eq [where r = "4 * q + a"]) (use assms(3-6) in \<open>simp_all add: y_def\<close>)
  moreover have "(y - 1) div 400 = e"
    by (rule int_div_pos_eq [where r = "100 * c + 4 * q + a"]) (use assms(1-6) in \<open>simp_all add: y_def\<close>)
  ultimately show "days_before_year y = 146097 * e + 36524 * c + 1461 * q + 365 * a"
    by (simp add: days_before_year_def y_def)
  have m: "x mod k = 0 \<longleftrightarrow> x = k" if "0 < x" "x \<le> k" for x k :: int
    using that by (cases "x = k") (simp_all add: mod_pos_pos_trivial)
  have "y = (a + 1) + (100 * e + 25 * c + q) * 4" "y = (4 * q + a + 1) + (4 * e + c) * 100"
      "y = (100 * c + 4 * q + a + 1) + e * 400"
    by (simp_all add: y_def)
  then have "y mod 4 = (a + 1) mod 4" "y mod 100 = (4 * q + a + 1) mod 100"
      "y mod 400 = (100 * c + 4 * q + a + 1) mod 400"
    by (metis mod_mult_self1)+
  moreover have "(a + 1) mod 4 = 0 \<longleftrightarrow> a = 3"
    using assms(5,6) m [of "a + 1" 4] by linarith
  moreover have q24: "4 * q + a + 1 = 100 \<longleftrightarrow> a = 3 \<and> q = 24"
    using assms(3-6) by (cases "q = 24") auto
  then have "(4 * q + a + 1) mod 100 = 0 \<longleftrightarrow> a = 3 \<and> q = 24"
    using assms(3-6) m [of "4 * q + a + 1" 100] by linarith
  moreover have "100 * c + 4 * q + a + 1 = 400 \<longleftrightarrow> c = 3 \<and> 4 * q + a + 1 = 100"
    using assms(1-6) by (cases "c = 3") auto
  then have "(100 * c + 4 * q + a + 1) mod 400 = 0 \<longleftrightarrow> a = 3 \<and> q = 24 \<and> c = 3"
    using assms(1-6) q24 m [of "100 * c + 4 * q + a + 1" 400] by auto
  ultimately have "y mod 4 = 0 \<longleftrightarrow> a = 3" "y mod 100 = 0 \<longleftrightarrow> a = 3 \<and> q = 24"
      "y mod 400 = 0 \<longleftrightarrow> a = 3 \<and> q = 24 \<and> c = 3"
    by (simp_all only:)
  then show "leap_year y \<longleftrightarrow> a = 3 \<and> (q = 24 \<longrightarrow> c = 3)"
    by (auto simp: leap_year_def)
qed

lemma year_of_day:
  assumes "year_of_day d = (y, n)"
  shows "days_before_year y + n = d" "0 \<le> n" "n < (if leap_year y then 366 else 365)"
proof -
  define e where "e = d div 146097"
  define r where "r = d mod 146097"
  define c where "c = min 3 (r div 36524)"
  define r1 where "r1 = r - c * 36524"
  define q where "q = r1 div 1461"
  define r2 where "r2 = r1 mod 1461"
  define a where "a = min 3 (r2 div 365)"
  have yn: "y = 400 * e + 100 * c + 4 * q + a + 1" "n = r2 - 365 * a"
    using assms unfolding year_of_day_def Let_def e_def r_def c_def r1_def q_def r2_def a_def
    by (simp_all only: prod.inject)
  have d: "d = 146097 * e + r" and r: "0 \<le> r" "r < 146097"
    by (simp_all add: e_def r_def)
  define k where "k = r div 36524"
  have "36524 * k \<le> r" "r < 36524 * k + 36524"
    by (simp_all add: k_def)
  then have c: "0 \<le> c" "c \<le> 3" "0 \<le> r1" "r1 < (if c = 3 then 36525 else 36524)"
    using r unfolding c_def r1_def k_def [symmetric] by (auto simp: min_def)
  have q: "r1 = 1461 * q + r2" "0 \<le> r2" "r2 < 1461"
    by (simp_all add: q_def r2_def)
  have q24: "0 \<le> q" "q \<le> 24" "q = 24 \<Longrightarrow> c \<noteq> 3 \<Longrightarrow> r2 < 1460"
    using q c by (auto split: if_splits)
  define l where "l = r2 div 365"
  have "365 * l \<le> r2" "r2 < 365 * l + 365"
    by (simp_all add: l_def)
  then have a: "0 \<le> a" "a \<le> 3" "0 \<le> r2 - 365 * a" "r2 - 365 * a < (if a = 3 then 366 else 365)"
      "a = 3 \<Longrightarrow> r2 < 1460 \<Longrightarrow> r2 - 365 * a < 365"
    using q(2,3) unfolding a_def l_def [symmetric] by (auto simp: min_def)
  note parts = days_before_year_parts [OF c(1,2) q24(1,2) a(1,2), of e]
  show "days_before_year y + n = d"
    using parts(1) d q(1) by (simp add: yn r1_def)
  show "0 \<le> n" using a by (simp add: yn)
  show "n < (if leap_year y then 366 else 365)"
    using parts(2) a q24(3) by (auto simp: yn split: if_splits)
qed

lemma month_of_day:
  assumes "0 \<le> n" "n < (if leap then 366 else 365)"
  shows "month_of_day leap n < 12" "days_before_month leap (month_of_day leap n) \<le> n"
    "n < days_before_month leap (Suc (month_of_day leap n))"
proof -
  let ?P = "\<lambda>m. days_before_month leap (Suc m) \<le> n" and ?k = "month_of_day leap n"
  have le: "?k \<le> 11"
    using length_takeWhile_le [of ?P "[0..<11]"] by (simp add: month_of_day_def)
  then show "?k < 12" by simp
  show "days_before_month leap ?k \<le> n"
  proof (cases ?k)
    case 0
    then show ?thesis using assms(1) by (simp add: days_before_month_def)
  next
    case (Suc i)
    then have "i < length (takeWhile ?P [0..<11])" by (simp add: month_of_day_def)
    from set_takeWhileD [OF nth_mem [OF this]] takeWhile_nth [OF this] le Suc
    have "?P (takeWhile ?P [0..<11] ! i)" "takeWhile ?P [0..<11] ! i = i" by simp_all
    then show ?thesis using Suc by simp
  qed
  show "n < days_before_month leap (Suc ?k)"
  proof (cases "?k = 11")
    case True
    then show ?thesis using assms(2) by (simp add: days_before_month_def split: if_splits)
  next
    case False
    then have "?k < length [0..<11]" using le by simp
    then have "\<not> ?P ([0..<11] ! ?k)"
      unfolding month_of_day_def by (rule nth_length_takeWhile)
    then show ?thesis using False le by simp
  qed
qed

section \<open>Broken-down time\<close>

text \<open>The fields of \<open>struct tm\<close> that are used; \<open>tm_year\<close> counts from 1900.\<close>

record tm =
  tm_sec :: int
  tm_min :: int
  tm_hour :: int
  tm_mday :: int
  tm_mon :: int
  tm_year :: int
  tm_wday :: int

text \<open>\<open>gmtime_r\<close>, with a \<open>time_t\<close> that does not overflow.\<close>

definition gmtime :: "int \<Rightarrow> tm" where
  "gmtime t =
     (let d = t div 86400 + epoch_day; s = t mod 86400;
          (y, n) = year_of_day d; m = month_of_day (leap_year y) n
      in \<lparr>tm_sec = s mod 60, tm_min = s div 60 mod 60, tm_hour = s div 3600,
          tm_mday = n - days_before_month (leap_year y) m + 1, tm_mon = int m, tm_year = y - 1900,
          tm_wday = (d + 1) mod 7\<rparr>)"

text \<open>
  The seconds a broken-down time stands for in UTC. The fields need not be in their ranges:
  months carry into years, the others just count.
\<close>

definition utc_seconds :: "tm \<Rightarrow> int" where
  "utc_seconds tm =
     (let y = 1900 + tm_year tm + tm_mon tm div 12; m = nat (tm_mon tm mod 12);
          d = days_before_year y + days_before_month (leap_year y) m + (tm_mday tm - 1) - epoch_day
      in d * 86400 + tm_hour tm * 3600 + tm_min tm * 60 + tm_sec tm)"

lemma day_seconds: "s div 3600 * 3600 + s div 60 mod 60 * 60 + s mod 60 = (s :: int)"
proof -
  have "s div 3600 = s div 60 div 60" using zdiv_zmult2_eq [of 60 s 60] by simp
  then have "s div 3600 * 3600 + s div 60 mod 60 * 60 = 60 * (60 * (s div 60 div 60) + s div 60 mod 60)"
    by (simp only: distrib_left mult.assoc mult.commute [of _ 60] mult.commute [of _ 3600])
  also have "\<dots> = 60 * (s div 60)" by (simp only: mult_div_mod_eq)
  finally show ?thesis by simp
qed

lemma utc_seconds_gmtime [simp]: "utc_seconds (gmtime t) = t"
proof -
  define d where "d = t div 86400 + epoch_day"
  obtain y n where yn: "year_of_day d = (y, n)" by (cases "year_of_day d")
  define m where "m = month_of_day (leap_year y) n"
  note year = year_of_day [OF yn] and month = month_of_day [OF year_of_day(2,3) [OF yn], folded m_def]
  have "int m div 12 = 0" "nat (int m mod 12) = m" using month(1) by simp_all
  then have "utc_seconds (gmtime t) = (d - epoch_day) * 86400 + (t mod 86400 div 3600 * 3600 +
      t mod 86400 div 60 mod 60 * 60 + t mod 86400 mod 60)"
    using year(1) by (simp add: utc_seconds_def gmtime_def Let_def yn flip: d_def m_def)
  also have "\<dots> = t div 86400 * 86400 + t mod 86400"
    using day_seconds [of "t mod 86400"] by (simp add: d_def)
  finally show ?thesis by simp
qed

lemma gmtime_ranges:
  "0 \<le> tm_sec (gmtime t) \<and> tm_sec (gmtime t) < 60" "0 \<le> tm_min (gmtime t) \<and> tm_min (gmtime t) < 60"
  "0 \<le> tm_hour (gmtime t) \<and> tm_hour (gmtime t) < 24" "1 \<le> tm_mday (gmtime t) \<and> tm_mday (gmtime t) \<le> 31"
  "0 \<le> tm_mon (gmtime t) \<and> tm_mon (gmtime t) < 12" "0 \<le> tm_wday (gmtime t) \<and> tm_wday (gmtime t) < 7"
proof -
  define d where "d = t div 86400 + epoch_day"
  obtain y n where yn: "year_of_day d = (y, n)" by (cases "year_of_day d")
  define m where "m = month_of_day (leap_year y) n"
  note g = gmtime_def [of t, unfolded Let_def, folded d_def, unfolded yn prod.case, folded m_def]
  note month = month_of_day [OF year_of_day(2,3) [OF yn], folded m_def]
  show "0 \<le> tm_sec (gmtime t) \<and> tm_sec (gmtime t) < 60" "0 \<le> tm_min (gmtime t) \<and> tm_min (gmtime t) < 60"
    "0 \<le> tm_mon (gmtime t) \<and> tm_mon (gmtime t) < 12" "0 \<le> tm_wday (gmtime t) \<and> tm_wday (gmtime t) < 7"
    using month(1) by (simp_all add: g)
  have "t mod 86400 \<le> 86399" by simp
  then have "t mod 86400 div 3600 \<le> 23" using zdiv_mono1 [of "t mod 86400" 86399 3600] by simp
  then show "0 \<le> tm_hour (gmtime t) \<and> tm_hour (gmtime t) < 24"
    by (simp add: g pos_imp_zdiv_nonneg_iff)
  have "\<forall>m \<in> set [0..<12]. days_before_month l (Suc m) - days_before_month l m \<le> 31" for l
    by (cases l; simp only:; code_simp)
  from bspec [OF this [of "leap_year y"], of m] month
  show "1 \<le> tm_mday (gmtime t) \<and> tm_mday (gmtime t) \<le> 31"
    by (simp add: g)
qed

section \<open>Local time\<close>

text \<open>
  The local time zone: how far local time is ahead of UTC at an instant, and the instant that
  \<open>mktime\<close> finds for a local time that is not marked as daylight saving time.
\<close>

record time_zone =
  z_offset :: "int \<Rightarrow> int"
  z_standard :: "int \<Rightarrow> int"

definition localtime :: "time_zone \<Rightarrow> int \<Rightarrow> tm" where
  "localtime z t = gmtime (t + z_offset z t)"

definition mktime :: "time_zone \<Rightarrow> tm \<Rightarrow> int" where
  "mktime z tm = z_standard z (utc_seconds tm)"

text \<open>A zone that keeps one offset all year and for ever.\<close>

definition fixed_zone :: "int \<Rightarrow> time_zone" where
  "fixed_zone off = \<lparr>z_offset = \<lambda>t. off, z_standard = \<lambda>s. s - off\<rparr>"

end
