(* ===== verification/Dates.thy ===== *)
theory Dates
  imports Calendar
begin

text \<open>
  The date functions of \<open>butil.c\<close>: \<open>butil_rfc2616_date_to_time\<close> and
  \<open>butil_time_to_rfc2616_date\<close>. The time zone is a parameter, and so is what the stack holds
  where the parser's local variables lie, because it may read them before they are written.
\<close>

section \<open>From text to time\<close>

text \<open>The local variables that \<open>sscanf\<close> stores and the parser reads.\<close>

record date_fields =
  df_day :: int
  df_month :: string
  df_year :: int
  df_hh :: int
  df_mm :: int
  df_ss :: int

text \<open>The format \<open>%3s, %d %3s %d %d:%d:%d %3s\<close>.\<close>

definition date_format :: "directive list" where
  "date_format = [ScanWord 3, ScanChar CHR '','', ScanSpace, ScanInt, ScanSpace, ScanWord 3, ScanSpace,
     ScanInt, ScanSpace, ScanInt, ScanChar CHR '':'', ScanInt, ScanChar CHR '':'', ScanInt, ScanSpace, ScanWord 3]"

text \<open>A scanned word and its NUL overwrite the beginning of its array.\<close>

definition store_word :: "string \<Rightarrow> string \<Rightarrow> string" where
  "store_word w old = w @ CHR 0x00 # drop (Suc (length w)) old"

definition scanned_int :: "scanned list \<Rightarrow> nat \<Rightarrow> int \<Rightarrow> int" where
  "scanned_int vs i old = (if i < length vs then (case vs ! i of Number n \<Rightarrow> n | Word w \<Rightarrow> old) else old)"

definition scanned_word :: "scanned list \<Rightarrow> nat \<Rightarrow> string \<Rightarrow> string" where
  "scanned_word vs i old =
     (if i < length vs then (case vs ! i of Word w \<Rightarrow> store_word w old | Number n \<Rightarrow> old) else old)"

definition store_fields :: "scanned list \<Rightarrow> date_fields \<Rightarrow> date_fields" where
  "store_fields vs old =
     \<lparr>df_day = scanned_int vs 1 (df_day old), df_month = scanned_word vs 2 (df_month old),
      df_year = scanned_int vs 3 (df_year old), df_hh = scanned_int vs 4 (df_hh old),
      df_mm = scanned_int vs 5 (df_mm old), df_ss = scanned_int vs 6 (df_ss old)\<rparr>"

text \<open>The \<open>switch\<close> on the first letters of the month.\<close>

definition month_number :: "string \<Rightarrow> int option" where
  "month_number m =
     (let c0 = m ! 0; c1 = m ! 1; c2 = m ! 2 in
      if c0 = CHR ''J'' \<or> c0 = CHR ''j''
      then (if c1 = CHR ''a'' \<or> c1 = CHR ''A''
            then (if c2 = CHR ''n'' \<or> c2 = CHR ''N'' then Some 0 else None)
            else if c2 = CHR ''n'' \<or> c2 = CHR ''N'' then Some 5
            else if c2 = CHR ''l'' \<or> c2 = CHR ''L'' then Some 6 else None)
      else if c0 = CHR ''F'' \<or> c0 = CHR ''f''
      then (if (c1 = CHR ''e'' \<or> c1 = CHR ''E'') \<and> (c2 = CHR ''b'' \<or> c2 = CHR ''B'') then Some 1 else None)
      else if c0 = CHR ''M'' \<or> c0 = CHR ''m''
      then (if c1 = CHR ''a'' \<or> c1 = CHR ''A''
            then (if c2 = CHR ''r'' \<or> c2 = CHR ''R'' then Some 2
                  else if c2 = CHR ''y'' \<or> c2 = CHR ''Y'' then Some 4 else None)
            else None)
      else if c0 = CHR ''A'' \<or> c0 = CHR ''a''
      then (if (c1 = CHR ''u'' \<or> c1 = CHR ''U'') \<and> (c2 = CHR ''g'' \<or> c2 = CHR ''G'') then Some 7
            else if (c1 = CHR ''p'' \<or> c1 = CHR ''P'') \<and> (c2 = CHR ''r'' \<or> c2 = CHR ''R'') then Some 3
            else None)
      else if c0 = CHR ''S'' \<or> c0 = CHR ''s''
      then (if (c1 = CHR ''e'' \<or> c1 = CHR ''E'') \<and> (c2 = CHR ''p'' \<or> c2 = CHR ''P'') then Some 8 else None)
      else if c0 = CHR ''O'' \<or> c0 = CHR ''o''
      then (if (c1 = CHR ''c'' \<or> c1 = CHR ''C'') \<and> (c2 = CHR ''t'' \<or> c2 = CHR ''T'') then Some 9 else None)
      else if c0 = CHR ''N'' \<or> c0 = CHR ''n''
      then (if (c1 = CHR ''o'' \<or> c1 = CHR ''O'') \<and> (c2 = CHR ''v'' \<or> c2 = CHR ''V'') then Some 10 else None)
      else if c0 = CHR ''D'' \<or> c0 = CHR ''d''
      then (if (c1 = CHR ''e'' \<or> c1 = CHR ''E'') \<and> (c2 = CHR ''c'' \<or> c2 = CHR ''C'') then Some 11 else None)
      else None)"

text \<open>
  The difference between UTC and local time, taken at the end of the second day of the epoch from
  the day of the month and the time of day.
\<close>

definition month_seconds :: "tm \<Rightarrow> int" where
  "month_seconds tm = tm_mday tm * 24 * 3600 + tm_hour tm * 3600 + tm_min tm * 60 + tm_sec tm"

definition gmt_offset :: "time_zone \<Rightarrow> int" where
  "gmt_offset z = month_seconds (gmtime (48 * 3600)) - month_seconds (localtime z (48 * 3600))"

definition fields_to_time :: "time_zone \<Rightarrow> date_fields \<Rightarrow> int" where
  "fields_to_time z f =
     (if df_day f < 0 \<or> 31 < df_day f then 0
      else if df_hh f < 0 \<or> 23 < df_hh f then 0
      else if df_mm f < 0 \<or> 59 < df_mm f then 0
      else if df_ss f < 0 \<or> 59 < df_ss f then 0
      else case month_number (df_month f) of
        None \<Rightarrow> 0
      | Some m \<Rightarrow>
          mktime z \<lparr>tm_sec = df_ss f, tm_min = df_mm f, tm_hour = df_hh f, tm_mday = df_day f, tm_mon = m,
            tm_year = df_year f - 1900, tm_wday = 0\<rparr> - gmt_offset z)"

text \<open>\<open>sscanf\<close> returns a negative number when the text holds nothing but white space.\<close>

definition butil_rfc2616_date_to_time :: "time_zone \<Rightarrow> date_fields \<Rightarrow> string option \<Rightarrow> int" where
  "butil_rfc2616_date_to_time z stack date =
     (case date of
        None \<Rightarrow> 0
      | Some text \<Rightarrow>
          if text = [] then 0
          else let vs = c_scan date_format text in
            if vs = [] then 0 else fields_to_time z (store_fields vs stack))"

section \<open>From time to text\<close>

definition weekday_names :: "string list" where
  "weekday_names = [''Sun'', ''Mon'', ''Tue'', ''Wed'', ''Thu'', ''Fri'', ''Sat'']"

definition month_names :: "string list" where
  "month_names = [''Jan'', ''Feb'', ''Mar'', ''Apr'', ''May'', ''Jun'', ''Jul'', ''Aug'', ''Sep'', ''Oct'', ''Nov'', ''Dec'']"

text \<open>The format \<open>%a, %d %b %Y %H:%M:%S GMT\<close> of \<open>strftime\<close>.\<close>

definition date_text :: "tm \<Rightarrow> string" where
  "date_text tm =
     weekday_names ! nat (tm_wday tm) @ '', '' @ print_2d (tm_mday tm) @ '' '' @
     month_names ! nat (tm_mon tm) @ '' '' @ print_int (tm_year tm + 1900) @ '' '' @
     print_2d (tm_hour tm) @ '':'' @ print_2d (tm_min tm) @ '':'' @ print_2d (tm_sec tm) @ '' GMT''"

definition bad_date :: string where
  "bad_date = ''Mon, 1 Jan 2015 00:00:00 GMT''"

text \<open>
  \<open>nbuf\<close> is 0 also for a null buffer. \<open>gmtime_r\<close> fails when the year does not fit an
  \<open>int\<close>, \<open>strftime\<close> when the text and its NUL do not fit the buffer.
\<close>

definition butil_time_to_rfc2616_date :: "int \<Rightarrow> nat \<Rightarrow> string" where
  "butil_time_to_rfc2616_date when nbuf =
     (if nbuf = 0 then bad_date
      else let tm = gmtime when in
        if tm_year tm < - int_max - 1 \<or> int_max < tm_year tm then bad_date
        else if nbuf \<le> length (date_text tm) then bad_date
        else date_text tm)"

section \<open>Reading back what was printed\<close>

lemma scan_space:
  "w \<noteq> [] \<Longrightarrow> \<not> c_isspace (hd w) \<Longrightarrow> c_scan (ScanSpace # ds) (CHR '' '' # w @ rest) = c_scan ds (w @ rest)"
  by (cases w) (auto simp: c_isspace_def)

lemma print_2d_head: "0 \<le> v \<Longrightarrow> v < 100 \<Longrightarrow> print_2d v \<noteq> [] \<and> \<not> c_isspace (hd (print_2d v))"
  using digit_char_props(3) [of "nat (v div 10)"] by (simp add: print_2d_def)

lemma print_unsigned_head: "print_unsigned v \<noteq> [] \<and> \<not> c_isspace (hd (print_unsigned v))"
  using print_unsigned_nonempty [of v] print_unsigned_digits [of "hd (print_unsigned v)" v] digit_char_props(3)
  by fastforce

lemma names_words:
  "\<forall>w \<in> set (weekday_names @ month_names @ [''GMT'']). length w = 3 \<and> w \<noteq> [] \<and> (\<forall>c \<in> set w. \<not> c_isspace c)"
  by code_simp

lemma month_of_name:
  "\<forall>i \<in> set [0..<12]. month_number (store_word (month_names ! i) old) = Some (int i)"
  by (simp add: upt_rec month_names_def store_word_def month_number_def)

lemma not_digits: "\<not> is_digit CHR '' ''" "\<not> is_digit CHR '':''"
  by (simp_all add: is_digit_def in_range_def c_char_def)

lemma scan_date_text:
  assumes day: "0 \<le> tm_mday tm" "tm_mday tm < 100" and mon: "0 \<le> tm_mon tm" "tm_mon tm < 12"
    and wday: "0 \<le> tm_wday tm" "tm_wday tm < 7"
    and time: "0 \<le> tm_hour tm" "tm_hour tm < 100" "0 \<le> tm_min tm" "tm_min tm < 100"
      "0 \<le> tm_sec tm" "tm_sec tm < 100"
    and year: "0 \<le> tm_year tm + 1900" "tm_year tm + 1900 \<le> int_max"
  shows "c_scan date_format (date_text tm) =
    [Word (weekday_names ! nat (tm_wday tm)), Number (tm_mday tm), Word (month_names ! nat (tm_mon tm)),
     Number (tm_year tm + 1900), Number (tm_hour tm), Number (tm_min tm), Number (tm_sec tm), Word ''GMT'']"
proof -
  define wd where "wd = weekday_names ! nat (tm_wday tm)"
  define mn where "mn = month_names ! nat (tm_mon tm)"
  have "wd \<in> set weekday_names" using wday unfolding wd_def by (intro nth_mem) (simp add: weekday_names_def)
  then have w: "length wd = 3" "wd \<noteq> []" "\<And>c. c \<in> set wd \<Longrightarrow> \<not> c_isspace c"
    using bspec [OF names_words, of wd] by simp_all
  have "mn \<in> set month_names" using mon unfolding mn_def by (intro nth_mem) (simp add: month_names_def)
  then have m: "length mn = 3" "mn \<noteq> []" "\<And>c. c \<in> set mn \<Longrightarrow> \<not> c_isspace c"
    using bspec [OF names_words, of mn] by simp_all
  then have m0: "\<not> c_isspace (hd mn)" by simp
  have g: "\<And>c. c \<in> set ''GMT'' \<Longrightarrow> \<not> c_isspace c" using bspec [OF names_words, of "''GMT''"] by auto
  have y: "print_int (tm_year tm + 1900) = print_unsigned (nat (tm_year tm + 1900))"
    "int (nat (tm_year tm + 1900)) \<le> int_max"
    using year by (simp_all add: print_int_def)
  note last = scan_word [of "''GMT''" 3 "[]" "[]"] scan_space [of "''GMT''" "[ScanWord 3]" "[]"]
  show ?thesis
    using w m m0 y year not_digits last g
      print_2d_head [OF day] print_unsigned_head [of "nat (tm_year tm + 1900)"] print_2d_head [OF time(1,2)]
    by (simp add: date_format_def date_text_def scan_word scan_space scan_2d scan_unsigned day time
        del: c_scan.simps(2,3,5) flip: wd_def mn_def)
qed

lemma january_1970:
  assumes "0 \<le> t" "t < 31 * 86400"
  shows "tm_year (gmtime t) = 70 \<and> tm_mon (gmtime t) = 0"
proof -
  have "\<forall>n \<in> set [0..<31]. year_of_day (int n + epoch_day) = (1970, int n) \<and>
      month_of_day (leap_year 1970) (int n) = 0"
    by code_simp
  moreover have "nat (t div 86400) \<in> set [0..<31]" "int (nat (t div 86400)) = t div 86400"
    using assms by (auto simp: nat_less_iff pos_imp_zdiv_nonneg_iff)
  ultimately have "year_of_day (t div 86400 + epoch_day) = (1970, t div 86400)"
      "month_of_day (leap_year 1970) (t div 86400) = 0"
    by metis+
  then show ?thesis by (simp add: gmtime_def Let_def)
qed

lemma january_seconds:
  assumes "0 \<le> t" "t < 31 * 86400"
  shows "month_seconds (gmtime t) = t + 86400"
proof -
  have "days_before_year 1970 = epoch_day" "days_before_month (leap_year 1970) 0 = 0"
    by code_simp+
  then have "month_seconds (gmtime t) = utc_seconds (gmtime t) + 86400"
    using january_1970 [OF assms]
    by (simp add: month_seconds_def utc_seconds_def Let_def left_diff_distrib)
  then show ?thesis by simp
qed

lemma gmt_offset_local:
  "- 86400 \<le> z_offset z 172800 \<Longrightarrow> z_offset z 172800 \<le> 86400 \<Longrightarrow> gmt_offset z = - z_offset z 172800"
  by (simp add: gmt_offset_def localtime_def january_seconds)

lemma date_text_length:
  assumes "0 \<le> tm_mon tm" "tm_mon tm < 12" "0 \<le> tm_wday tm" "tm_wday tm < 7"
    and "0 \<le> tm_year tm + 1900" "tm_year tm + 1900 \<le> 9999"
  shows "length (date_text tm) \<le> 29"
proof -
  have "weekday_names ! nat (tm_wday tm) \<in> set weekday_names" "month_names ! nat (tm_mon tm) \<in> set month_names"
    using assms by (intro nth_mem; simp add: weekday_names_def month_names_def)+
  then have "length (weekday_names ! nat (tm_wday tm)) = 3" "length (month_names ! nat (tm_mon tm)) = 3"
    using bspec [OF names_words, of "weekday_names ! nat (tm_wday tm)"]
      bspec [OF names_words, of "month_names ! nat (tm_mon tm)"] by simp_all
  moreover have "length (print_int (tm_year tm + 1900)) \<le> 4"
    using length_print_unsigned [of "nat (tm_year tm + 1900)" 3] assms(5,6)
    by (simp add: print_int_def nat_less_iff)
  ultimately show ?thesis by (simp add: date_text_def print_2d_def)
qed

text \<open>
  C30: A date that is printed is read back as the time it was printed from, in any zone that keeps
  one offset. In other zones the parser is off: it corrects by the offset of the third of January
  1970, whatever the zone's standard time is at the date.
\<close>

theorem date_roundtrip:
  assumes year: "0 \<le> tm_year (gmtime t) + 1900" "tm_year (gmtime t) + 1900 \<le> 9999" and "30 \<le> nbuf"
    and zone: "- 86400 \<le> z_offset z 172800" "z_offset z 172800 \<le> 86400"
  defines "date \<equiv> butil_time_to_rfc2616_date t nbuf"
  shows "butil_rfc2616_date_to_time z stack (Some date) = z_standard z t + z_offset z 172800 \<and>
    (\<forall>off. z = fixed_zone off \<longrightarrow> butil_rfc2616_date_to_time z stack (Some date) = t)"
proof -
  let ?tm = "gmtime t"
  note r = gmtime_ranges [of t]
  have date: "date = date_text ?tm"
    using date_text_length [of ?tm] r year assms(3) unfolding date_def
    by (auto simp: butil_time_to_rfc2616_date_def Let_def int_max_def)
  have scan: "c_scan date_format (date_text ?tm) =
      [Word (weekday_names ! nat (tm_wday ?tm)), Number (tm_mday ?tm), Word (month_names ! nat (tm_mon ?tm)),
       Number (tm_year ?tm + 1900), Number (tm_hour ?tm), Number (tm_min ?tm), Number (tm_sec ?tm), Word ''GMT'']"
    using r year by (intro scan_date_text) (simp_all add: int_max_def)
  have month: "month_number (store_word (month_names ! nat (tm_mon ?tm)) old) = Some (tm_mon ?tm)" for old
    using bspec [OF month_of_name, of "nat (tm_mon ?tm)" old] r(5) by (simp add: nat_less_iff)
  have "utc_seconds \<lparr>tm_sec = tm_sec ?tm, tm_min = tm_min ?tm, tm_hour = tm_hour ?tm, tm_mday = tm_mday ?tm,
      tm_mon = tm_mon ?tm, tm_year = tm_year ?tm, tm_wday = 0\<rparr> = utc_seconds ?tm"
    by (simp add: utc_seconds_def)
  moreover have "date_text ?tm \<noteq> []" by (simp add: date_text_def)
  ultimately have "butil_rfc2616_date_to_time z stack (Some date) = z_standard z t - gmt_offset z"
    using r month
    by (simp add: date butil_rfc2616_date_to_time_def scan store_fields_def scanned_int_def scanned_word_def
        fields_to_time_def mktime_def)
  then show ?thesis
    using gmt_offset_local [OF zone] by (auto simp: fixed_zone_def)
qed

theorem date_roundtrip_witness:
  "(\<forall>stack. butil_rfc2616_date_to_time (fixed_zone 3600) stack
      (Some (butil_time_to_rfc2616_date 784887151 30)) = 784887151) \<and>
   butil_time_to_rfc2616_date 784887151 30 = ''Tue, 15 Nov 1994 08:12:31 GMT''"
proof -
  have "tm_year (gmtime 784887151) = 94" "butil_time_to_rfc2616_date 784887151 30 = ''Tue, 15 Nov 1994 08:12:31 GMT''"
    by code_simp+
  then show ?thesis
    using date_roundtrip [of 784887151 30 "fixed_zone 3600"] by (simp add: fixed_zone_def)
qed

section \<open>Text that is not a date\<close>

lemma scan_no_comma:
  assumes "CHR '','' \<notin> set text" "\<exists>c \<in> set text. \<not> c_isspace c"
  shows "\<exists>w. c_scan date_format text = [Word w]"
proof -
  define s where "s = dropWhile c_isspace text"
  define w where "w = takeWhile (\<lambda>c. \<not> c_isspace c) (take 3 s)"
  have "s \<noteq> []" using assms(2) by (auto simp: s_def dropWhile_eq_Nil_conv)
  then have "\<not> c_isspace (hd s)" unfolding s_def by (rule hd_dropWhile)
  then have "w \<noteq> []" using \<open>s \<noteq> []\<close> by (cases s) (simp_all add: w_def)
  moreover have "CHR '','' \<notin> set (drop (length w) s)"
    using assms(1) unfolding s_def by (metis in_set_dropD set_dropWhileD)
  then have "drop (length w) s = [] \<or> hd (drop (length w) s) \<noteq> CHR '',''"
    by (metis hd_in_set)
  ultimately show ?thesis
    by (auto simp: date_format_def Let_def simp flip: s_def w_def)
qed

lemma store_fields_word: "store_fields [Word w] f = f"
  by (cases f) (simp add: store_fields_def scanned_int_def scanned_word_def)

text \<open>
  Only a blank text is refused for its form: the number of fields found is not checked, so the
  time of a text without a comma has nothing to do with the text. It is made of whatever the stack
  holds.
\<close>

theorem date_text_ignored:
  assumes "CHR '','' \<notin> set text" "\<exists>c \<in> set text. \<not> c_isspace c"
  shows "butil_rfc2616_date_to_time z stack (Some text) = fields_to_time z stack"
proof -
  have "text \<noteq> []" using assms(2) by auto
  with scan_no_comma [OF assms] store_fields_word show ?thesis
    by (auto simp: butil_rfc2616_date_to_time_def)
qed

theorem date_text_ignored_witness:
  "butil_rfc2616_date_to_time (fixed_zone 0)
     \<lparr>df_day = 1, df_month = ''jan abcd'', df_year = 2000, df_hh = 0, df_mm = 0, df_ss = 7\<rparr>
     (Some ''not a date'') = 946684807"
proof -
  have "\<exists>c \<in> set ''not a date''. \<not> c_isspace c"
    by (simp add: c_isspace_def in_range_def c_char_def)
  moreover have "fields_to_time (fixed_zone 0)
     \<lparr>df_day = 1, df_month = ''jan abcd'', df_year = 2000, df_hh = 0, df_mm = 0, df_ss = 7\<rparr> = 946684807"
    by code_simp
  ultimately show ?thesis using date_text_ignored [of "''not a date''"] by simp
qed

text \<open>The date that stands for a failure is a Thursday.\<close>

lemma bad_date_weekday:
  "butil_rfc2616_date_to_time (fixed_zone 0) stack (Some bad_date) = 1420070400"
  "weekday_names ! nat (tm_wday (gmtime 1420070400)) = ''Thu''"
proof -
  have "c_scan date_format bad_date = [Word ''Mon'', Number 1, Word ''Jan'', Number 2015, Number 0, Number 0,
      Number 0, Word ''GMT'']"
    by code_simp
  moreover have "month_number (store_word ''Jan'' old) = Some 0" for old
    using bspec [OF month_of_name [of old], of 0] by (simp add: month_names_def)
  moreover have "gmt_offset (fixed_zone 0) = 0" by code_simp
  moreover have "utc_seconds \<lparr>tm_sec = 0, tm_min = 0, tm_hour = 0, tm_mday = 1, tm_mon = 0, tm_year = 115, tm_wday = 0\<rparr>
      = 1420070400"
    by code_simp
  ultimately show "butil_rfc2616_date_to_time (fixed_zone 0) stack (Some bad_date) = 1420070400"
    by (simp add: butil_rfc2616_date_to_time_def bad_date_def store_fields_def scanned_int_def scanned_word_def
        fields_to_time_def mktime_def fixed_zone_def)
qed code_simp

end
