(* ===== verification/Host.thy ===== *)
theory Host
  imports Clib
begin

text \<open>
  The addresses of \<open>butil.c\<close>: \<open>butil_str_for_ipv4\<close>, \<open>butil_str_for_ipv6\<close> and, in its
  branch for Linux and macOS, \<open>butil_get_host_info\<close>. The host's name and interfaces, as
  \<open>gethostname\<close>, \<open>getifaddrs\<close> and \<open>if_nametoindex\<close> report them, are its parameters.
\<close>

section \<open>Addresses as text\<close>

text \<open>An IPv4 address is kept in network order and read as a little-endian number.\<close>

definition ipv4_bytes :: "u32 \<Rightarrow> u32 list" where
  "ipv4_bytes addr = [addr AND 0xFF, drop_bit 8 addr AND 0xFF, drop_bit 16 addr AND 0xFF, drop_bit 24 addr AND 0xFF]"

fun join_with :: "char \<Rightarrow> string list \<Rightarrow> string" where
  "join_with sep [] = []"
| "join_with sep [s] = s"
| "join_with sep (s # t # ss) = s @ sep # join_with sep (t # ss)"

definition butil_str_for_ipv4 :: "u32 \<Rightarrow> nat \<Rightarrow> string option" where
  "butil_str_for_ipv4 ipv4addr nipbuf =
     c_snprintf nipbuf (join_with CHR ''.'' (map (\<lambda>b. print_int (uint b)) (ipv4_bytes ipv4addr)))"

text \<open>\<open>htons\<close> of a little-endian machine exchanges the bytes.\<close>

definition htons :: "u16 \<Rightarrow> u16" where
  "htons w = push_bit 8 w OR drop_bit 8 w"

definition butil_str_for_ipv6 :: "u16 list \<Rightarrow> nat \<Rightarrow> string option" where
  "butil_str_for_ipv6 ipv6addr nipbuf =
     c_snprintf nipbuf (join_with CHR '':'' (map (\<lambda>i. print_04x (htons (ipv6addr ! i))) [0..<8]))"

section \<open>The host's addresses\<close>

datatype sockaddr = Inet u32 | Inet6 "u16 list" | OtherFamily

record ifaddr =
  ifa_name :: string
  ifa_flags :: u32
  ifa_addr :: "sockaddr option"

definition IFF_UP :: u32 where "IFF_UP = 0x1"

definition IFF_LOOPBACK :: u32 where "IFF_LOOPBACK = 0x8"

text \<open>What was found so far: an address of each family and the interface index.\<close>

type_synonym found = "u32 option \<times> u16 list option \<times> int"

definition host_turn :: "(string \<Rightarrow> int) \<Rightarrow> ifaddr \<Rightarrow> found \<Rightarrow> found" where
  "host_turn if_nametoindex a s =
     (case s of (v4, v6, index) \<Rightarrow>
        case ifa_addr a of
          None \<Rightarrow> s
        | Some sa \<Rightarrow>
            if ifa_flags a AND IFF_UP \<noteq> 0 \<and> ifa_flags a AND IFF_LOOPBACK = 0
            then (case sa of
                    Inet x \<Rightarrow> (if v4 = None then (Some x, v6, index) else s)
                  | Inet6 x \<Rightarrow> (if v6 = None then (v4, Some x, if_nametoindex (ifa_name a)) else s)
                  | OtherFamily \<Rightarrow> s)
            else s)"

fun host_loop :: "(string \<Rightarrow> int) \<Rightarrow> ifaddr list \<Rightarrow> found \<Rightarrow> found" where
  "host_loop if_nametoindex [] s = s"
| "host_loop if_nametoindex (a # as) (v4, v6, index) =
     (if v4 \<noteq> None \<and> v6 \<noteq> None then (v4, v6, index)
      else host_loop if_nametoindex as (host_turn if_nametoindex a (v4, v6, index)))"

text \<open>What the caller's variables hold afterwards; \<open>None\<close> where nothing was stored.\<close>

record host_info =
  hi_result :: int
  hi_host :: "string option"
  hi_ipv4 :: "u32 option"
  hi_ipv6 :: "u16 list option"
  hi_index :: int

text \<open>
  \<open>hostname\<close> is \<open>None\<close> when \<open>gethostname\<close> fails. When \<open>getifaddrs\<close> fails
  (\<open>addrs = None\<close>) its result pointer stays uninitialised and is used all the same.
\<close>

definition butil_get_host_info ::
    "string option \<Rightarrow> ifaddr list option \<Rightarrow> (string \<Rightarrow> int) \<Rightarrow> host_info outcome" where
  "butil_get_host_info hostname addrs if_nametoindex =
     (case hostname of
        None \<Rightarrow> Returns \<lparr>hi_result = -1, hi_host = None, hi_ipv4 = None, hi_ipv6 = None, hi_index = 0\<rparr>
      | Some myhost \<Rightarrow>
          (case addrs of
             None \<Rightarrow> Faults
           | Some as \<Rightarrow>
               let (v4, v6, index) = host_loop if_nametoindex as (None, None, 0)
               in Returns \<lparr>hi_result = (if v4 = None \<and> v6 = None then -1 else 0), hi_host = Some myhost,
                    hi_ipv4 = Some (case v4 of None \<Rightarrow> 0 | Some x \<Rightarrow> x),
                    hi_ipv6 = Some (case v6 of None \<Rightarrow> replicate 8 0 | Some x \<Rightarrow> x), hi_index = index\<rparr>))"

section \<open>The search\<close>

text \<open>
  The reference: among the addresses of the interfaces that are up and not the loopback, the first
  of each family.
\<close>

definition usable :: "ifaddr \<Rightarrow> bool" where
  "usable a \<longleftrightarrow> ifa_flags a AND IFF_UP \<noteq> 0 \<and> ifa_flags a AND IFF_LOOPBACK = 0"

fun inet_of :: "ifaddr \<Rightarrow> u32 option" where
  "inet_of a = (case ifa_addr a of Some (Inet x) \<Rightarrow> if usable a then Some x else None | _ \<Rightarrow> None)"

fun inet6_of :: "ifaddr \<Rightarrow> (u16 list \<times> string) option" where
  "inet6_of a = (case ifa_addr a of Some (Inet6 x) \<Rightarrow> if usable a then Some (x, ifa_name a) else None | _ \<Rightarrow> None)"

fun first_of :: "('a \<Rightarrow> 'b option) \<Rightarrow> 'a list \<Rightarrow> 'b option" where
  "first_of f [] = None"
| "first_of f (x # xs) = (case f x of Some y \<Rightarrow> Some y | None \<Rightarrow> first_of f xs)"

lemma host_turn_found:
  "host_turn ix a (v4, v6, i) =
     (case v4 of Some x \<Rightarrow> Some x | None \<Rightarrow> inet_of a,
      case v6 of Some x \<Rightarrow> Some x | None \<Rightarrow> map_option fst (inet6_of a),
      case v6 of Some x \<Rightarrow> i | None \<Rightarrow> (case inet6_of a of None \<Rightarrow> i | Some (x, name) \<Rightarrow> ix name))"
  by (auto simp: host_turn_def usable_def split: option.splits sockaddr.splits)

lemma host_loop_found:
  "host_loop ix as (v4, v6, i) =
     (case v4 of Some x \<Rightarrow> Some x | None \<Rightarrow> first_of inet_of as,
      case v6 of Some x \<Rightarrow> Some x | None \<Rightarrow> map_option fst (first_of inet6_of as),
      case v6 of Some x \<Rightarrow> i | None \<Rightarrow> (case first_of inet6_of as of None \<Rightarrow> i | Some (x, name) \<Rightarrow> ix name))"
proof (induction as arbitrary: v4 v6 i)
  case (Cons a as)
  show ?case
    by (simp add: host_turn_found Cons.IH del: inet_of.simps inet6_of.simps split: option.splits)
qed (simp split: option.splits)

text \<open>
  C38: The single pass over the interfaces, which stops as soon as it has both addresses, finds what
  two independent searches find: the first usable IPv4 address, the first usable IPv6 address, and
  the index of the interface of the latter only. It fails exactly when there is neither.
\<close>

theorem host_info_searches:
  "butil_get_host_info (Some name) (Some as) if_nametoindex = Returns
     \<lparr>hi_result = (if first_of inet_of as = None \<and> first_of inet6_of as = None then -1 else 0),
      hi_host = Some name,
      hi_ipv4 = Some (case first_of inet_of as of None \<Rightarrow> 0 | Some x \<Rightarrow> x),
      hi_ipv6 = Some (case first_of inet6_of as of None \<Rightarrow> replicate 8 0 | Some (x, n) \<Rightarrow> x),
      hi_index = (case first_of inet6_of as of None \<Rightarrow> 0 | Some (x, n) \<Rightarrow> if_nametoindex n)\<rparr>"
  by (simp add: butil_get_host_info_def host_loop_found del: inet_of.simps inet6_of.simps split: option.splits)

section \<open>The text determines the address\<close>

definition ipv4_format :: "directive list" where
  "ipv4_format = [ScanInt, ScanChar CHR ''.'', ScanInt, ScanChar CHR ''.'', ScanInt, ScanChar CHR ''.'', ScanInt]"

lemma byte_range: "uint (w AND 0xFF :: u32) < 256"
  using word_and_le1 [of w "0xFF"] by (simp add: word_le_def)

lemma uint_byte: "uint (drop_bit k w AND 0xFF :: u32) = uint w div 2 ^ k mod 256"
proof -
  have "drop_bit k w AND 0xFF = take_bit 8 (drop_bit k w)" by (simp add: take_bit_eq_mask mask_eq_exp_minus_1)
  then have "uint (drop_bit k w AND 0xFF) = drop_bit k (take_bit 32 (uint w)) mod 256"
    by (simp only: unsigned_take_bit_eq unsigned_drop_bit_eq) (simp add: take_bit_eq_mod)
  moreover have "take_bit 32 (uint w) = uint w"
    using uint_lt2p [of w] by (simp add: take_bit_int_eq_self)
  ultimately show ?thesis by (simp add: drop_bit_eq_div)
qed

lemma print_byte:
  assumes "v < (256 :: int)" "0 \<le> v"
  shows "length (print_int v) \<le> 3" "rest = [] \<or> \<not> is_digit (hd rest) \<Longrightarrow>
    c_scan (ScanInt # ds) (print_int v @ rest) = Number v # c_scan ds rest"
proof -
  show "length (print_int v) \<le> 3"
    using length_print_unsigned [of "nat v" 2] assms by (simp add: print_int_def nat_less_iff)
  show "rest = [] \<or> \<not> is_digit (hd rest) \<Longrightarrow>
    c_scan (ScanInt # ds) (print_int v @ rest) = Number v # c_scan ds rest"
    using scan_unsigned [of "nat v" rest ds] assms by (simp add: print_int_def int_max_def del: c_scan.simps)
qed

text \<open>
  An IPv4 address is printed whole into any block of 16 bytes, and scanning the text gives the
  four bytes of the address back, first the one that comes first in the network.
\<close>

theorem ipv4_text_scanned:
  assumes "16 \<le> n"
  shows "\<exists>text. butil_str_for_ipv4 a n = Some text \<and> length text \<le> 15 \<and>
    c_scan ipv4_format text = map (\<lambda>i. Number (uint a div 256 ^ i mod 256)) [0..<4]"
proof -
  have dot: "\<not> is_digit CHR ''.''" by (simp add: is_digit_def in_range_def c_char_def)
  define b where "b i = uint (drop_bit i a AND 0xFF)" for i
  have b: "b i < 256" "0 \<le> b i" for i by (simp_all add: b_def byte_range)
  have bytes: "map uint (ipv4_bytes a) = [b 0, b 8, b 16, b 24]"
    by (simp add: ipv4_bytes_def b_def)
  let ?text = "print_int (b 0) @ CHR ''.'' # print_int (b 8) @ CHR ''.'' # print_int (b 16) @ CHR ''.'' # print_int (b 24)"
  have whole: "join_with CHR ''.'' (map (\<lambda>b. print_int (uint b)) (ipv4_bytes a)) = ?text"
    using bytes by (simp add: ipv4_bytes_def)
  have len: "length ?text \<le> 15"
    using print_byte(1) [OF b, of 0] print_byte(1) [OF b, of 8] print_byte(1) [OF b, of 16] print_byte(1) [OF b, of 24]
    by simp
  have "c_scan ipv4_format ?text = [Number (b 0), Number (b 8), Number (b 16), Number (b 24)]"
    using print_byte(2) [OF b, of "[]" "[]" 24] dot
    by (simp add: ipv4_format_def print_byte(2) [OF b] del: c_scan.simps(3))
  moreover have "map (\<lambda>i. Number (uint a div 256 ^ i mod 256)) [0..<4] =
      [Number (b 0), Number (b 8), Number (b 16), Number (b 24)]"
    using uint_byte [of 0 a] by (simp add: upt_rec b_def uint_byte [of "Suc n" for n] uint_byte [of "numeral n" for n])
  moreover have "butil_str_for_ipv4 a n = Some ?text"
    using assms len unfolding butil_str_for_ipv4_def whole by (simp add: c_snprintf_def)
  ultimately show ?thesis using len by metis
qed

theorem ipv4_text_scanned_witness:
  "\<exists>text. butil_str_for_ipv4 0x0101A8C0 16 = Some text \<and> length text \<le> 15 \<and>
     c_scan ipv4_format text = [Number 192, Number 168, Number 1, Number 1]"
  using ipv4_text_scanned [of 16 "0x0101A8C0"] by (simp add: upt_rec)

lemma hex_char_inj: "a < 16 \<Longrightarrow> b < 16 \<Longrightarrow> hex_char a = hex_char b \<Longrightarrow> a = b"
proof -
  have "\<forall>a \<in> set [0..<16]. \<forall>b \<in> set [0..<16]. hex_char a = hex_char b \<longrightarrow> a = b"
    by code_simp
  then show "a < 16 \<Longrightarrow> b < 16 \<Longrightarrow> hex_char a = hex_char b \<Longrightarrow> a = b" by auto
qed

lemma nibble_less: "unat (w AND 0xF :: u16) < 16"
  using word_and_le1 [of w "0xF"] by (simp add: word_le_nat_alt)

lemma hex_nibble:
  "hex_char (unat (x AND 0xF :: u16)) = hex_char (unat (y AND 0xF)) \<Longrightarrow> x AND 0xF = y AND 0xF"
  using hex_char_inj [OF nibble_less nibble_less, of x y] by (simp add: word_unat_eq_iff)

lemma print_04x_inj: "print_04x a = print_04x b \<Longrightarrow> a = b"
proof -
  assume "print_04x a = print_04x b"
  then have eq: "drop_bit i a AND 0xF = drop_bit i b AND 0xF" if "i \<in> {0, 4, 8, 12}" for i
    using that by (auto simp: print_04x_def dest: hex_nibble)
  have "bit a n = bit b n" if "n < 16" for n
  proof -
    define k where "k = n mod 4"
    define i where "i = 4 * (n div 4)"
    have n: "n = i + k" "k < 4" by (simp_all add: i_def k_def)
    have "n div 4 < 4" using that by simp
    then have "n div 4 \<in> {0, 1, 2, 3}" by auto
    then have "i \<in> {0, 4, 8, 12}" by (auto simp: i_def)
    then have "bit (drop_bit i a AND 0xF) k = bit (drop_bit i b AND 0xF) k" using eq by metis
    moreover have "bit (0xF :: u16) k"
    proof -
      have "k \<in> {0, 1, 2, 3}" using n(2) by auto
      then show ?thesis by auto
    qed
    ultimately show ?thesis by (simp add: bit_simps n(1))
  qed
  then show "a = b" by (intro bit_word_eqI) simp
qed

lemma htons_htons [simp]: "htons (htons w) = w"
  by (rule bit_word_eqI) (auto simp: htons_def bit_simps)

lemma join_with_inj:
  "length ss = length ts \<Longrightarrow> \<forall>s \<in> set ss. length s = k \<Longrightarrow> \<forall>t \<in> set ts. length t = k \<Longrightarrow>
   join_with sep ss = join_with sep ts \<Longrightarrow> ss = ts"
proof (induction sep ss arbitrary: ts rule: join_with.induct)
  case (2 sep s)
  then show ?case by (cases ts; cases "tl ts") auto
next
  case (3 sep s t ss)
  then obtain s' t' ts' where ts: "ts = s' # t' # ts'" by (cases ts; cases "tl ts") auto
  with "3.prems" have "s = s'" "join_with sep (t # ss) = join_with sep (t' # ts')" by auto
  with "3.IH" [of "t' # ts'"] "3.prems" ts show ?case by simp
qed simp

lemma length_join_with:
  "\<forall>s \<in> set ss. length s = k \<Longrightarrow> ss \<noteq> [] \<Longrightarrow> length (join_with sep ss) + 1 = length ss * (k + 1)"
  by (induction sep ss rule: join_with.induct) auto

text \<open>
  An IPv6 address is printed as 39 characters into any block of 40 bytes, and different
  addresses have different texts.
\<close>

theorem ipv6_text_unique:
  assumes "40 \<le> n" "length a = 8" "length b = 8"
  shows "(\<exists>text. butil_str_for_ipv6 a n = Some text \<and> length text = 39) \<and>
    (butil_str_for_ipv6 a n = butil_str_for_ipv6 b n \<longleftrightarrow> a = b)"
proof -
  let ?words = "\<lambda>a. map (\<lambda>i. print_04x (htons (a ! i))) [0..<8]"
  have w: "\<forall>s \<in> set (?words a). length s = 4" for a by (simp add: print_04x_def)
  have len: "length (join_with CHR '':'' (?words a)) = 39" for a
    using length_join_with [OF w, of a "CHR '':''"] by simp
  then have str: "butil_str_for_ipv6 a n = Some (join_with CHR '':'' (?words a))" for a
    using assms(1) by (simp add: butil_str_for_ipv6_def c_snprintf_def)
  have "a = b" if "join_with CHR '':'' (?words a) = join_with CHR '':'' (?words b)"
  proof -
    have "?words a = ?words b" by (rule join_with_inj [OF _ w w that]) simp
    then have "htons (a ! i) = htons (b ! i)" if "i < 8" for i
      using that by (intro print_04x_inj) simp
    then have "a ! i = b ! i" if "i < 8" for i using that htons_htons by metis
    with assms(2,3) show ?thesis by (simp add: list_eq_iff_nth_eq)
  qed
  with len str show ?thesis by auto
qed

theorem ipv6_text_unique_witness:
  "butil_str_for_ipv6 [0x80FE, 0, 0, 0, 0, 0, 0, 0x0100] 40 = Some ''fe80:0000:0000:0000:0000:0000:0000:0001'' \<and>
   butil_str_for_ipv6 [0x80FE, 0, 0, 0, 0, 0, 0, 0x0100] 40 \<noteq> butil_str_for_ipv6 [0, 0, 0, 0, 0, 0, 0, 0] 40"
proof -
  have "butil_str_for_ipv6 [0x80FE, 0, 0, 0, 0, 0, 0, 0x0100] 40 = Some ''fe80:0000:0000:0000:0000:0000:0000:0001''"
    by code_simp
  then show ?thesis
    using ipv6_text_unique [of 40 "[0x80FE, 0, 0, 0, 0, 0, 0, 0x0100]" "[0, 0, 0, 0, 0, 0, 0, 0]"]
    by simp
qed

end
