(* ===== verification/Uuid.thy ===== *)
theory Uuid
  imports Clib Interfaces
begin

text \<open>
  The UUID macros of \<open>butil.h\<close>. A UUID is a block of 16 bytes; the macros reach the C library
  with its address, so a shorter block is an access outside it.
\<close>

section \<open>The macros\<close>

definition UUID_LENGTH :: int where
  "UUID_LENGTH = 16"

type_synonym buuid_t = "u8 list"

definition uuid_clear :: "buuid_t \<Rightarrow> buuid_t option" where
  "uuid_clear a = mem_write a 0 (replicate (nat UUID_LENGTH) 0)"

text \<open>The sign of \<open>memcmp\<close>, all that the C standard says of its result.\<close>

fun c_memcmp :: "u8 list \<Rightarrow> u8 list \<Rightarrow> int" where
  "c_memcmp (x # xs) (y # ys) = (if x < y then -1 else if y < x then 1 else c_memcmp xs ys)"
| "c_memcmp xs ys = 0"

definition uuid_compare :: "buuid_t \<Rightarrow> buuid_t \<Rightarrow> int option" where
  "uuid_compare a b = do { x \<leftarrow> mem_read a 0 UUID_LENGTH; y \<leftarrow> mem_read b 0 UUID_LENGTH; Some (c_memcmp x y) }"

definition uuid_copy :: "buuid_t \<Rightarrow> buuid_t \<Rightarrow> buuid_t option" where
  "uuid_copy dst src = do { bs \<leftarrow> mem_read src 0 UUID_LENGTH; mem_write dst 0 bs }"

text \<open>The conversion \<open>%02x\<close> of a byte.\<close>

definition print_02x :: "u8 \<Rightarrow> string" where
  "print_02x b = [hex_char (unat (drop_bit 4 b)), hex_char (unat (b AND 0xF))]"

definition uuid_text :: "buuid_t \<Rightarrow> string" where
  "uuid_text a = concat (map (\<lambda>i. print_02x (a ! i) @ (if i \<in> {3, 5, 7, 9} then ''-'' else '''')) [0..<16])"

text \<open>The result of \<open>snprintf\<close>, and what it leaves in the block of \<open>ndst\<close> bytes.\<close>

definition uuid_format :: "buuid_t \<Rightarrow> nat \<Rightarrow> (int \<times> string option) option" where
  "uuid_format a ndst =
     (if int (length a) < UUID_LENGTH then None
      else Some (int (length (uuid_text a)), c_snprintf ndst (uuid_text a)))"

section \<open>Reading the text\<close>

text \<open>A byte is read from two hexadecimal digits.\<close>

definition scan_02x :: "string \<Rightarrow> (u8 \<times> string) option" where
  "scan_02x s =
     (case s of
        c # d # rest \<Rightarrow>
          do { h \<leftarrow> digit_value c; l \<leftarrow> digit_value d;
               if h < 16 \<and> l < 16 then Some (of_nat (16 * h + l), rest) else None }
      | _ \<Rightarrow> None)"

definition uuid_scan :: "string \<Rightarrow> (buuid_t \<times> string) option" where
  "uuid_scan text = decode_times 16 scan_02x (filter (\<lambda>c. c \<noteq> CHR ''-'') text)"

lemma c_char_of: "n < 128 \<Longrightarrow> c_char (char_of n) = int n" for n :: nat
proof -
  assume n: "n < 128"
  have "(of_char c :: int) = int (of_char c)" for c by (simp add: of_nat_of_char)
  with n show "c_char (char_of n) = int n" by (simp add: c_char_def Let_def)
qed

lemma hex_char_props:
  assumes "d < 16"
  shows "digit_value (hex_char d) = Some d" "hex_char d \<noteq> CHR ''-''"
proof -
  have bounds: "c_char CHR ''0'' = 48" "c_char CHR ''9'' = 57" "c_char CHR ''a'' = 97" "c_char CHR ''z'' = 122"
      "c_char CHR ''-'' = 45"
    by code_simp+
  have h: "c_char (hex_char d) = (if d < 10 then 48 + int d else 87 + int d)"
    using assms by (simp add: hex_char_def digit_char_def c_char_of)
  show "digit_value (hex_char d) = Some d"
    using assms by (auto simp: digit_value_def in_range_def h bounds)
  show "hex_char d \<noteq> CHR ''-''" using h bounds(5) by (auto split: if_splits)
qed

lemma nibbles:
  "unat (drop_bit 4 (b :: u8)) < 16" "unat (b AND 0xF) < 16"
  "16 * unat (drop_bit 4 b) + unat (b AND 0xF) = unat b"
proof -
  have hi: "unat (drop_bit 4 b) = unat b div 16" by (simp add: drop_bit_eq_div unat_div)
  have "b AND 0xF = take_bit 4 b" by (simp add: take_bit_eq_mask mask_eq_exp_minus_1)
  then have lo: "unat (b AND 0xF) = unat b mod 16" by (simp add: take_bit_eq_mod unat_mod)
  have "unat b < 256" using unsigned_less [of b] by simp
  then show "unat (drop_bit 4 b) < 16" using hi by linarith
  show "unat (b AND 0xF) < 16" "16 * unat (drop_bit 4 b) + unat (b AND 0xF) = unat b"
    using hi lo by simp_all
qed

interpretation hex_bytes: stream_codec "\<lambda>b. True" print_02x scan_02x
proof unfold_locales
  fix b :: u8 and rest :: string
  have "of_nat (16 * unat (drop_bit 4 b) + unat (b AND 0xF)) = b" by (simp only: nibbles(3) of_nat_unat ucast_id)
  then show "scan_02x (print_02x b @ rest) = Some (b, rest)"
    by (simp add: scan_02x_def print_02x_def hex_char_props nibbles(1,2) del: of_nat_add of_nat_mult)
qed (simp add: print_02x_def)

lemma print_02x_no_dash: "filter (\<lambda>c. c \<noteq> CHR ''-'') (print_02x b) = print_02x b"
  by (simp add: print_02x_def hex_char_props nibbles(1,2))

lemma uuid_text_digits:
  assumes "length a = 16"
  shows "filter (\<lambda>c. c \<noteq> CHR ''-'') (uuid_text a) = concat (map print_02x a)"
proof -
  have "filter (\<lambda>c. c \<noteq> CHR ''-'') (concat (map (\<lambda>i. print_02x (a ! i) @ (if P i then ''-'' else '''')) is)) =
      concat (map print_02x (map ((!) a) is))" for P "is"
    by (induction "is") (simp_all add: print_02x_no_dash)
  then have "filter (\<lambda>c. c \<noteq> CHR ''-'') (uuid_text a) = concat (map print_02x (map ((!) a) [0..<16]))"
    unfolding uuid_text_def .
  moreover have "map ((!) a) [0..<16] = a" using map_nth [of a] assms by simp
  ultimately show ?thesis by simp
qed

lemma uuid_text_layout:
  "length (uuid_text a) = 36" "map (nth (uuid_text a)) [8, 13, 18, 23] = ''----''"
proof -
  have "[0..<16] = [0, 1, 2, 3, 4, 5, 6, 7, 8, 9, 10, 11, 12, 13, 14, 15 :: nat]" by code_simp
  then have t: "uuid_text a = print_02x (a ! 0) @ print_02x (a ! 1) @ print_02x (a ! 2) @ print_02x (a ! 3) @ ''-'' @
      print_02x (a ! 4) @ print_02x (a ! 5) @ ''-'' @ print_02x (a ! 6) @ print_02x (a ! 7) @ ''-'' @
      print_02x (a ! 8) @ print_02x (a ! 9) @ ''-'' @ print_02x (a ! 10) @ print_02x (a ! 11) @
      print_02x (a ! 12) @ print_02x (a ! 13) @ print_02x (a ! 14) @ print_02x (a ! 15)"
    by (simp add: uuid_text_def)
  obtain p q where pq: "print_02x b = [p b, q b]" for b
    by (rule that [OF print_02x_def])
  show "length (uuid_text a) = 36" "map (nth (uuid_text a)) [8, 13, 18, 23] = ''----''"
    unfolding t pq by simp_all
qed

lemma uuid_scan_text:
  assumes "length a = 16"
  shows "uuid_scan (uuid_text a) = Some (a, [])"
  using hex_bytes.decode_times_concat [of a "[]"] assms
  by (simp add: uuid_scan_def uuid_text_digits list_all_iff)

section \<open>Comparing\<close>

primrec be_number :: "u8 list \<Rightarrow> int" where
  "be_number [] = 0"
| "be_number (x # xs) = uint x * 256 ^ length xs + be_number xs"

lemma be_number_bounds: "0 \<le> be_number xs" "be_number xs < 256 ^ length xs"
proof (induction xs)
  case (Cons x xs)
  have "uint x \<le> 255" using uint_lt2p [of x] by simp
  then have "uint x * 256 ^ length xs \<le> 255 * 256 ^ length xs" by (intro mult_right_mono) auto
  with Cons show "0 \<le> be_number (x # xs)" by simp
  have "be_number (x # xs) < 255 * 256 ^ length xs + 256 ^ length xs"
    unfolding be_number.simps
    by (rule add_le_less_mono [OF \<open>uint x * 256 ^ length xs \<le> 255 * 256 ^ length xs\<close> Cons(2)])
  then show "be_number (x # xs) < 256 ^ length (x # xs)" by simp
qed simp_all

lemma c_memcmp_number: "length xs = length ys \<Longrightarrow> c_memcmp xs ys = sgn (be_number xs - be_number ys)"
proof (induction xs ys rule: list_induct2)
  case (Cons x xs y ys)
  note b = be_number_bounds [of xs] be_number_bounds [of ys]
  have step: "be_number (u # us) < be_number (v # vs)"
    if "u < v" "length us = length vs" for u v :: u8 and us vs
  proof -
    have "uint u + 1 \<le> uint v" using that(1) by (simp add: word_less_def)
    then have "(uint u + 1) * 256 ^ length us \<le> uint v * 256 ^ length us" by (intro mult_right_mono) auto
    then show ?thesis
      using be_number_bounds [of us] be_number_bounds [of vs] that(2) by (simp add: algebra_simps)
  qed
  consider "x < y" | "y < x" | "x = y" by fastforce
  then show ?case
  proof cases
    case 1
    then show ?thesis using step [OF 1 Cons.hyps] by simp
  next
    case 2
    then show ?thesis using step [OF 2 Cons.hyps [symmetric]] by (simp add: not_less_iff_gr_or_eq)
  next
    case 3
    then show ?thesis using Cons by simp
  qed
qed simp

lemma c_memcmp_0_iff: "length xs = length ys \<Longrightarrow> c_memcmp xs ys = 0 \<longleftrightarrow> xs = ys"
  by (induction xs ys rule: list_induct2) auto

text \<open>
  C40: A UUID is known by its text and by its bytes alike: it is printed whole into 37 bytes, with
  dashes after its 4th, 6th, 8th and 10th byte, and its hexadecimal digits give its bytes back; two
  UUIDs compare equal exactly when their texts are equal, and otherwise as the 128-bit numbers
  they are in big-endian order; a copy compares equal, and a cleared UUID is not above any other.
\<close>

theorem uuid_identified:
  assumes "length a = 16" "length b = 16" "37 \<le> n"
  shows "(\<exists>text. uuid_format a n = Some (36, Some text) \<and> length text = 36 \<and> uuid_scan text = Some (a, []) \<and>
      map (nth text) [8, 13, 18, 23] = ''----'') \<and>
    uuid_compare a b = Some (sgn (be_number a - be_number b)) \<and>
    (uuid_compare a b = Some 0 \<longleftrightarrow> uuid_format a n = uuid_format b n) \<and>
    uuid_copy b a = Some a \<and> (\<exists>z. uuid_clear b = Some z \<and> be_number z = 0 \<and> be_number z \<le> be_number a)"
proof (intro conjI)
  have f: "uuid_format x n = Some (36, Some (uuid_text x))" if "length x = 16" for x
    using that assms(3) uuid_text_layout(1) [of x] by (simp add: uuid_format_def UUID_LENGTH_def c_snprintf_def)
  have rd: "mem_read x 0 UUID_LENGTH = Some x" if "length x = 16" for x :: "u8 list"
    using that by (simp add: mem_read_def UUID_LENGTH_def)
  from f [OF assms(1)] uuid_text_layout uuid_scan_text [OF assms(1)]
  show "\<exists>text. uuid_format a n = Some (36, Some text) \<and> length text = 36 \<and> uuid_scan text = Some (a, []) \<and>
      map (nth text) [8, 13, 18, 23] = ''----''" by blast
  show "uuid_compare a b = Some (sgn (be_number a - be_number b))"
    using rd assms(1,2) c_memcmp_number [of a b] by (simp add: uuid_compare_def)
  have "uuid_text a = uuid_text b \<longleftrightarrow> a = b" using uuid_scan_text [OF assms(1)] uuid_scan_text [OF assms(2)] by (metis option.inject prod.inject)
  then show "uuid_compare a b = Some 0 \<longleftrightarrow> uuid_format a n = uuid_format b n"
    using rd f assms(1,2) c_memcmp_0_iff [of a b] by (simp add: uuid_compare_def)
  show "uuid_copy b a = Some a" using rd assms(1,2) by (simp add: uuid_copy_def mem_write_def)
  have "be_number (replicate k 0) = 0" for k by (induction k) simp_all
  then show "\<exists>z. uuid_clear b = Some z \<and> be_number z = 0 \<and> be_number z \<le> be_number a"
    using assms(2) be_number_bounds(1) [of a] by (simp add: uuid_clear_def UUID_LENGTH_def mem_write_def)
qed

theorem uuid_identified_witness:
  "uuid_format (map of_nat [0xA0..<0xB0]) 40 = Some (36, Some ''a0a1a2a3-a4a5-a6a7-a8a9-aaabacadaeaf'') \<and>
   uuid_compare (map of_nat [0xA0..<0xB0]) (0xA0 # replicate 15 0xFF) = Some (-1)"
proof
  let ?a = "map of_nat [0xA0..<0xB0] :: u8 list" and ?b = "0xA0 # replicate 15 0xFF :: u8 list"
  note u = uuid_identified [of ?a ?b 40]
  have "uuid_text ?a = ''a0a1a2a3-a4a5-a6a7-a8a9-aaabacadaeaf''" by code_simp
  then show "uuid_format ?a 40 = Some (36, Some ''a0a1a2a3-a4a5-a6a7-a8a9-aaabacadaeaf'')"
    using u by (auto simp: uuid_format_def UUID_LENGTH_def c_snprintf_def)
  have "sgn (be_number ?a - be_number ?b) = -1" by code_simp
  then show "uuid_compare ?a ?b = Some (-1)" using u by simp
qed

end
