(* ===== verification/Spec2Isabelle.thy ===== *)
theory Spec2Isabelle
  imports Program Hostile Base64 Mime Dates Host Uuid
begin

text \<open>
  The SMB gateway \<open>smbgw\<close>: a process that accepts SMB clients on a local port, connects each
  to one SMB server, and relays the bytes of both directions, looking into every SMB message on the
  way. This root theory composes the components and holds the properties that span them.

  \<^bold>\<open>The program.\<close> \<open>main\<close> (\<open>src/main.cc\<close>) reads the command line, splits the server's
  URL, sets up four connection contexts with \<open>smbgw_proxy_init\<close>, listens, and hands each accepted
  client to \<open>smbgw_proxy_start\<close> (\<open>src/smbgw.c\<close>), which puts it into the first free context and
  starts that context's thread on first use. \<open>smbgw_thread\<close> waits for a client, connects to the
  server and alternates between two half turns: read into the ring of the direction, decode the
  four-byte transport header, wait for the whole message, pass it to \<open>smbproto_packet\<close>
  (\<open>src/smbproto.c\<close>), which walks the SMB1 or SMB2 message and logs it, and write it to the other
  side. Sockets go through \<open>src/gwtcp.c\<close>; rings, URLs, text, dates, MIME types and addresses are
  in \<open>src/butil.c\<close>.

  \<^bold>\<open>Theories and sources.\<close>
  \<^item> \<open>Prelude\<close>: machine integers, C memory as byte lists, outcomes, lemmas on lists.
    \<open>Interfaces\<close>: the locales for encodings (\<open>stream_codec\<close>, \<open>block_codec\<close>) and machines
    (\<open>kept_invariant\<close>, \<open>follows\<close>), interpreted in \<open>Smb_Layout\<close>, \<open>Text\<close>, \<open>Framing\<close> and
    \<open>Pool\<close>.
  \<^item> \<open>Ring\<close>: \<open>ioring_t\<close> of \<open>butil.h\<close> as the record \<open>ioring\<close>, the ring functions of
    \<open>butil.c\<close> and the two places of \<open>smbgw.c\<close> that advance a ring; the locale \<open>byte_fifo\<close> and
    its interpretation state that they implement a byte queue.
  \<^item> \<open>Smb_Constants\<close>, \<open>Smb_Layout\<close>: the constants and packed structures of \<open>smbproto.h\<close>, as
    records that \<open>memcpy\<close> fills (\<open>load\<close>), with the bytes they stand for as a specification of
    well-formed packets (\<open>layout\<close>, not code). \<open>Smbproto\<close>: all of \<open>smbproto.c\<close>; the log calls are its
    output, \<open>Faults\<close> is a read outside the block, \<open>Diverges\<close> the endless ANDX walk.
  \<^item> \<open>Tcp\<close>: \<open>gwtcp.c\<close>. \<open>Gateway\<close>: the \<open>do\<close> loop of \<open>smbgw_thread\<close>; \<open>relay_dir\<close> holds
    the ring, packet state and remaining count of one direction, \<open>relay_half\<close> is a half turn,
    \<open>relay_loop\<close> the loop over the sockets' answers. \<open>Framing\<close>: the same loop as a transformer
    of streams of messages.
  \<^item> \<open>Proxy\<close>: \<open>smb_ctx_t\<close>, \<open>smbgw_proxy_init\<close>, \<open>smbgw_proxy_start\<close>, \<open>osal_sleep\<close>.
    \<open>Pool\<close>: the accept loop and the threads as a step relation, one step per access to shared
    state, but for the scan for a free context and the turn of a relay loop, which are one step each.
    \<open>Cmdline\<close>: \<open>main\<close> up to its configuration. \<open>Gateway_Main\<close>: \<open>main\<close> as a whole.
    \<open>Sessions\<close>: the turns of one thread inside the pool are the relay loop on its own, and the race
    for its mode.
    \<open>Hostile\<close>: what messages from hostile peers do to a thread and to the pool.
    \<open>Program\<close>: \<open>main\<close> as sequential code is a run of the pool.
  \<^item> \<open>Clib\<close>, \<open>Calendar\<close>: what the sources use of the C library (number scanning and printing,
    \<open>gmtime\<close>, \<open>mktime\<close>). \<open>Text\<close>, \<open>Base64\<close>, \<open>Url\<close>, \<open>Mime\<close>, \<open>Dates\<close>, \<open>Host\<close>: the
    functions of \<open>butil.c\<close> of these names. \<open>Uuid\<close>: the macros of \<open>butil.h\<close> on UUIDs.

  \<^bold>\<open>What is shown.\<close> For the relay: bytes are neither lost, changed nor reordered
  (\<open>Gateway\<close>), its state stays in its layout, one direction refines \<open>split_stream\<close>, and on
  messages that are offered whole it is the filter \<open>forward_checked\<close>, which checks each message and
  forwards it (\<open>Framing\<close>), also inside the running gateway (\<open>Sessions\<close>), so that the gateway
  carries SMB1 and SMB2 (here). For the walk: what it accepts and reports, and what decides the
  result of an SMB2 walk; where it leaves the buffer (SMB2 links that lead out of the message,
  header-only ANDX packets) or hangs (an ANDX block that names itself). For the pool: ownership of
  sockets in every interleaving, isolation of connections, the sizes of the rings, contexts that come
  free at the end of a connection and those that a hung thread keeps for good, and its races; and
  that every turn in every reachable state stays inside its buffers unless it completes, and so
  checks, one of the messages \<open>safe_message\<close> excludes (\<open>Hostile\<close>).
  For the helpers: round trips, bounds, and agreement with reference definitions. Several
  properties state what the code does although it cannot be meant; they are the ones that say so.

  \<^bold>\<open>Bounds.\<close> An SMB1 walk reads at most \<open>v1_reach\<close> = 65561 bytes from the start of the message,
  because an ANDX offset has 16 bits; the gateway's rings of 0x20008 bytes are larger, and the
  theorem asks for 65565. The ANDX walk and the argument loop of \<open>main\<close> are
  \<open>partial_function\<close>s whose \<open>None\<close> is not returning, so no fuel is chosen anywhere. The SMB2 walk
  and the write loop end because the bytes that remain get fewer; the relay loop, the accept loop
  and \<open>osal_sleep\<close> run over the answers of the operating system.

  \<^bold>\<open>Parameters.\<close> What \<open>select\<close>, \<open>recv\<close>, \<open>send\<close>, \<open>accept\<close>, \<open>connect\<close> and the other calls
  answer is an argument (\<open>io_event\<close>, \<open>accept_answer\<close>, \<open>listen_answers\<close>), as are the blocks
  \<open>malloc\<close> returns, whether \<open>pthread_create\<close> succeeds, the time zone, the interfaces of the
  host, what name resolution finds, and what the stack holds where the code reads variables before
  it writes them.

  \<^bold>\<open>Not modelled.\<close> The prototypes of the headers and the build files; the branches for Windows and
  for other systems than Linux and macOS; the text of the messages printed, other than the reports
  of the walks; signals, so that a write to a socket the peer has reset is an error here and a
  \<open>SIGPIPE\<close> there. What follows a read outside a buffer: in \<open>Pool\<close> such a turn has no step. The
  steps of \<open>Pool\<close> assume sequentially consistent memory, which the C code does not ensure.
\<close>

section \<open>Messages of well-behaved peers\<close>

text \<open>
  A compound SMB2 message, by its headers and payloads, or an SMB1 message, by its bytes; and what a
  peer keeps to: the headers of a compound say how they follow one another, and an SMB1 message has
  more than its header and names ANDX blocks inside itself only, each behind the one before.
\<close>

datatype smb_message = Smb1 "u8 list" | Smb2 "(smb2_header \<times> u8 list) list"

fun smb_body :: "smb_message \<Rightarrow> u8 list" where
  "smb_body (Smb1 m) = m"
| "smb_body (Smb2 msgs) = smb2_compound msgs"

fun smb_proper :: "ioring \<Rightarrow> smb_message \<Rightarrow> bool" where
  "smb_proper ring (Smb1 m) \<longleftrightarrow>
     take 4 m = smb_magic \<and> 32 < length m \<and> andx_forward m (m ! 4) 33 \<and> v1_reach + 4 \<le> r_size ring"
| "smb_proper ring (Smb2 msgs) \<longleftrightarrow> smb2_linked msgs"

definition smb_frame :: "smb_message \<Rightarrow> u8 list" where
  "smb_frame = transport \<circ> smb_body"

text \<open>The checks of a framed message see its body.\<close>

lemma smb_vetted:
  assumes "\<And>rest. int (length rest) = r_size ring - int (length (smb_body x)) - 4 \<Longrightarrow>
    \<exists>l. smbproto_packet c ord (smb_body x @ rest) (int (length (smb_body x))) = Returns (0, l)"
  shows "vetted ring c ord pass (smb_frame x)"
proof -
  have "drop 4 (smb_frame x) = smb_body x" "length (smb_frame x) = 4 + length (smb_body x)"
    by (simp_all add: smb_frame_def transport_def)
  then show ?thesis
    using assms by (cases pass) (auto simp: vetted_def message_check_def behind_def algebra_simps)
qed

lemma smb1_accepted:
  assumes "smb_proper ring (Smb1 m)" "length m \<le> 0x1FFFFF"
    and "int (length rest) = r_size ring - int (length m) - 4"
  shows "\<exists>l. smbproto_packet c ord (m @ rest) (int (length m)) = Returns (0, l)"
proof -
  have m: "take 4 m = smb_magic" "32 < length m" "andx_forward (m @ rest) (m ! 4) 33"
    using assms(1) by (simp_all add: andx_forward_append)
  obtain bs where "m = smb_magic @ bs" using m(1) by (metis append_take_drop_id)
  then have "mem_byte (m @ rest) 0 = Some 0xFF" by (simp add: mem_byte_def smb_magic_def)
  moreover have "\<exists>l. smbproto_v1_packet c ord (m @ rest) (int (length m)) = Returns (0, l)"
    using m assms by (intro v1_forward_accepted) (simp_all add: int_max_def nth_append)
  moreover have "\<not> int (length m) < 1" using m(2) by linarith
  ultimately show ?thesis by (simp add: smbproto_packet_def)
qed

lemma smb2_accepted:
  assumes "smb2_linked msgs"
  shows "\<exists>l. smbproto_packet c ord (smb2_compound msgs @ rest) (int (length (smb2_compound msgs))) = Returns (0, l)"
proof -
  obtain h p ms where m: "msgs = (h, p) # ms" "protocol_id2 h = smb2_magic"
    using assms by (cases msgs rule: smb2_linked.cases) auto
  then obtain bs where bs: "smb2_compound msgs = smb2_magic @ bs"
    by (simp add: smb2_compound_def layout_smb2_header_def)
  from v2_packet_of_compound [OF assms refl, of c ord rest] bs show ?thesis
    by (simp add: smbproto_packet_def smb2_magic_def mem_byte_def)
qed

lemma smb_accepted:
  assumes "smb_proper ring x" "length (smb_body x) \<le> 0x1FFFFF"
  shows "vetted ring c ord pass (smb_frame x)"
proof (rule smb_vetted)
  fix rest :: "u8 list" assume "int (length rest) = r_size ring - int (length (smb_body x)) - 4"
  with assms show "\<exists>l. smbproto_packet c ord (smb_body x @ rest) (int (length (smb_body x))) = Returns (0, l)"
    using smb1_accepted smb2_accepted by (cases x) auto
qed

definition smb_traffic :: "ioring \<Rightarrow> io_event list \<Rightarrow> smb_message list \<Rightarrow> bool" where
  "smb_traffic ring evs ms \<longleftrightarrow>
     (\<exists>evss wait. evs = concat evss @ wait \<and> list_all2 comes_whole evss (map smb_frame ms) \<and>
        (\<forall>ev \<in> set wait. ev_select ev = 0)) \<and>
     (\<forall>m \<in> set ms. smb_proper ring m \<and> length (smb_body m) \<le> 0x1FFFFF \<and>
        int (length (smb_body m)) + 4 \<le> r_size ring)"

lemma smb_direction:
  assumes ring: "fresh_ring ring" and t: "smb_traffic ring evs ms"
  shows "\<exists>ring'. dir_run c ord pass evs (start_dir ring) = Returns (0, start_dir ring',
      concat (map smb_frame ms), concat (map smb_frame ms)) \<and> fresh_ring ring'"
proof -
  obtain evss wait where evs: "evs = concat evss @ wait" "list_all2 comes_whole evss (map smb_frame ms)"
      "\<forall>ev \<in> set wait. ev_select ev = 0"
    using t by (auto simp: smb_traffic_def)
  have "\<forall>m \<in> set (map smb_frame ms). fits_relay ring m \<and> vetted ring c ord pass m"
  proof
    fix m assume "m \<in> set (map smb_frame ms)"
    then obtain x where x: "x \<in> set ms" "m = smb_frame x" by auto
    then have p: "smb_proper ring x" "length (smb_body x) \<le> 0x1FFFFF" "int (length (smb_body x)) + 4 \<le> r_size ring"
      using t by (auto simp: smb_traffic_def)
    then have "is_message (transport (smb_body x))" by (intro transport_message) simp
    with p x(2) smb_accepted [OF p(1,2)] show "fits_relay ring m \<and> vetted ring c ord pass m"
      by (simp add: fits_relay_def smb_frame_def transport_def)
  qed
  from messages_delivered [OF ring evs(2) this] obtain ring' where
    "dir_run c ord pass (concat evss) (start_dir ring) = Returns (0, start_dir ring',
      concat (map smb_frame ms), concat (map smb_frame ms))" "fresh_ring ring'" by blast
  then show ?thesis
    using idle_run [OF _ evs(3)] evs(1) by (fastforce simp: dir_run_append_0)
qed

text \<open>The receiver of such a stream finds the messages by their length bytes.\<close>

lemma smb_stream_read:
  assumes "smb_traffic ring evs css"
  shows "decode_times (length css) next_message (concat (map smb_frame css)) =
    Some (map smb_body css, [])"
proof -
  have "list_all (\<lambda>m. length m < 2 ^ 32) (map smb_body css)"
    using assms by (fastforce simp: smb_traffic_def list_all_iff)
  from transport_codec.decode_times_concat [OF this, of "[]"] show ?thesis
    by (simp add: smb_frame_def comp_def)
qed

lemma smb_carried:
  assumes "fresh_ring cr" "fresh_ring sr"
    and "smb_traffic cr (map fst evs) ccs" "smb_traffic sr (map snd evs) scs"
  defines "up \<equiv> concat (map smb_frame ccs)" and "down \<equiv> concat (map smb_frame scs)"
  shows "\<exists>cr' sr'. relay_loop ord pass evs (start_conn cr sr) no_io = Returns (0, start_conn cr' sr',
      \<lparr>from_client = up, to_server = up, from_server = down, to_client = down\<rparr>) \<and>
    fresh_ring cr' \<and> fresh_ring sr'"
proof -
  obtain cr' sr' where
    "dir_run True ord pass (map fst evs) (start_dir cr) = Returns (0, start_dir cr', up, up)" "fresh_ring cr'"
    "dir_run False ord pass (map snd evs) (start_dir sr) = Returns (0, start_dir sr', down, down)" "fresh_ring sr'"
    using smb_direction [OF assms(1,3)] smb_direction [OF assms(2,4)] unfolding up_def down_def by blast
  then have "relay_loop ord pass evs (start_conn cr sr) no_io = Returns (0, start_conn cr' sr',
      \<lparr>from_client = up, to_server = up, from_server = down, to_client = down\<rparr>)"
    by (simp add: relay_loop_dirs start_conn_def no_io_def)
  with \<open>fresh_ring cr'\<close> \<open>fresh_ring sr'\<close> show ?thesis by blast
qed

section \<open>A connection of the gateway\<close>

text \<open>
  C1: The gateway carries SMB. When a thread has connected its client to the server and both peers
  send SMB1 messages whose ANDX blocks follow one another and compound SMB2 messages, in any order,
  that fit the buffer, each header in one read and each message in any number of reads, then,
  whatever the accept loop and the other connections do in between, all that each peer has sent is
  passed on to the other unchanged, in either mode; the connection is still up, with empty rings,
  ready for the next message; and a receiver who cuts its stream up by the length bytes gets the
  messages of its peer, in order.
\<close>

theorem gateway_carries_smb:
  assumes "reach mode cs q" "gateway_ready cs" "pool_step mode q (Connect i s) p" "main_at q \<noteq> SettingMode i"
    and "runs (pool_step mode) p es p'" "CloseClient i \<notin> set es"
    and "smb_traffic (client_ring (ctx (slots p ! i))) (map fst (relay_events i es)) ccs"
    and "smb_traffic (server_ring (ctx (slots p ! i))) (map snd (relay_events i es)) scs"
  defines "c \<equiv> ctx (slots p ! i)"
    and "up \<equiv> concat (map smb_frame ccs)" and "down \<equiv> concat (map smb_frame scs)"
  shows "(\<exists>cr sr. relay_loop (ordinal c) (passthrough c) (relay_events i es)
        (start_conn (client_ring c) (server_ring c)) no_io = Returns (0, start_conn cr sr,
          \<lparr>from_client = up, to_server = up, from_server = down, to_client = down\<rparr>) \<and>
      slots p' ! i = \<lparr>ctx = c\<lparr>client_ring := cr, server_ring := sr\<rparr>, pc = Relaying psHeader 4 psHeader 4\<rparr> \<and>
      fresh_ring cr \<and> fresh_ring sr) \<and>
    decode_times (length ccs) next_message up = Some (map smb_body ccs, []) \<and>
    decode_times (length scs) next_message down = Some (map smb_body scs, [])"
proof -
  note ok = reach_pool_ok [OF assms(1,2)]
  note con = connected_serving [OF ok assms(3,4), folded c_def]
  obtain cr sr where run: "relay_loop (ordinal c) (passthrough c) (relay_events i es)
        (start_conn (client_ring c) (server_ring c)) no_io = Returns (0, start_conn cr sr,
          \<lparr>from_client = up, to_server = up, from_server = down, to_client = down\<rparr>)" "fresh_ring cr" "fresh_ring sr"
    using smb_carried [OF con(3,4) assms(7,8) [folded c_def]] unfolding up_def down_def by blast
  have "slots p' ! i = slot_after c 0 (start_conn cr sr)"
    using serving_run [OF assms(5) con(1) pool_turns.step_keeps [OF ok assms(3)] assms(6)] run(1) con(2)
    by (auto simp: c_def)
  with run show ?thesis
    using smb_stream_read [OF assms(7)] smb_stream_read [OF assms(8)]
    unfolding up_def down_def by (simp add: slot_after_def start_conn_def start_dir_def)
qed

text \<open>An SMB1 and an SMB2 message, which a client and a server send at the same time.\<close>

definition negotiate_frame :: "u8 list" where
  "negotiate_frame = smb_frame (Smb1 (sample_v1 SMB_COM_NEGOTIATE [0, 0, 0]))"

definition read_frame :: "u8 list" where
  "read_frame = smb_frame (Smb2 [(sample_v2 SMB2_READ 0, [])])"

lemma sample_traffic:
  assumes "v1_reach + 4 \<le> r_size ring"
    and "x \<in> {Smb1 (sample_v1 SMB_COM_NEGOTIATE [0, 0, 0]), Smb2 [(sample_v2 SMB2_READ 0, [])]}"
  shows "smb_traffic ring [arrives (take 4 (smb_frame x)), arrives (drop 4 (smb_frame x))] [x]"
proof -
  have wf: "smb2_header_wf (sample_v2 SMB2_READ 0)"
    by (simp add: sample_v2_def smb2_header_wf_def smb2_magic_def)
  have "andx_forward m SMB_COM_NEGOTIATE 33" for m
    by (subst andx_forward.simps) (simp add: smbproto_is_andx_command_def)
  then have p: "smb_proper ring x" "0 < length (smb_body x)" "length (smb_body x) \<le> 64"
    using assms wf length_layout_smb2_header [OF wf]
    by (auto simp: sample_v2_def smb2_compound_def sample_v1_def smb_magic_def)
  then have "comes_whole [arrives (take 4 (smb_frame x)), arrives (drop 4 (smb_frame x))] (smb_frame x)"
    by (intro comes_in_two) (simp add: smb_frame_def transport_def)
  with p assms(1) show ?thesis
    unfolding smb_traffic_def
    by (intro conjI exI [of _ "[[arrives (take 4 (smb_frame x)), arrives (drop 4 (smb_frame x))]]"] exI [of _ "[]"])
      (simp_all add: v1_reach_def)
qed

theorem gateway_carries_smb_witness:
  "\<exists>p'. runs (pool_step False) (connected_pool 65600)
      [Relay 0 (arrives (take 4 negotiate_frame)) (arrives (take 4 read_frame)),
       AcceptNothing,
       Relay 0 (arrives (drop 4 negotiate_frame)) (arrives (drop 4 read_frame))] p' \<and>
    pc (slots p' ! 0) = Relaying psHeader 4 psHeader 4 \<and>
    decode_times 1 next_message read_frame = Some ([smb2_compound [(sample_v2 SMB2_READ 0, [])]], [])"
proof -
  let ?up = "Smb1 (sample_v1 SMB_COM_NEGOTIATE [0, 0, 0])" and ?down = "Smb2 [(sample_v2 SMB2_READ 0, [])]"
  let ?p = "connected_pool 65600" and ?ctx = "ctx (slots (connected_pool 65600) ! 0)"
  let ?e1 = "(arrives (take 4 negotiate_frame), arrives (take 4 read_frame))"
    and ?e2 = "(arrives (drop 4 negotiate_frame), arrives (drop 4 read_frame))"
  let ?es = "[Relay 0 (fst ?e1) (snd ?e1), AcceptNothing, Relay 0 (fst ?e2) (snd ?e2)]"
  have ready: "gateway_ready [idle_ctx 65600]" by (rule idle_ready) (simp_all add: int_max_def)
  have size: "v1_reach + 4 \<le> r_size (client_ring ?ctx)" "v1_reach + 4 \<le> r_size (server_ring ?ctx)"
    using connected_ctx(3) [of 65600] by (simp_all add: ring_sizes_def v1_reach_def)
  have up: "smb_traffic (client_ring ?ctx) (map fst [?e1, ?e2]) [?up]"
    using sample_traffic [OF size(1), of ?up] by (simp add: negotiate_frame_def)
  have down: "smb_traffic (server_ring ?ctx) (map snd [?e1, ?e2]) [?down]"
    using sample_traffic [OF size(2), of ?down] by (simp add: read_frame_def)
  note con = connected_serving [OF reach_pool_ok [OF reach_accepted ready] connected_step connected_ctx(4)]
  obtain conn io where "relay_loop (ordinal ?ctx) (passthrough ?ctx) [?e1, ?e2] (conn_of (slots ?p ! 0)) no_io =
      Returns (0, conn, io)"
    using smb_carried [OF con(3,4) up down] con(2) by metis
  with serving_can_run [OF con(1), of "[?e1, ?e2]" conn io False]
  obtain p1 p' where "runs (pool_step False) ?p [Relay 0 (fst ?e1) (snd ?e1)] p1"
      "runs (pool_step False) p1 [Relay 0 (fst ?e2) (snd ?e2)] p'"
    by (auto simp: runs_Cons)
  moreover from calculation(1) have "main_at p1 = Accepting"
    by (auto simp: runs_Cons step_relay connected_pool_def)
  then have "pool_step False p1 AcceptNothing p1" by (rule pool_step.accept_nothing)
  ultimately have run: "runs (pool_step False) ?p ?es p'"
    by (auto simp: runs_Cons)
  have ev: "relay_events 0 ?es = [?e1, ?e2]" by simp
  have "CloseClient 0 \<notin> set ?es" by simp
  from gateway_carries_smb [OF reach_accepted ready connected_step connected_ctx(4) run this, unfolded ev, OF up down]
  show ?thesis using run by (auto simp: read_frame_def)
qed

end
